(* ===== verification/Schema.thy ===== *)
theory Schema
  imports Prelude
begin

text \<open>
  The data model of \<^verbatim>\<open>crates/graph-core/src/schema.rs\<close> and the error type of
  \<^verbatim>\<open>crates/graph-store/src/lib.rs\<close>: node kinds and the containment relation, the symbol
  and token vocabularies with their textual names, spans, token and symbol declarations,
  and stored nodes.
\<close>

type_synonym node_id = u64

subsection \<open>Node kinds and containment\<close>

datatype node_kind = Org | Repo | File | Symbol | Token

fun can_contain :: "node_kind \<Rightarrow> node_kind \<Rightarrow> bool" where
  "can_contain Org Repo = True"
| "can_contain Repo File = True"
| "can_contain File Symbol = True"
| "can_contain File Token = True"
| "can_contain Symbol Symbol = True"
| "can_contain Symbol Token = True"
| "can_contain _ _ = False"

datatype schema_error = InvalidContainment node_kind node_kind

definition check_contains :: "node_kind \<Rightarrow> node_kind \<Rightarrow> schema_error + unit" where
  "check_contains parent child =
     (if can_contain parent child then Inr () else Inl (InvalidContainment parent child))"

subsection \<open>Symbol kinds and token classes\<close>

datatype symbol_kind = Module | Type | Function | Method | Variable | Constant | OtherKind

fun symbol_kind_as_str :: "symbol_kind \<Rightarrow> string" where
  "symbol_kind_as_str Module = ''module''"
| "symbol_kind_as_str Type = ''type''"
| "symbol_kind_as_str Function = ''function''"
| "symbol_kind_as_str Method = ''method''"
| "symbol_kind_as_str Variable = ''variable''"
| "symbol_kind_as_str Constant = ''constant''"
| "symbol_kind_as_str OtherKind = ''other''"

definition symbol_kind_from_str :: "string \<Rightarrow> string + symbol_kind" where
  "symbol_kind_from_str s =
     (if s = ''module'' then Inr Module
      else if s = ''type'' then Inr Type
      else if s = ''function'' then Inr Function
      else if s = ''method'' then Inr Method
      else if s = ''variable'' then Inr Variable
      else if s = ''constant'' then Inr Constant
      else if s = ''other'' then Inr OtherKind
      else Inl (''unknown symbol kind `'' @ s @ ''`''))"

datatype token_class =
  Identifier | Keyword | Literal | Operator | Punctuation | Comment | OtherClass

fun token_class_as_str :: "token_class \<Rightarrow> string" where
  "token_class_as_str Identifier = ''identifier''"
| "token_class_as_str Keyword = ''keyword''"
| "token_class_as_str Literal = ''literal''"
| "token_class_as_str Operator = ''operator''"
| "token_class_as_str Punctuation = ''punctuation''"
| "token_class_as_str Comment = ''comment''"
| "token_class_as_str OtherClass = ''other''"

definition token_class_from_str :: "string \<Rightarrow> string + token_class" where
  "token_class_from_str s =
     (if s = ''identifier'' then Inr Identifier
      else if s = ''keyword'' then Inr Keyword
      else if s = ''literal'' then Inr Literal
      else if s = ''operator'' then Inr Operator
      else if s = ''punctuation'' then Inr Punctuation
      else if s = ''comment'' then Inr Comment
      else if s = ''other'' then Inr OtherClass
      else Inl (''unknown token class `'' @ s @ ''`''))"

subsection \<open>Spans, declarations, nodes\<close>

text \<open>Byte offsets \<open>[start, end)\<close>, 1-based lines, 1-based columns in characters.\<close>

record span =
  sp_start :: u32
  sp_end :: u32
  start_line :: u32
  start_col :: u32
  end_line :: u32
  end_col :: u32

record token_decl =
  td_text :: string
  td_class :: token_class
  td_span :: span

record symbol_decl =
  sd_name :: string
  sd_kind :: symbol_kind
  sd_lang_kind :: "string option"
  sd_span :: span
  sd_owner :: "string option"

record extraction =
  ex_symbols :: "symbol_decl list"
  ex_tokens :: "token_decl list"
  ex_has_errors :: bool

record node =
  n_id :: node_id
  n_parent :: "node_id option"
  n_kind :: node_kind
  n_name :: string
  n_language :: "string option"
  n_symbol_kind :: "symbol_kind option"
  n_lang_kind :: "string option"
  n_token_class :: "token_class option"
  n_has_errors :: bool
  n_origin :: "string option"
  n_fingerprint :: "string option"
  n_encoding :: "string option"
  n_lossy :: bool
  n_span :: "span option"

subsection \<open>Store errors\<close>

datatype store_error =
    Locked string
  | SchemaMismatch u64
  | LegacyFormat string u64
  | OpenFailed string string
  | Rejected string
  | NotUtf8 string
  | StrictEncoding string string
  | Binary string
  | TooLarge string
  | InvalidSpan string
  | Corrupt string
  | SchemaErr schema_error
  | Storage string
  | SnapshotExpired u64 u64
  | NotLeader "u64 option" "string option"
  | NoLeader u64
  | Protocol string
  | WrongCluster string string
  | AlreadyApplied u64
  | DeadlineExceeded string
  | Unauthenticated string
  | PermissionDenied string string

type_synonym 'a result = "store_error + 'a"

subsection \<open>Facts\<close>

lemma symbol_kind_from_as_str: "symbol_kind_from_str (symbol_kind_as_str k) = Inr k"
  by (cases k) (simp_all add: symbol_kind_from_str_def)

lemma symbol_kind_as_from_str: "symbol_kind_from_str s = Inr k \<Longrightarrow> symbol_kind_as_str k = s"
  by (auto simp: symbol_kind_from_str_def split: if_splits)

lemma token_class_from_as_str: "token_class_from_str (token_class_as_str c) = Inr c"
  by (cases c) (simp_all add: token_class_from_str_def)

lemma token_class_as_from_str: "token_class_from_str s = Inr c \<Longrightarrow> token_class_as_str c = s"
  by (auto simp: token_class_from_str_def split: if_splits)

end
