(* ===== verification/Varint.thy ===== *)
theory Varint
  imports Schema
begin

unbundle bit_operations_syntax

text \<open>
  The integer layer of \<^verbatim>\<open>crates/graph-store/src/codec.rs\<close>: LEB128 varints
  (\<open>put_varint\<close>, \<open>varint_len\<close>), zigzag deltas (\<open>zigzag\<close>, \<open>unzigzag\<close>, \<open>diff\<close>),
  spans (\<open>put_span\<close>) and the \<open>Reader\<close> that reads them back. A writer that appends to a
  \<open>Vec<u8>\<close> is modelled by the bytes it appends.
\<close>

subsection \<open>Writers\<close>

function put_varint :: "u64 \<Rightarrow> u8 list" where
  "put_varint v =
     (if v \<ge> 0x80 then (ucast v OR 0x80) # put_varint (drop_bit 7 v) else [ucast v])"
  by pat_completeness auto
termination
proof (relation "measure unat")
  fix v :: u64
  assume "v \<ge> 0x80"
  then have "unat v \<ge> 128" by (simp add: word_le_nat_alt)
  then have "drop_bit 7 (unat v) < unat v" by (simp add: drop_bit_eq_div)
  then show "(drop_bit 7 v, v) \<in> measure unat"
    by (simp add: unat_drop_bit_eq)
qed simp

declare put_varint.simps [simp del]

text \<open>\<open>v.leading_zeros()\<close> of a \<open>u64\<close>: the number of zero bits above the highest set bit.\<close>

fun leading_zeros_from :: "nat \<Rightarrow> u64 \<Rightarrow> nat" where
  "leading_zeros_from 0 v = 0"
| "leading_zeros_from (Suc n) v = (if bit v n then 0 else Suc (leading_zeros_from n v))"

definition leading_zeros :: "u64 \<Rightarrow> nat" where
  "leading_zeros v = leading_zeros_from 64 v"

definition varint_len :: "u64 \<Rightarrow> nat" where
  "varint_len v = (let bits = 64 - leading_zeros v in (max bits 1 + 6) div 7)"

text \<open>Signed 64-bit values are words read with \<open>sint\<close>; \<open>d >> 63\<close> on an \<open>i64\<close> is arithmetic.\<close>

definition zigzag :: "64 word \<Rightarrow> u64" where
  "zigzag d = push_bit 1 d XOR signed_drop_bit 63 d"

definition unzigzag :: "u64 \<Rightarrow> 64 word" where
  "unzigzag v = drop_bit 1 v XOR - (v AND 1)"

definition diff :: "u32 \<Rightarrow> u32 \<Rightarrow> u64" where
  "diff cur base = zigzag (ucast cur - ucast base)"

definition put_span :: "span \<Rightarrow> span \<Rightarrow> u8 list" where
  "put_span s prev =
     put_varint (diff (sp_start s) (sp_start prev)) @
     put_varint (diff (sp_end s) (sp_start s)) @
     put_varint (diff (start_line s) (start_line prev)) @
     put_varint (diff (start_col s) (start_col prev)) @
     put_varint (diff (end_line s) (start_line s)) @
     put_varint (ucast (end_col s))"

definition put_parent :: "u32 option \<Rightarrow> u8 list" where
  "put_parent p = put_varint (case p of None \<Rightarrow> 0 | Some q \<Rightarrow> ucast q + 1)"

definition ZERO :: span where
  "ZERO = \<lparr>sp_start = 0, sp_end = 0, start_line = 0, start_col = 0, end_line = 0, end_col = 0\<rparr>"

subsection \<open>The reader\<close>

record reader =
  rb :: "u8 list"
  at :: nat

definition bad :: "string \<Rightarrow> store_error" where
  "bad what = Corrupt (''stream: '' @ what)"

definition rd_byte :: "reader \<Rightarrow> (u8 \<times> reader) result" where
  "rd_byte r =
     (if at r < length (rb r) then Inr (rb r ! at r, r\<lparr>at := at r + 1\<rparr>)
      else Inl (bad ''truncated''))"

lemma rd_byte_decreases:
  "rd_byte r = Inr (b, r') \<Longrightarrow> length (rb r') - at r' < length (rb r) - at r"
  by (auto simp: rd_byte_def split: if_splits)

function varint_loop :: "reader \<Rightarrow> u64 \<Rightarrow> nat \<Rightarrow> (u64 \<times> reader) result" where
  "varint_loop r v shift =
     bindE (rd_byte r) (\<lambda>(b, r').
       if shift > 63 \<or> (shift = 63 \<and> b > 1) then Inl (bad ''varint overflow'')
       else
         let v' = v OR push_bit shift (ucast (b AND 0x7f)) in
         if b AND 0x80 = 0 then Inr (v', r') else varint_loop r' v' (shift + 7))"
  by pat_completeness auto
termination
  by (relation "measure (\<lambda>(r, v, shift). length (rb r) - at r)")
     (auto dest: rd_byte_decreases)

declare varint_loop.simps [simp del]

definition rd_varint :: "reader \<Rightarrow> (u64 \<times> reader) result" where
  "rd_varint r =
     (if at r < length (rb r) \<and> rb r ! at r < 0x80
      then Inr (ucast (rb r ! at r), r\<lparr>at := at r + 1\<rparr>)
      else varint_loop r 0 0)"

text \<open>\<open>i64::checked_add\<close> and \<open>u32::try_from(i64)\<close>.\<close>

definition checked_add_i64 :: "64 word \<Rightarrow> 64 word \<Rightarrow> 64 word option" where
  "checked_add_i64 a b =
     (if - (2 ^ 63) \<le> sint a + sint b \<and> sint a + sint b < 2 ^ 63 then Some (a + b) else None)"

definition u32_try_from_i64 :: "64 word \<Rightarrow> u32 option" where
  "u32_try_from_i64 v = (if 0 \<le> sint v \<and> sint v < 2 ^ 32 then Some (ucast v) else None)"

definition u32_try_from_u64 :: "u64 \<Rightarrow> u32 option" where
  "u32_try_from_u64 v = (if unat v < 2 ^ 32 then Some (ucast v) else None)"

definition rd_rel :: "u32 \<Rightarrow> reader \<Rightarrow> (u32 \<times> reader) result" where
  "rd_rel base r =
     bindE (rd_varint r) (\<lambda>(x, r).
     bindE (ok_or (bad ''span delta overflow'') (checked_add_i64 (ucast base) (unzigzag x))) (\<lambda>v.
     bindE (ok_or (bad ''span field out of range'') (u32_try_from_i64 v)) (\<lambda>w.
     Inr (w, r))))"

definition rd_span :: "span \<Rightarrow> reader \<Rightarrow> (span \<times> reader) result" where
  "rd_span prev r =
     bindE (rd_rel (sp_start prev) r) (\<lambda>(st, r).
     bindE (rd_rel st r) (\<lambda>(en, r).
     bindE (rd_rel (start_line prev) r) (\<lambda>(sl, r).
     bindE (rd_rel (start_col prev) r) (\<lambda>(sc, r).
     bindE (rd_rel sl r) (\<lambda>(el, r).
     bindE (rd_varint r) (\<lambda>(x, r).
     bindE (ok_or (bad ''span col out of range'') (u32_try_from_u64 x)) (\<lambda>ec.
     Inr (\<lparr>sp_start = st, sp_end = en, start_line = sl, start_col = sc, end_line = el,
            end_col = ec\<rparr>, r))))))))"

definition rd_parent :: "reader \<Rightarrow> (u32 option \<times> reader) result" where
  "rd_parent r =
     bindE (rd_varint r) (\<lambda>(p, r).
       if p = 0 then Inr (None, r)
       else bindE (ok_or (bad ''parent out of range'') (u32_try_from_u64 (p - 1)))
              (\<lambda>q. Inr (Some q, r)))"

subsection \<open>What it means to read back\<close>

text \<open>
  \<open>reads get bs v\<close>: positioned before the bytes \<open>bs\<close>, the reader \<open>get\<close> returns \<open>v\<close> and
  stops right after them, whatever surrounds them.
\<close>

definition reads :: "(reader \<Rightarrow> ('a \<times> reader) result) \<Rightarrow> u8 list \<Rightarrow> 'a \<Rightarrow> bool" where
  "reads get bs v \<longleftrightarrow>
     (\<forall>r rest. drop (at r) (rb r) = bs @ rest \<longrightarrow> get r = Inr (v, r\<lparr>at := at r + length bs\<rparr>))"

text \<open>The number of significant bits of a \<open>u64\<close>.\<close>

definition sig_bits :: "u64 \<Rightarrow> nat" where
  "sig_bits v = 64 - leading_zeros v"

subsection \<open>Bits\<close>

lemma take_bit_7_eq_self: "take_bit 7 v = v" if "unat v < 128" for v :: "'a::len word"
proof -
  have "take_bit 7 (unat v) = unat v" using that by (simp add: take_bit_nat_eq_self)
  then show ?thesis by (simp add: word_unat_eq_iff unsigned_take_bit_eq)
qed

lemma bit_zigzag: "bit (zigzag d) n \<longleftrightarrow> n < 64 \<and> ((n \<noteq> 0 \<and> bit d (n - 1)) \<noteq> bit d 63)"
proof (cases n)
  case 0
  then show ?thesis
    unfolding zigzag_def bit_xor_iff bit_push_bit_iff bit_signed_drop_bit_iff by simp
next
  case (Suc m)
  then show ?thesis
    unfolding zigzag_def bit_xor_iff bit_push_bit_iff bit_signed_drop_bit_iff
    by (auto dest: bit_imp_le_length)
qed

lemma bit_unzigzag: "bit (unzigzag v) n \<longleftrightarrow> n < 64 \<and> (bit v (Suc n) \<noteq> bit v 0)"
proof -
  have "v AND 1 = of_bool (bit v 0)"
    by (simp add: and_one_eq bit_0 mod_2_eq_odd)
  then show ?thesis
    unfolding unzigzag_def bit_xor_iff bit_drop_bit_eq
    by (auto dest: bit_imp_le_length)
qed

lemma unzigzag_zigzag [simp]: "unzigzag (zigzag d) = d"
proof (rule bit_word_eqI)
  fix n assume "n < LENGTH(64)"
  then show "bit (unzigzag (zigzag d)) n = bit d n"
    by (cases "n = 63") (auto simp: bit_zigzag bit_unzigzag)
qed

lemma zigzag_unzigzag: "zigzag (unzigzag v) = v"
proof (rule bit_word_eqI)
  fix n assume "n < LENGTH(64)"
  then show "bit (zigzag (unzigzag v)) n = bit v n"
    by (cases n) (auto simp: bit_zigzag bit_unzigzag dest: bit_imp_le_length)
qed

lemma u8_less_80_iff: "x < 0x80 \<longleftrightarrow> \<not> bit x 7" for x :: u8
proof -
  have "bit x 7 \<longleftrightarrow> odd (unat x div 128)"
    using bit_unsigned_iff [where ?'a = nat and w = x and n = 7] by (simp add: bit_iff_odd)
  moreover have "unat x div 128 = 1" if "\<not> unat x < 128"
  proof -
    have "unat x < 2 ^ LENGTH(8)" by (rule unsigned_less)
    with that show ?thesis by (intro div_nat_eqI) auto
  qed
  ultimately show ?thesis by (cases "unat x < 128") (simp_all add: word_less_nat_alt)
qed

lemma u8_and_80: "x AND 0x80 = 0 \<longleftrightarrow> \<not> bit x 7" for x :: u8
  using and_exp_eq_0_iff_not_bit [of x 7] by simp

lemma u8_and_7f: "x AND 0x7f = take_bit 7 x" for x :: u8
  by (simp add: take_bit_eq_mask mask_eq_exp_minus_1)

lemma u8_or_80: "x OR 0x80 = set_bit 7 x" for x :: u8
  by (simp add: set_bit_eq_or)

lemma rd_byte_Cons:
  "drop (at r) (rb r) = b # rest \<Longrightarrow> rd_byte r = Inr (b, r\<lparr>at := Suc (at r)\<rparr>)"
  by (auto simp: rd_byte_def dest: nth_drop_hd)

lemma reads_byte: "reads rd_byte [b] b"
  by (simp add: reads_def rd_byte_Cons)

lemma put_varint_small: "v < 0x80 \<Longrightarrow> put_varint v = [ucast v]"
  by (simp add: put_varint.simps not_le)

lemma put_varint_large: "v \<ge> 0x80 \<Longrightarrow>
   put_varint v = (ucast v OR 0x80) # put_varint (drop_bit 7 v)"
  by (simp add: put_varint.simps [of v])

text \<open>The loop reads back the bits of \<open>w\<close> from \<open>s\<close> up.\<close>

lemma varint_byte_acc:
  "push_bit s (ucast (take_bit 7 (ucast v :: u8)) :: u64) = push_bit s (take_bit 7 v)" for v :: u64
  by (rule bit_word_eqI) (auto simp: bit_simps)

lemma varint_loop_last:
  assumes "drop (at r) (rb r) = ucast v # rest" and "v < 0x80" and "s \<le> 63" and "s = 63 \<Longrightarrow> v \<le> 1"
  shows "varint_loop r acc s = Inr (acc OR push_bit s v, r\<lparr>at := Suc (at r)\<rparr>)"
proof -
  have "unat v < 128" using assms(2) by (simp add: word_less_nat_alt)
  then have small: "take_bit 7 v = v" "\<not> bit (ucast v :: u8) 7"
    using take_bit_7_eq_self [of v] bit_take_bit_iff [of 7 v 7] by (auto simp: bit_simps)
  have "ucast v \<le> (1 :: u8)" if "s = 63"
  proof -
    have "unat v = 0 \<or> unat v = 1" using assms(4) [OF that] by (auto simp: word_le_nat_alt)
    then have "v = 0 \<or> v = 1" by (auto simp: word_unat_eq_iff)
    then show ?thesis by auto
  qed
  then show ?thesis
    using assms(1,3) small
    by (subst varint_loop.simps)
       (auto simp: rd_byte_Cons u8_and_7f u8_and_80 varint_byte_acc Let_def not_le)
qed

lemma varint_loop_more:
  assumes "drop (at r) (rb r) = (ucast v OR 0x80) # rest" and "s < 63"
  shows "varint_loop r acc s =
           varint_loop (r\<lparr>at := Suc (at r)\<rparr>) (acc OR push_bit s (take_bit 7 v)) (s + 7)"
proof -
  have "take_bit 7 (set_bit 7 (ucast v :: u8)) = take_bit 7 (ucast v)" "bit (set_bit 7 (ucast v :: u8)) 7"
    by (rule bit_word_eqI, auto simp: bit_simps)
  then show ?thesis
    using assms
    by (subst varint_loop.simps)
       (simp add: rd_byte_Cons u8_or_80 u8_and_7f u8_and_80 varint_byte_acc Let_def)
qed

lemma acc_step:
  "(acc OR push_bit s (take_bit 7 v)) OR push_bit (s + 7) (drop_bit 7 v) = acc OR push_bit s v"
  for acc v :: u64
proof (rule bit_word_eqI)
  fix n
  have "7 + (n - (s + 7)) = n - s" if "\<not> n - s < 7" using that by simp
  then show "bit ((acc OR push_bit s (take_bit 7 v)) OR push_bit (s + 7) (drop_bit 7 v)) n =
      bit (acc OR push_bit s v) n"
    by (cases "n - s < 7") (auto simp: bit_simps)
qed

lemma unat_less_exp_iff_bits: "unat v < 2 ^ k \<longleftrightarrow> (\<forall>n. bit v n \<longrightarrow> n < k)" for v :: "'a::len word"
proof
  assume "unat v < 2 ^ k"
  then have "take_bit k (unat v) = unat v" by (simp add: take_bit_nat_eq_self)
  then have "take_bit k v = v" by (simp add: word_unat_eq_iff unsigned_take_bit_eq)
  then show "\<forall>n. bit v n \<longrightarrow> n < k" by (metis bit_take_bit_iff)
next
  assume *: "\<forall>n. bit v n \<longrightarrow> n < k"
  have "take_bit k v = v" by (rule bit_word_eqI) (use * in \<open>auto simp: bit_simps\<close>)
  then have "unat v = take_bit k (unat v)" by (metis unsigned_take_bit_eq)
  then show "unat v < 2 ^ k" by (metis take_bit_nat_less_exp)
qed

text \<open>\<open>v\<close> has at most \<open>64 - s\<close> bits\<close>

lemma varint_loop_reads:
  assumes "drop (at r) (rb r) = put_varint v @ rest" and "\<And>n. bit v n \<Longrightarrow> n + s < 64" and "s \<le> 63" and "s mod 7 = 0"
  shows "varint_loop r acc s = Inr (acc OR push_bit s v, r\<lparr>at := at r + length (put_varint v)\<rparr>)"
  using assms
proof (induction v arbitrary: r acc s rule: put_varint.induct)
  case (1 v)
  show ?case
  proof (cases "v \<ge> 0x80")
    case True
    then have "\<not> unat v < 2 ^ 7" by (simp add: word_le_nat_alt)
    then obtain n where n: "bit v n" "n \<ge> 7"
      unfolding unat_less_exp_iff_bits by auto
    with "1.prems"(2) [OF n(1)] "1.prems"(4) have s: "s < 63" "s + 7 \<le> 63" by presburger+
    have *: "drop (at r) (rb r) = (ucast v OR 0x80) # (put_varint (drop_bit 7 v) @ rest)"
      using "1.prems"(1) True by (simp add: put_varint_large)
    have IH: "varint_loop (r\<lparr>at := Suc (at r)\<rparr>) (acc OR push_bit s (take_bit 7 v)) (s + 7) =
        Inr ((acc OR push_bit s (take_bit 7 v)) OR push_bit (s + 7) (drop_bit 7 v),
             (r\<lparr>at := Suc (at r)\<rparr>)\<lparr>at := at (r\<lparr>at := Suc (at r)\<rparr>) + length (put_varint (drop_bit 7 v))\<rparr>)"
    proof (rule "1.IH" [OF True])
      show "drop (at (r\<lparr>at := Suc (at r)\<rparr>)) (rb (r\<lparr>at := Suc (at r)\<rparr>)) = put_varint (drop_bit 7 v) @ rest"
        using nth_drop_hd(3) [OF *] by simp
      show "n + (s + 7) < 64" if "bit (drop_bit 7 v) n" for n
        using "1.prems"(2) [of "7 + n"] that by (simp add: bit_drop_bit_eq)
      show "s + 7 \<le> 63" by (rule s)
      show "(s + 7) mod 7 = 0" using "1.prems"(4) by simp
    qed
    show ?thesis
      using True unfolding varint_loop_more [OF * s(1)] IH acc_step by (simp add: put_varint_large)
  next
    case False
    then have v: "v < 0x80" by simp
    have *: "drop (at r) (rb r) = ucast v # rest"
      using "1.prems"(1) v by (simp add: put_varint_small)
    have "v \<le> 1" if "s = 63"
    proof -
      have "unat v < 2 ^ 1"
        unfolding unat_less_exp_iff_bits using "1.prems"(2) that by fastforce
      then show ?thesis by (simp add: word_le_nat_alt)
    qed
    then show ?thesis
      using varint_loop_last [OF * v "1.prems"(3)] v by (simp add: put_varint_small)
  qed
qed
lemma reads_varint: "reads rd_varint (put_varint v) v"
  unfolding reads_def
proof (intro allI impI)
  fix r :: reader and rest
  assume *: "drop (at r) (rb r) = put_varint v @ rest"
  show "rd_varint r = Inr (v, r\<lparr>at := at r + length (put_varint v)\<rparr>)"
  proof (cases "v < 0x80")
    case True
    then have hd: "drop (at r) (rb r) = ucast v # rest"
      using * by (simp add: put_varint_small)
    have "unat v < 2 ^ 7" using True by (simp add: word_less_nat_alt)
    then have small: "unat (ucast v :: u8) = unat v" "unat (ucast v :: u8) < 128"
      by (simp_all add: unsigned_ucast_eq unsigned_take_bit_eq take_bit_nat_eq_self)
    then have "ucast (ucast v :: u8) = v"
      by (simp add: word_unat_eq_iff unsigned_ucast_eq unsigned_take_bit_eq take_bit_nat_eq_self)
    with small nth_drop_hd(1,2) [OF hd] True show ?thesis
      by (simp add: rd_varint_def put_varint_small word_less_nat_alt)
  next
    case False
    then have hd: "drop (at r) (rb r) = (ucast v OR 0x80) # (put_varint (drop_bit 7 v) @ rest)"
      using * by (simp add: put_varint_large)
    have "bit ((ucast v OR 0x80) :: u8) 7" by (simp add: u8_or_80 bit_simps)
    with nth_drop_hd(2) [OF hd] have "\<not> rb r ! at r < 0x80" by (simp add: u8_less_80_iff)
    then have "rd_varint r = varint_loop r 0 0" by (simp add: rd_varint_def)
    also have "\<dots> = Inr (0 OR push_bit 0 v, r\<lparr>at := at r + length (put_varint v)\<rparr>)"
      by (rule varint_loop_reads [OF *]) (auto dest: bit_imp_le_length)
    finally show ?thesis by simp
  qed
qed

lemma reads_pure: "reads (\<lambda>r. Inr (v, r)) [] v"
  by (simp add: reads_def)

lemma readsD: "reads get bs v \<Longrightarrow> drop (at r) (rb r) = bs @ rest \<Longrightarrow> get r = Inr (v, r\<lparr>at := at r + length bs\<rparr>)"
  by (simp add: reads_def)

lemma reads_at:
  assumes "reads get bs v" and "drop n b = bs @ rest"
  shows "get \<lparr>rb = b, at = n\<rparr> = Inr (v, \<lparr>rb = b, at = n + length bs\<rparr>)"
    and "drop (n + length bs) b = rest"
  using readsD [OF assms(1), of "\<lparr>rb = b, at = n\<rparr>" rest] drop_eq_append_length [OF assms(2)] assms(2)
  by simp_all

lemma unat_of_nat_u64: "n < 2 ^ 64 \<Longrightarrow> unat (of_nat n :: u64) = n"
  by (simp add: unat_of_nat take_bit_nat_eq_self_iff)

lemma reads_bind:
  assumes "reads get bs v" and "reads (f v) bs' w"
  shows "reads (\<lambda>r. bindE (get r) (\<lambda>(a, r'). f a r')) (bs @ bs') w"
  unfolding reads_def
proof (intro allI impI)
  fix r :: reader and rest
  assume *: "drop (at r) (rb r) = (bs @ bs') @ rest"
  then have 1: "get r = Inr (v, r\<lparr>at := at r + length bs\<rparr>)"
    using assms(1) by (simp add: reads_def)
  have "drop (at r + length bs) (rb r) = bs' @ rest"
    using * by (intro drop_eq_append_length) simp
  then have "f v (r\<lparr>at := at r + length bs\<rparr>) = Inr (w, r\<lparr>at := at r + length bs + length bs'\<rparr>)"
    using assms(2) by (simp add: reads_def)
  then show "bindE (get r) (\<lambda>(a, r'). f a r') = Inr (w, r\<lparr>at := at r + length (bs @ bs')\<rparr>)"
    using 1 by (simp add: add.assoc)
qed

lemma reads_bind_last:
  assumes "reads get bs v" and "reads (f v) [] w"
  shows "reads (\<lambda>r. bindE (get r) (\<lambda>(a, r'). f a r')) bs w"
  using reads_bind [of get bs v f "[]" w] assms by simp


lemma ucast_u64_u32 [simp]: "ucast (ucast x :: u64) = x" for x :: u32
  by (rule bit_word_eqI) (auto simp: bit_simps)

lemma uint_u32_bounds: "0 \<le> uint x" "uint x < 4294967296" for x :: u32
  using unsigned_less [of x, where ?'a = int] by auto

lemma i64_range_simps:
  "- (2 ^ 63) \<le> (k :: int) \<longleftrightarrow> - 9223372036854775808 \<le> k"
  "(k :: int) < 2 ^ 63 \<longleftrightarrow> k < 9223372036854775808"
  by simp_all

lemma uint_u64_u32 [simp]: "uint (ucast x :: u64) = uint x" for x :: u32
proof (rule bit_eqI)
  fix n show "bit (uint (ucast x :: u64)) n = bit (uint x) n"
    by (auto simp: bit_simps dest: bit_imp_le_length)
qed

lemma unat_u64_u32 [simp]: "unat (ucast x :: u64) = unat x" for x :: u32
  by (metis uint_u64_u32 unat_eq_nat_uint)

lemma sint_u32: "sint (ucast x :: 64 word) = uint x" for x :: u32
proof -
  have "signed_take_bit 63 (uint x) = uint x"
    by (rule signed_take_bit_int_eq_self; unfold i64_range_simps; use uint_u32_bounds [of x] in linarith)
  then show ?thesis by (simp add: sint_uint)
qed

lemma sint_u32_diff:
  "sint (ucast cur - ucast base :: 64 word) = uint cur - uint base" for cur base :: u32
proof -
  have "sint (ucast cur - ucast base :: 64 word) =
      signed_take_bit 63 (uint (ucast cur - ucast base :: 64 word))"
    by (simp add: sint_uint)
  also have "\<dots> = signed_take_bit 63 (uint cur - uint base)"
    unfolding uint_word_ariths take_bit_eq_mod [symmetric]
    by (simp add: signed_take_bit_take_bit)
  also have "\<dots> = uint cur - uint base"
    by (rule signed_take_bit_int_eq_self; unfold i64_range_simps;
        use uint_u32_bounds [of cur] uint_u32_bounds [of base] in linarith)
  finally show ?thesis .
qed

lemma checked_add_diff:
  "checked_add_i64 (ucast base) (ucast cur - ucast base) = Some (ucast cur)" for base cur :: u32
proof -
  have "- (2 ^ 63) \<le> uint cur" "uint cur < 2 ^ 63"
    unfolding i64_range_simps using uint_u32_bounds [of cur] by linarith+
  then show ?thesis by (simp add: checked_add_i64_def sint_u32 sint_u32_diff)
qed

lemma u32_try_from_i64_ucast: "u32_try_from_i64 (ucast cur) = Some cur" for cur :: u32
  using uint_u32_bounds [of cur] by (simp add: u32_try_from_i64_def sint_u32)

lemma u32_try_from_u64_ucast: "u32_try_from_u64 (ucast cur) = Some cur" for cur :: u32
proof -
  have "unat cur < 2 ^ LENGTH(32)" by (rule unsigned_less)
  then show ?thesis by (simp add: u32_try_from_u64_def)
qed

lemma ucast_u32_plus_1_neq_0: "(ucast x :: u64) + 1 \<noteq> 0" for x :: u32
proof
  assume "(ucast x :: u64) + 1 = 0"
  then have "unat ((ucast x :: u64) + 1) = 0" by simp
  moreover have "unat x < 2 ^ LENGTH(32)" by (rule unsigned_less)
  ultimately show False by (simp add: unat_word_ariths)
qed

lemma reads_rel: "reads (rd_rel base) (put_varint (diff cur base)) cur"
  unfolding rd_rel_def
  by (rule reads_bind_last [OF reads_varint])
     (simp add: diff_def checked_add_diff u32_try_from_i64_ucast reads_pure)

lemma reads_span: "reads (rd_span prev) (put_span s prev) s"
  unfolding rd_span_def put_span_def
  by (intro reads_bind [OF reads_rel] reads_bind_last [OF reads_varint])
     (cases s, simp add: u32_try_from_u64_ucast reads_pure)

lemma reads_parent: "reads rd_parent (put_parent p) p"
  unfolding rd_parent_def put_parent_def
  by (rule reads_bind_last [OF reads_varint])
     (cases p; simp add: u32_try_from_u64_ucast ucast_u32_plus_1_neq_0 reads_pure)

text \<open>The number of significant bits.\<close>

lemma leading_zeros_from_bits:
  "(\<forall>m. bit v m \<longrightarrow> m < n \<longrightarrow> m < n - leading_zeros_from n v) \<and>
   (n - leading_zeros_from n v = 0 \<or> bit v (n - leading_zeros_from n v - 1)) \<and>
   leading_zeros_from n v \<le> n"
proof (induction n)
  case (Suc n)
  then show ?case by (auto simp: less_Suc_eq)
qed simp

lemma bits_unique:
  assumes "\<forall>m. bit v m \<longrightarrow> m < k" and "k = 0 \<or> bit v (k - 1)"
    and "\<forall>m. bit v m \<longrightarrow> m < l" and "l = 0 \<or> bit v (l - 1)"
  shows "k = l"
proof (rule antisym)
  show "k \<le> l" using assms(2,3) by (cases k) auto
  show "l \<le> k" using assms(4,1) by (cases l) auto
qed

lemma sig_bits_bound: "bit v m \<Longrightarrow> m < sig_bits v"
  using leading_zeros_from_bits [of v 64] bit_imp_le_length [of v m]
  by (auto simp: sig_bits_def leading_zeros_def)

lemma sig_bits_top: "sig_bits v = 0 \<or> bit v (sig_bits v - 1)"
  using leading_zeros_from_bits [of v 64] by (auto simp: sig_bits_def leading_zeros_def)

lemma sig_bits_drop_bit: "sig_bits (drop_bit k v) = sig_bits v - k"
proof (rule bits_unique [of "drop_bit k v"])
  show "\<forall>m. bit (drop_bit k v) m \<longrightarrow> m < sig_bits (drop_bit k v)" by (simp add: sig_bits_bound)
  show "sig_bits (drop_bit k v) = 0 \<or> bit (drop_bit k v) (sig_bits (drop_bit k v) - 1)"
    by (rule sig_bits_top)
  show "\<forall>m. bit (drop_bit k v) m \<longrightarrow> m < sig_bits v - k"
    using sig_bits_bound [of v] by (auto simp: bit_drop_bit_eq less_diff_conv add.commute)
  show "sig_bits v - k = 0 \<or> bit (drop_bit k v) (sig_bits v - k - 1)"
  proof (cases "sig_bits v \<le> k")
    case False
    then have "k + (sig_bits v - k - 1) = sig_bits v - 1" by simp
    with False sig_bits_top [of v] show ?thesis by (simp add: bit_drop_bit_eq)
  qed simp
qed

lemma sig_bits_le_iff: "sig_bits v \<le> k \<longleftrightarrow> unat v < 2 ^ k"
proof
  assume "sig_bits v \<le> k"
  then show "unat v < 2 ^ k"
    unfolding unat_less_exp_iff_bits using sig_bits_bound [of v] by (auto intro: less_le_trans)
next
  assume "unat v < 2 ^ k"
  then have "bit v (sig_bits v - 1) \<Longrightarrow> sig_bits v - 1 < k" unfolding unat_less_exp_iff_bits by blast
  with sig_bits_top [of v] show "sig_bits v \<le> k" by linarith
qed

lemma length_put_varint_bits: "length (put_varint v) = (max (sig_bits v) 1 + 6) div 7"
proof (induction v rule: put_varint.induct)
  case (1 v)
  have iff: "v \<ge> 0x80 \<longleftrightarrow> 7 < sig_bits v"
  proof -
    have "unat v < 2 ^ 7 \<longleftrightarrow> sig_bits v \<le> 7"
      by (rule sig_bits_le_iff [symmetric])
    then show ?thesis by (auto simp: word_le_nat_alt)
  qed
  show ?case
  proof (cases "v \<ge> 0x80")
    case True
    with "1.IH" have "length (put_varint v) = Suc ((max (sig_bits v - 7) 1 + 6) div 7)"
      by (simp add: put_varint_large sig_bits_drop_bit)
    with True iff show ?thesis by (auto simp: max_def)
  next
    case False
    with iff show ?thesis by (auto simp: put_varint_small not_le max_def)
  qed
qed

lemma length_put_varint: "length (put_varint v) = varint_len v"
  by (simp add: length_put_varint_bits varint_len_def sig_bits_def Let_def)

lemma length_put_varint_le_bits: "sig_bits v \<le> k \<Longrightarrow> length (put_varint v) \<le> (max k 1 + 6) div 7"
  unfolding length_put_varint_bits by (intro div_le_mono) simp

lemma length_put_varint_pos: "0 < length (put_varint v)"
  by (simp add: put_varint.simps [of v])

lemma sig_bits_le: "sig_bits v \<le> 64"
  by (simp add: sig_bits_def)

lemma length_put_varint_le: "length (put_varint v) \<le> 10"
  using length_put_varint_le_bits [OF sig_bits_le [of v]] by simp

subsection \<open>The contract between a writer and its reader\<close>

text \<open>
  Every field of the stored formats is a pair of a writer and a reader. The contract is
  \<open>reads\<close>; from it follow the round trip at any position of any buffer and that the
  encodings are prefix-free, so concatenated fields split in one way only.
\<close>

locale field_codec =
  fixes put :: "'a \<Rightarrow> u8 list"
    and get :: "reader \<Rightarrow> ('a \<times> reader) result"
    and valid :: "'a \<Rightarrow> bool"
  assumes reads_put: "valid v \<Longrightarrow> reads get (put v) v"
begin

lemma get_put:
  "valid v \<Longrightarrow> get \<lparr>rb = pre @ put v @ post, at = length pre\<rparr> =
     Inr (v, \<lparr>rb = pre @ put v @ post, at = length pre + length (put v)\<rparr>)"
  using reads_put [of v] by (auto simp: reads_def)

lemma prefix_free:
  assumes "valid v" and "valid w" and "put v @ xs = put w @ ys"
  shows "v = w \<and> xs = ys"
proof -
  have "get \<lparr>rb = put v @ xs, at = 0\<rparr> = Inr (v, \<lparr>rb = put v @ xs, at = length (put v)\<rparr>)"
    using get_put [OF assms(1), of "[]" xs] by simp
  moreover have "get \<lparr>rb = put v @ xs, at = 0\<rparr> = Inr (w, \<lparr>rb = put v @ xs, at = length (put w)\<rparr>)"
    using get_put [OF assms(2), of "[]" ys] assms(3) by simp
  ultimately show ?thesis using assms(3) by simp
qed

lemma put_inject: "valid v \<Longrightarrow> valid w \<Longrightarrow> put v = put w \<longleftrightarrow> v = w"
  using prefix_free [of v w "[]" "[]"] by auto

end

interpretation varint_codec: field_codec put_varint rd_varint "\<lambda>_. True"
  by unfold_locales (rule reads_varint)

interpretation rel_codec: field_codec "\<lambda>cur. put_varint (diff cur base)" "rd_rel base" "\<lambda>_. True"
  for base
  by unfold_locales (rule reads_rel)

interpretation span_codec: field_codec "\<lambda>s. put_span s prev" "rd_span prev" "\<lambda>_. True" for prev
  by unfold_locales (rule reads_span)

interpretation parent_codec: field_codec put_parent rd_parent "\<lambda>_. True"
  by unfold_locales (rule reads_parent)

subsection \<open>Sizes\<close>

lemma i32_range_simps:
  "- (2 ^ 32) \<le> (k :: int) \<longleftrightarrow> - 4294967296 \<le> k"
  "(k :: int) < 2 ^ 32 \<longleftrightarrow> k < 4294967296"
  by simp_all

lemma sint_bits_above:
  assumes "- (2 ^ k) \<le> sint d" and "sint d < 2 ^ k" and "k \<le> n" and "n < 64"
  shows "bit (d :: 64 word) n \<longleftrightarrow> bit d k"
proof -
  have *: "signed_take_bit k (sint d) = sint d"
    using assms(1,2) by (simp add: signed_take_bit_int_eq_self)
  have "bit (sint d) n \<longleftrightarrow> bit (signed_take_bit k (sint d)) n" by (simp only: *)
  also have "\<dots> \<longleftrightarrow> bit (sint d) k" using assms(3) by (simp add: bit_signed_take_bit_iff min_def)
  finally show ?thesis using assms(3,4) by (simp add: bit_sint_iff min_def)
qed

lemma diff_bound: "unat (diff cur base) < 2 ^ 33"
  unfolding unat_less_exp_iff_bits diff_def bit_zigzag
proof (intro allI impI)
  fix n
  let ?d = "ucast cur - ucast base :: 64 word"
  assume n: "n < 64 \<and> (n \<noteq> 0 \<and> bit ?d (n - 1)) \<noteq> bit ?d 63"
  have r: "- (2 ^ 32) \<le> sint ?d" "sint ?d < 2 ^ 32"
    unfolding sint_u32_diff i32_range_simps
    using uint_u32_bounds [of cur] uint_u32_bounds [of base] by linarith+
  show "n < 33"
  proof (rule ccontr)
    assume "\<not> n < 33"
    then have n': "32 \<le> n - 1" "n - 1 < 64" using n by auto
    have "bit ?d (n - 1) \<longleftrightarrow> bit ?d 32" by (rule sint_bits_above [OF r n'])
    moreover have "bit ?d 63 \<longleftrightarrow> bit ?d 32" by (rule sint_bits_above [OF r]) simp_all
    moreover note n \<open>\<not> n < 33\<close>
    ultimately show False by auto
  qed
qed

lemma length_put_diff_le: "length (put_varint (diff cur base)) \<le> 5"
proof -
  have "sig_bits (diff cur base) \<le> 33"
    unfolding sig_bits_le_iff by (rule diff_bound)
  then show ?thesis using length_put_varint_le_bits by fastforce
qed

lemma length_put_u32_le: "length (put_varint (ucast x)) \<le> 5" for x :: u32
proof -
  have "unat x < 2 ^ LENGTH(32)" by (rule unsigned_less)
  then have "sig_bits (ucast x) \<le> 32" unfolding sig_bits_le_iff by simp
  then show ?thesis using length_put_varint_le_bits by fastforce
qed

lemma length_put_span_bounds: "6 \<le> length (put_span s prev)" "length (put_span s prev) \<le> 30"
proof -
  show "length (put_span s prev) \<le> 30"
    unfolding put_span_def length_append
    using length_put_diff_le [of "sp_start s" "sp_start prev"]
      length_put_diff_le [of "sp_end s" "sp_start s"]
      length_put_diff_le [of "start_line s" "start_line prev"]
      length_put_diff_le [of "start_col s" "start_col prev"]
      length_put_diff_le [of "end_line s" "start_line s"]
      length_put_u32_le [of "end_col s"]
    by linarith
  show "6 \<le> length (put_span s prev)"
    unfolding put_span_def length_append
    using length_put_varint_pos [of "diff (sp_start s) (sp_start prev)"]
      length_put_varint_pos [of "diff (sp_end s) (sp_start s)"]
      length_put_varint_pos [of "diff (start_line s) (start_line prev)"]
      length_put_varint_pos [of "diff (start_col s) (start_col prev)"]
      length_put_varint_pos [of "diff (end_line s) (start_line s)"]
      length_put_varint_pos [of "ucast (end_col s)"]
    by linarith
qed

end
