(* ===== verification/Stream_Codec.thy ===== *)
theory Stream_Codec
  imports Varint
begin

unbundle bit_operations_syntax

text \<open>
  The per-file stream of \<^verbatim>\<open>crates/graph-store/src/codec.rs\<close>: one file's symbols and tokens
  as one byte string. \<open>encode\<close> writes a header, the symbol section, the checkpoints and the
  token section; \<open>decode_lazy_uncounted\<close> parses the header and the checkpoints;
  \<open>symbols_uncounted\<close>, \<open>tokens\<close>, \<open>tokens_at_while\<close> and \<open>tokens_from_while\<close> decode records on
  demand; \<open>decode_uncounted\<close> decodes the whole stream. The read counters of
  \<^verbatim>\<open>read_stats.rs\<close> are not part of the model.

  A visitor closure with captured state \<open>'s\<close> is a function \<open>nat \<Rightarrow> tok_rec \<Rightarrow> 's \<Rightarrow> bool \<times> 's\<close>,
  and a visiting function returns the final captured state.
\<close>

subsection \<open>Records\<close>

definition STREAM_FORMAT :: u8 where
  "STREAM_FORMAT = 3"

definition CHECKPOINT_EVERY :: nat where
  "CHECKPOINT_EVERY = 64"

record sym_rec =
  sr_name :: u64
  sr_kind :: symbol_kind
  sr_lang_kind :: "u64 option"
  sr_parent :: "u32 option"
  sr_span :: span
  sr_toks :: "(u32 \<times> u32) option"
  sr_owner :: "u64 option"

record tok_rec =
  tr_term :: u64
  tr_class :: token_class
  tr_parent :: "u32 option"
  tr_span :: span

record stream =
  st_symbols :: "sym_rec list"
  st_tokens :: "tok_rec list"

definition KINDS :: "symbol_kind list" where
  "KINDS = [Module, Type, Function, Method, Variable, Constant, OtherKind]"

definition CLASSES :: "token_class list" where
  "CLASSES = [Identifier, Keyword, Literal, Operator, Punctuation, Comment, OtherClass]"

definition kind_byte :: "symbol_kind \<Rightarrow> u8" where
  "kind_byte k = of_nat (case position (\<lambda>x. x = k) KINDS of None \<Rightarrow> 6 | Some i \<Rightarrow> i)"

definition class_byte :: "token_class \<Rightarrow> u8" where
  "class_byte c = of_nat (case position (\<lambda>x. x = c) CLASSES of None \<Rightarrow> 6 | Some i \<Rightarrow> i)"

subsection \<open>Token ranges of symbols\<close>

text \<open>
  \<open>compute_ranges\<close>: per symbol, the first and last ordinal of the tokens under it and their
  number. The state of the loop is the three vectors; \<open>ascend\<close> is the walk up the parent
  chain of one token, at most \<open>n\<close> steps.
\<close>

record range_acc =
  ra_first :: "u32 option list"
  ra_last :: "u32 option list"
  ra_count :: "u64 list"

definition touch :: "nat \<Rightarrow> u32 \<Rightarrow> range_acc \<Rightarrow> range_acc" where
  "touch i ord a =
     a\<lparr>ra_first := (ra_first a)[i := Some (case ra_first a ! i of None \<Rightarrow> ord | Some f \<Rightarrow> min f ord)],
       ra_last := (ra_last a)[i := Some (case ra_last a ! i of None \<Rightarrow> ord | Some l \<Rightarrow> max l ord)],
       ra_count := (ra_count a)[i := ra_count a ! i + 1]\<rparr>"

fun ascend :: "sym_rec list \<Rightarrow> nat \<Rightarrow> u32 option \<Rightarrow> u32 \<Rightarrow> range_acc \<Rightarrow> range_acc" where
  "ascend symbols 0 cur ord a = a"
| "ascend symbols (Suc k) cur ord a =
     (case cur of
        None \<Rightarrow> a
      | Some idx \<Rightarrow>
          if unat idx < length symbols
          then ascend symbols k (sr_parent (symbols ! unat idx)) ord (touch (unat idx) ord a)
          else a)"

fun range_tokens :: "sym_rec list \<Rightarrow> nat \<Rightarrow> tok_rec list \<Rightarrow> range_acc \<Rightarrow> range_acc" where
  "range_tokens symbols ord [] a = a"
| "range_tokens symbols ord (t # ts) a =
     range_tokens symbols (Suc ord) ts (ascend symbols (length symbols) (tr_parent t) (of_nat ord) a)"

definition range_of :: "u32 option \<Rightarrow> u32 option \<Rightarrow> (u32 \<times> u32) option" where
  "range_of f l = (case (f, l) of (Some x, Some y) \<Rightarrow> Some (x, y) | _ \<Rightarrow> None)"

definition range_dense :: "u32 option \<Rightarrow> u32 option \<Rightarrow> u64 \<Rightarrow> bool" where
  "range_dense f l c = (case (f, l) of (Some x, Some y) \<Rightarrow> c = ucast (y - x) + 1 | _ \<Rightarrow> True)"

definition compute_ranges :: "sym_rec list \<Rightarrow> tok_rec list \<Rightarrow> (u32 \<times> u32) option list \<times> bool" where
  "compute_ranges symbols tokens =
     (let n = length symbols;
          a = range_tokens symbols 0 tokens
                \<lparr>ra_first = replicate n None, ra_last = replicate n None, ra_count = replicate n 0\<rparr>
      in (map (\<lambda>i. range_of (ra_first a ! i) (ra_last a ! i)) [0..<n],
          \<forall>i \<in> set [0..<n]. range_dense (ra_first a ! i) (ra_last a ! i) (ra_count a ! i)))"

subsection \<open>Encoding\<close>

record ck =
  ck_off :: nat
  ck_start :: u32
  ck_line :: u32
  ck_col :: u32

definition ck_default :: ck where
  "ck_default = \<lparr>ck_off = 0, ck_start = 0, ck_line = 0, ck_col = 0\<rparr>"

definition put_opt_id :: "u64 option \<Rightarrow> u8 list" where
  "put_opt_id k = put_varint (case k of None \<Rightarrow> 0 | Some k \<Rightarrow> k + 1)"

definition put_range :: "u32 \<Rightarrow> (u32 \<times> u32) option \<Rightarrow> u8 list" where
  "put_range prev_first rng =
     (case rng of
        None \<Rightarrow> put_varint 0
      | Some (first, lst) \<Rightarrow>
          put_varint (ucast (lst - first) + 1) @ put_varint (diff first prev_first))"

definition next_first :: "u32 \<Rightarrow> (u32 \<times> u32) option \<Rightarrow> u32" where
  "next_first prev_first rng = (case rng of None \<Rightarrow> prev_first | Some (first, lst) \<Rightarrow> first)"

definition put_sym :: "bool \<Rightarrow> span \<Rightarrow> u32 \<Rightarrow> sym_rec \<Rightarrow> (u32 \<times> u32) option \<Rightarrow> u8 list" where
  "put_sym has_owners prev prev_first s rng =
     put_varint (sr_name s) @
     [kind_byte (sr_kind s)] @
     put_opt_id (sr_lang_kind s) @
     (if has_owners then put_opt_id (sr_owner s) else []) @
     put_parent (sr_parent s) @
     put_span (sr_span s) prev @
     put_range prev_first rng"

fun encode_syms :: "bool \<Rightarrow> span \<Rightarrow> u32 \<Rightarrow> (sym_rec \<times> (u32 \<times> u32) option) list \<Rightarrow> u8 list" where
  "encode_syms has_owners prev prev_first [] = []"
| "encode_syms has_owners prev prev_first ((s, rng) # rest) =
     put_sym has_owners prev prev_first s rng @
     encode_syms has_owners (sr_span s) (next_first prev_first rng) rest"

definition put_ck :: "ck \<Rightarrow> ck \<Rightarrow> u8 list" where
  "put_ck lst c =
     put_varint (of_nat (ck_off c - ck_off lst)) @
     put_varint (diff (ck_start c) (ck_start lst)) @
     put_varint (diff (ck_line c) (ck_line lst)) @
     put_varint (diff (ck_col c) (ck_col lst))"

definition put_tok :: "span \<Rightarrow> tok_rec \<Rightarrow> u8 list" where
  "put_tok prev t =
     put_varint (tr_term t) @
     [class_byte (tr_class t)] @
     put_parent (tr_parent t) @
     put_span (tr_span t) prev"

record tok_enc =
  te_cks :: "u8 list"
  te_toks :: "u8 list"
  te_prev :: span
  te_last :: ck

definition encode_ck :: "nat \<Rightarrow> tok_enc \<Rightarrow> tok_enc" where
  "encode_ck i e =
     (if i > 0 \<and> i mod CHECKPOINT_EVERY = 0
      then
        let c = \<lparr>ck_off = length (te_toks e), ck_start = sp_start (te_prev e),
                  ck_line = start_line (te_prev e), ck_col = start_col (te_prev e)\<rparr>
        in e\<lparr>te_cks := te_cks e @ put_ck (te_last e) c, te_last := c\<rparr>
      else e)"

definition encode_tok :: "tok_enc \<Rightarrow> nat \<times> tok_rec \<Rightarrow> tok_enc" where
  "encode_tok e it =
     (let e = encode_ck (fst it) e
      in e\<lparr>te_toks := te_toks e @ put_tok (te_prev e) (snd it), te_prev := tr_span (snd it)\<rparr>)"

definition encode_toks :: "tok_rec list \<Rightarrow> tok_enc" where
  "encode_toks ts =
     foldl encode_tok \<lparr>te_cks = [], te_toks = [], te_prev = ZERO, te_last = ck_default\<rparr>
       (enumerate 0 ts)"

definition has_owners_of :: "sym_rec list \<Rightarrow> bool" where
  "has_owners_of symbols = list_ex (\<lambda>s. sr_owner s \<noteq> None) symbols"

definition flag_byte :: "bool \<Rightarrow> bool \<Rightarrow> u8" where
  "flag_byte ranges_dense has_owners = of_bool ranges_dense OR push_bit 1 (of_bool has_owners)"

definition encode :: "stream \<Rightarrow> u8 list" where
  "encode st =
     (let (ranges, ranges_dense) = compute_ranges (st_symbols st) (st_tokens st);
          has_owners = has_owners_of (st_symbols st);
          syms = encode_syms has_owners ZERO 0 (zip (st_symbols st) ranges);
          e = encode_toks (st_tokens st)
      in [STREAM_FORMAT] @
         put_varint (of_nat (length (st_symbols st))) @
         put_varint (of_nat (length (st_tokens st))) @
         put_varint (of_nat (length syms)) @
         [flag_byte ranges_dense has_owners] @
         syms @ te_cks e @ te_toks e)"

subsection \<open>Decoding the header\<close>

record lazy =
  lz_nsym :: nat
  lz_ntok :: nat
  lz_ranges_dense :: bool
  lz_has_owners :: bool
  lz_sym_bytes :: "u8 list"
  lz_cks :: "ck list"
  lz_toks :: "u8 list"

definition saturating_add_usize :: "nat \<Rightarrow> nat \<Rightarrow> nat" where
  "saturating_add_usize a b = min (a + b) (2 ^ 64 - 1)"

fun rd_cks :: "nat \<Rightarrow> ck \<Rightarrow> reader \<Rightarrow> (ck list \<times> reader) result" where
  "rd_cks 0 lst r = Inr ([], r)"
| "rd_cks (Suc n) lst r =
     bindE (rd_varint r) (\<lambda>(d, r).
     bindE (ok_or (bad ''checkpoint offset overflow'') (checked_add_usize (ck_off lst) (unat d))) (\<lambda>off.
     bindE (rd_rel (ck_start lst) r) (\<lambda>(st, r).
     bindE (rd_rel (ck_line lst) r) (\<lambda>(li, r).
     bindE (rd_rel (ck_col lst) r) (\<lambda>(co, r).
     let c = \<lparr>ck_off = off, ck_start = st, ck_line = li, ck_col = co\<rparr> in
     bindE (rd_cks n c r) (\<lambda>(cs, r).
     Inr (c # cs, r)))))))"

definition decode_lazy_uncounted :: "u8 list \<Rightarrow> lazy result" where
  "decode_lazy_uncounted b =
     bindE (rd_byte \<lparr>rb = b, at = 0\<rparr>) (\<lambda>(fmt, r).
     if fmt \<noteq> STREAM_FORMAT then
       Inl (bad (''unknown or old stream format byte '' @ show_nat (unat fmt) @ '' (expected '' @
         show_nat (unat STREAM_FORMAT) @
         ''); the v2 store's on-disk layout changed and old v2 files must be re-indexed''))
     else
     bindE (rd_varint r) (\<lambda>(nsym, r).
     bindE (rd_varint r) (\<lambda>(ntok, r).
     bindE (rd_varint r) (\<lambda>(symlen, r).
     bindE (rd_byte r) (\<lambda>(flags, r).
     if flags AND NOT 3 \<noteq> 0 then Inl (bad ''reserved stream flag bits set'')
     else if saturating_add_usize (unat nsym) (unat ntok) > length b then
       Inl (bad ''record count exceeds input'')
     else
     bindE (ok_or (bad ''symbol section exceeds input'')
       (opt_filter (\<lambda>e. e \<le> length b) (checked_add_usize (at r) (unat symlen)))) (\<lambda>sym_end.
     let sym_bytes = take (sym_end - at r) (drop (at r) b);
         nck = (unat ntok - 1) div CHECKPOINT_EVERY
     in if nck > length b then Inl (bad ''checkpoint count exceeds input'')
     else
     bindE (rd_cks nck ck_default (r\<lparr>at := sym_end\<rparr>)) (\<lambda>(cks, r).
     let toks = drop (at r) b in
     if cks \<noteq> [] \<and> ck_off (last cks) \<ge> length toks then
       Inl (bad ''checkpoint offset out of range'')
     else Inr \<lparr>lz_nsym = unat nsym, lz_ntok = unat ntok, lz_ranges_dense = (flags AND 1 \<noteq> 0),
                lz_has_owners = (flags AND 2 \<noteq> 0), lz_sym_bytes = sym_bytes, lz_cks = cks,
                lz_toks = toks\<rparr>)))))))"

subsection \<open>Decoding symbols\<close>

text \<open>\<open>u64::checked_sub(1)\<close>.\<close>

definition checked_pred :: "u64 \<Rightarrow> u64 option" where
  "checked_pred v = (if v = 0 then None else Some (v - 1))"

definition checked_add_u32 :: "u32 \<Rightarrow> u32 \<Rightarrow> u32 option" where
  "checked_add_u32 a b = (if unat a + unat b < 2 ^ 32 then Some (a + b) else None)"

definition rd_opt_id :: "reader \<Rightarrow> (u64 option \<times> reader) result" where
  "rd_opt_id r = bindE (rd_varint r) (\<lambda>(v, r). Inr (checked_pred v, r))"

definition rd_kind :: "reader \<Rightarrow> (symbol_kind \<times> reader) result" where
  "rd_kind r =
     bindE (rd_byte r) (\<lambda>(b, r).
     bindE (ok_or (bad ''bad symbol kind'') (nth_opt KINDS (unat b))) (\<lambda>k. Inr (k, r)))"

definition rd_range :: "u32 \<Rightarrow> reader \<Rightarrow> ((u32 \<times> u32) option \<times> reader) result" where
  "rd_range prev_first r =
     bindE (rd_varint r) (\<lambda>(tok_len_plus1, r).
     if tok_len_plus1 = 0 then Inr (None, r)
     else
     bindE (rd_rel prev_first r) (\<lambda>(first, r).
     bindE (ok_or (bad ''token range length out of range'') (u32_try_from_u64 (tok_len_plus1 - 1))) (\<lambda>len_minus1.
     bindE (ok_or (bad ''token range overflow'') (checked_add_u32 first len_minus1)) (\<lambda>lst.
     Inr (Some (first, lst), r)))))"

definition rd_sym :: "bool \<Rightarrow> nat \<Rightarrow> span \<Rightarrow> u32 \<Rightarrow> reader \<Rightarrow> (sym_rec \<times> reader) result" where
  "rd_sym has_owners i prev prev_first r =
     bindE (rd_varint r) (\<lambda>(name, r).
     bindE (rd_kind r) (\<lambda>(kind, r).
     bindE (rd_opt_id r) (\<lambda>(lang_kind, r).
     bindE ((if has_owners then rd_opt_id else (\<lambda>r. Inr (None, r))) r) (\<lambda>(owner, r).
     bindE (rd_parent r) (\<lambda>(parent, r).
     if (case parent of None \<Rightarrow> False | Some p \<Rightarrow> unat p \<ge> i) then Inl (bad ''parent index out of range'')
     else
     bindE (rd_span prev r) (\<lambda>(span, r).
     bindE (rd_range prev_first r) (\<lambda>(toks, r).
     Inr (\<lparr>sr_name = name, sr_kind = kind, sr_lang_kind = lang_kind, sr_parent = parent,
            sr_span = span, sr_toks = toks, sr_owner = owner\<rparr>, r))))))))"

fun symbols_loop :: "bool \<Rightarrow> nat \<Rightarrow> nat \<Rightarrow> span \<Rightarrow> u32 \<Rightarrow> reader \<Rightarrow> (sym_rec list \<times> reader) result" where
  "symbols_loop has_owners 0 i prev prev_first r = Inr ([], r)"
| "symbols_loop has_owners (Suc k) i prev prev_first r =
     bindE (rd_sym has_owners i prev prev_first r) (\<lambda>(s, r).
     bindE (symbols_loop has_owners k (Suc i) (sr_span s) (next_first prev_first (sr_toks s)) r) (\<lambda>(ss, r).
     Inr (s # ss, r)))"

definition symbols_uncounted :: "lazy \<Rightarrow> sym_rec list result" where
  "symbols_uncounted l =
     bindE (symbols_loop (lz_has_owners l) (lz_nsym l) 0 ZERO 0 \<lparr>rb = lz_sym_bytes l, at = 0\<rparr>) (\<lambda>(ss, r).
     if at r \<noteq> length (rb r) then Inl (bad ''trailing bytes in symbol section'') else Inr ss)"

subsection \<open>Decoding tokens\<close>

definition rd_class :: "reader \<Rightarrow> (token_class \<times> reader) result" where
  "rd_class r =
     bindE (rd_byte r) (\<lambda>(b, r).
     bindE (ok_or (bad ''bad token class'') (nth_opt CLASSES (unat b))) (\<lambda>k. Inr (k, r)))"

definition rd_tok :: "nat \<Rightarrow> span \<Rightarrow> reader \<Rightarrow> (tok_rec \<times> reader) result" where
  "rd_tok nsym prev r =
     bindE (rd_varint r) (\<lambda>(t, r).
     bindE (rd_class r) (\<lambda>(c, r).
     bindE (rd_parent r) (\<lambda>(parent, r).
     if (case parent of None \<Rightarrow> False | Some p \<Rightarrow> unat p \<ge> nsym) then Inl (bad ''parent index out of range'')
     else
     bindE (rd_span prev r) (\<lambda>(span, r).
     Inr (\<lparr>tr_term = t, tr_class = c, tr_parent = parent, tr_span = span\<rparr>, r)))))"

definition ck_matches :: "ck \<Rightarrow> nat \<Rightarrow> span \<Rightarrow> bool" where
  "ck_matches c pos prev \<longleftrightarrow>
     ck_off c = pos \<and> ck_start c = sp_start prev \<and> ck_line c = start_line prev \<and>
     ck_col c = start_col prev"

fun tokens_loop ::
  "lazy \<Rightarrow> (nat \<Rightarrow> tok_rec \<Rightarrow> 's \<Rightarrow> bool \<times> 's) \<Rightarrow> nat \<Rightarrow> nat \<Rightarrow> span \<Rightarrow> reader \<Rightarrow> 's \<Rightarrow> 's result" where
  "tokens_loop l f 0 ord prev r s =
     (if at r \<noteq> length (rb r) then Inl (bad ''trailing bytes'') else Inr s)"
| "tokens_loop l f (Suc k) ord prev r s =
     (if ord > 0 \<and> ord mod CHECKPOINT_EVERY = 0 \<and>
         \<not> ck_matches (lz_cks l ! (ord div CHECKPOINT_EVERY - 1)) (at r) prev
      then Inl (bad ''checkpoint mismatch'')
      else
      bindE (rd_tok (lz_nsym l) prev r) (\<lambda>(rec, r).
      let (go, s) = f ord rec s in
      if go then tokens_loop l f k (Suc ord) (tr_span rec) r s else Inr s))"

definition tokens :: "lazy \<Rightarrow> (nat \<Rightarrow> tok_rec \<Rightarrow> 's \<Rightarrow> bool \<times> 's) \<Rightarrow> 's \<Rightarrow> 's result" where
  "tokens l f s = tokens_loop l f (lz_ntok l) 0 ZERO \<lparr>rb = lz_toks l, at = 0\<rparr> s"

definition ck_prev :: "ck \<Rightarrow> span" where
  "ck_prev c = ZERO\<lparr>sp_start := ck_start c, start_line := ck_line c, start_col := ck_col c\<rparr>"

text \<open>\<open>while next < ord { prev = self.record(&mut r, &prev)?.span; next += 1 }\<close>.\<close>

fun skip_toks :: "nat \<Rightarrow> nat \<Rightarrow> span \<Rightarrow> reader \<Rightarrow> (span \<times> reader) result" where
  "skip_toks nsym 0 prev r = Inr (prev, r)"
| "skip_toks nsym (Suc k) prev r =
     bindE (rd_tok nsym prev r) (\<lambda>(rec, r). skip_toks nsym k (tr_span rec) r)"

fun tokens_at_loop ::
  "lazy \<Rightarrow> (nat \<Rightarrow> tok_rec \<Rightarrow> 's \<Rightarrow> bool \<times> 's) \<Rightarrow> nat list \<Rightarrow> nat \<Rightarrow> nat option \<Rightarrow> span \<Rightarrow> reader \<Rightarrow> 's \<Rightarrow>
   's result" where
  "tokens_at_loop l f [] next lst prev r s = Inr s"
| "tokens_at_loop l f (ord # ords) next lst prev r s =
     (if ord \<ge> lz_ntok l \<or> (case lst of None \<Rightarrow> False | Some p \<Rightarrow> ord \<le> p)
      then Inl (bad ''token ordinal out of order or range'')
      else
      let block = ord div CHECKPOINT_EVERY;
          (r, prev, next) =
            (if block * CHECKPOINT_EVERY > next
             then (r\<lparr>at := ck_off (lz_cks l ! (block - 1))\<rparr>, ck_prev (lz_cks l ! (block - 1)),
                   block * CHECKPOINT_EVERY)
             else (r, prev, next))
      in
      bindE (skip_toks (lz_nsym l) (ord - next) prev r) (\<lambda>(prev, r).
      bindE (rd_tok (lz_nsym l) prev r) (\<lambda>(rec, r).
      let (go, s) = f ord rec s in
      if go then tokens_at_loop l f ords (ord + 1) (Some ord) (tr_span rec) r s else Inr s)))"

definition tokens_at_while ::
  "lazy \<Rightarrow> nat list \<Rightarrow> (nat \<Rightarrow> tok_rec \<Rightarrow> 's \<Rightarrow> bool \<times> 's) \<Rightarrow> 's \<Rightarrow> 's result" where
  "tokens_at_while l ords f s = tokens_at_loop l f ords 0 None ZERO \<lparr>rb = lz_toks l, at = 0\<rparr> s"

definition tokens_at :: "lazy \<Rightarrow> nat list \<Rightarrow> (nat \<Rightarrow> tok_rec \<Rightarrow> 's \<Rightarrow> 's) \<Rightarrow> 's \<Rightarrow> 's result" where
  "tokens_at l ords f s = tokens_at_while l ords (\<lambda>ord t s. (True, f ord t s)) s"

text \<open>
  \<open>slice::partition_point\<close>: the number of leading elements that satisfy the predicate, on a
  slice partitioned by it.
\<close>

definition partition_point :: "('a \<Rightarrow> bool) \<Rightarrow> 'a list \<Rightarrow> nat" where
  "partition_point P xs = length (takeWhile P xs)"

definition block_ordinal_at :: "lazy \<Rightarrow> u32 \<Rightarrow> nat" where
  "block_ordinal_at l start = partition_point (\<lambda>c. ck_start c < start) (lz_cks l) * CHECKPOINT_EVERY"

fun tokens_from_loop ::
  "lazy \<Rightarrow> (nat \<Rightarrow> tok_rec \<Rightarrow> 's \<Rightarrow> bool \<times> 's) \<Rightarrow> nat \<Rightarrow> nat \<Rightarrow> nat \<Rightarrow> span \<Rightarrow> reader \<Rightarrow> 's \<Rightarrow> 's result" where
  "tokens_from_loop l f first 0 ord prev r s = Inr s"
| "tokens_from_loop l f first (Suc k) ord prev r s =
     bindE (rd_tok (lz_nsym l) prev r) (\<lambda>(rec, r).
     if ord \<ge> first then
       let (go, s) = f ord rec s in
       if go then tokens_from_loop l f first k (Suc ord) (tr_span rec) r s else Inr s
     else tokens_from_loop l f first k (Suc ord) (tr_span rec) r s)"

definition tokens_from_while ::
  "lazy \<Rightarrow> nat \<Rightarrow> (nat \<Rightarrow> tok_rec \<Rightarrow> 's \<Rightarrow> bool \<times> 's) \<Rightarrow> 's \<Rightarrow> 's result" where
  "tokens_from_while l first f s =
     (if first \<ge> lz_ntok l then Inr s
      else
      let block = first div CHECKPOINT_EVERY;
          (pos, prev, ord) =
            (if block = 0 then (0, ZERO, 0)
             else (ck_off (lz_cks l ! (block - 1)), ck_prev (lz_cks l ! (block - 1)),
                   block * CHECKPOINT_EVERY))
      in tokens_from_loop l f first (lz_ntok l - ord) ord prev \<lparr>rb = lz_toks l, at = pos\<rparr> s)"

subsection \<open>Decoding a whole stream\<close>

definition decode_uncounted :: "u8 list \<Rightarrow> stream result" where
  "decode_uncounted b =
     bindE (decode_lazy_uncounted b) (\<lambda>l.
     bindE (symbols_uncounted l) (\<lambda>symbols.
     bindE (tokens l (\<lambda>_ t ts. (True, ts @ [t])) []) (\<lambda>tokens.
     Inr \<lparr>st_symbols = symbols, st_tokens = tokens\<rparr>)))"

end
