(* ===== verification/Stream_Ranges.thy ===== *)
theory Stream_Ranges
  imports Stream_Codec
begin

text \<open>
  What the token ranges of \<open>compute_ranges\<close> (crates/graph-store/src/codec.rs) mean. A token is under
  a symbol when the symbol is on the parent chain of the token (\<open>under\<close>, an inductive relation); the
  range of a symbol is the first and the last ordinal of the tokens under it, and the flag of the
  stream says that every symbol's tokens are contiguous.
\<close>

unbundle bit_operations_syntax

subsection \<open>Specification\<close>

text \<open>Symbol \<open>i\<close> is on the parent chain that starts at \<open>cur\<close>.\<close>

inductive under :: "sym_rec list \<Rightarrow> u32 option \<Rightarrow> nat \<Rightarrow> bool" for ss where
  under_here: "unat idx < length ss \<Longrightarrow> under ss (Some idx) (unat idx)"
| under_up: "unat idx < length ss \<Longrightarrow> under ss (sr_parent (ss ! unat idx)) i \<Longrightarrow> under ss (Some idx) i"

inductive_simps under_None [simp]: "under ss None i"

inductive_simps under_Some: "under ss (Some idx) i"

fun chain :: "sym_rec list \<Rightarrow> nat \<Rightarrow> u32 option \<Rightarrow> nat list" where
  "chain ss 0 cur = []"
| "chain ss (Suc k) None = []"
| "chain ss (Suc k) (Some idx) =
     (if unat idx < length ss then unat idx # chain ss k (sr_parent (ss ! unat idx)) else [])"

definition parents_before :: "sym_rec list \<Rightarrow> bool" where
  "parents_before ss \<longleftrightarrow> (\<forall>i < length ss. \<forall>p. sr_parent (ss ! i) = Some p \<longrightarrow> unat p < i)"

text \<open>The ordinals of the tokens below symbol \<open>i\<close>, in order.\<close>

definition toks_under :: "sym_rec list \<Rightarrow> tok_rec list \<Rightarrow> nat \<Rightarrow> nat list" where
  "toks_under ss ts i = filter (\<lambda>k. under ss (tr_parent (ts ! k)) i) [0..<length ts]"

definition ends_of :: "nat list \<Rightarrow> (u32 \<times> u32) option" where
  "ends_of ks = (if ks = [] then None else Some (of_nat (hd ks), of_nat (last ks)))"

definition range_start :: "nat \<Rightarrow> range_acc" where
  "range_start n = \<lparr>ra_first = replicate n None, ra_last = replicate n None, ra_count = replicate n 0\<rparr>"

definition contiguous :: "nat list \<Rightarrow> bool" where
  "contiguous ks \<longleftrightarrow> ks = [] \<or> ks = [hd ks..<Suc (last ks)]"

subsection \<open>Lemmas\<close>

lemma ascend_chain: "ascend ss k cur ord a = fold (\<lambda>i. touch i ord) (chain ss k cur) a"
  by (induction ss k cur arbitrary: a rule: chain.induct) simp_all

lemma chain_bound: "i \<in> set (chain ss k cur) \<Longrightarrow> i < length ss"
  by (induction ss k cur rule: chain.induct) (auto split: if_splits)

lemma chain_le:
  "parents_before ss \<Longrightarrow> i \<in> set (chain ss k (Some idx)) \<Longrightarrow> i \<le> unat idx"
proof (induction k arbitrary: idx)
  case (Suc k)
  show ?case
  proof (cases "i = unat idx")
    case False
    then have i: "unat idx < length ss" "i \<in> set (chain ss k (sr_parent (ss ! unat idx)))"
      using Suc.prems(2) by (auto split: if_splits)
    then obtain p where p: "sr_parent (ss ! unat idx) = Some p"
      by (cases k; cases "sr_parent (ss ! unat idx)") auto
    then have "unat p < unat idx" using Suc.prems(1) i(1) by (simp add: parents_before_def)
    moreover have "i \<le> unat p" using Suc.IH [OF Suc.prems(1), of p] i(2) p by simp
    ultimately show ?thesis by simp
  qed simp
qed simp

lemma distinct_chain: "parents_before ss \<Longrightarrow> distinct (chain ss k cur)"
proof (induction ss k cur rule: chain.induct)
  case (3 ss k idx)
  have "unat idx \<notin> set (chain ss k (sr_parent (ss ! unat idx)))" if "unat idx < length ss"
  proof (cases "sr_parent (ss ! unat idx)")
    case None
    then show ?thesis by (cases k) simp_all
  next
    case (Some p)
    then have "unat p < unat idx" using 3 that by (auto simp: parents_before_def)
    then show ?thesis using chain_le [OF 3(2), of "unat idx" k p] Some by auto
  qed
  with 3 show ?case by auto
qed simp_all

lemma chain_under:
  "parents_before ss \<Longrightarrow> (\<And>idx. cur = Some idx \<Longrightarrow> unat idx < k) \<Longrightarrow> i \<in> set (chain ss k cur) \<longleftrightarrow> under ss cur i"
proof (induction ss k cur rule: chain.induct)
  case (3 ss k idx)
  have "i \<in> set (chain ss k (sr_parent (ss ! unat idx))) \<longleftrightarrow> under ss (sr_parent (ss ! unat idx)) i"
    if "unat idx < length ss"
  proof (rule 3(1) [OF that 3(2)])
    fix p assume "sr_parent (ss ! unat idx) = Some p"
    then have "unat p < unat idx" using 3 that by (auto simp: parents_before_def)
    then show "unat p < k" using 3(3) [of idx] by simp
  qed
  then show ?case by (auto simp: under_Some)
next
  case (1 ss cur)
  then show ?case by (cases cur) auto
qed auto

lemma fold_touch:
  fixes ord :: u32
  assumes "distinct is" "set is \<subseteq> {..<n}" "length (ra_first a) = n" "length (ra_last a) = n" "length (ra_count a) = n" "j < n"
  defines "a' \<equiv> fold (\<lambda>i. touch i ord) is a"
  shows "length (ra_first a') = n" "length (ra_last a') = n" "length (ra_count a') = n"
    "ra_first a' ! j = (if j \<in> set is then Some (case ra_first a ! j of None \<Rightarrow> ord | Some f \<Rightarrow> min f ord) else ra_first a ! j)"
    "ra_last a' ! j = (if j \<in> set is then Some (case ra_last a ! j of None \<Rightarrow> ord | Some f \<Rightarrow> max f ord) else ra_last a ! j)"
    "ra_count a' ! j = (if j \<in> set is then ra_count a ! j + 1 else ra_count a ! j)"
  using assms(1-6) unfolding a'_def
  by (induction "is" arbitrary: a) (auto simp: touch_def nth_list_update)

lemma range_tokens_append:
  "range_tokens ss k (ts @ us) a = range_tokens ss (k + length ts) us (range_tokens ss k ts a)"
  by (induction ts arbitrary: k a) auto

lemma chain_under_full:
  assumes "parents_before ss"
  shows "i \<in> set (chain ss (length ss) cur) \<longleftrightarrow> under ss cur i"
proof (cases "\<exists>idx. cur = Some idx \<and> length ss \<le> unat idx")
  case True
  then show ?thesis by (cases "length ss") (auto simp: under_Some)
next
  case False
  then show ?thesis by (intro chain_under [OF assms]) (auto simp: not_le)
qed

lemma toks_under_snoc:
  "toks_under ss (ts @ [t]) i = toks_under ss ts i @ (if under ss (tr_parent t) i then [length ts] else [])"
proof -
  have "filter (\<lambda>k. under ss (tr_parent ((ts @ [t]) ! k)) i) [0..<length ts] = toks_under ss ts i"
    unfolding toks_under_def by (rule filter_cong) (auto simp: nth_append)
  then show ?thesis by (simp add: toks_under_def)
qed

lemma toks_under_less: "o' \<in> set (toks_under ss ts i) \<Longrightarrow> o' < length ts"
  by (auto simp: toks_under_def)

lemma sorted_toks_under: "sorted_wrt (<) (toks_under ss ts i)"
  unfolding toks_under_def by (rule sorted_wrt_filter) simp

lemma of_nat_u32_less_eq: "a < 2 ^ 32 \<Longrightarrow> b < 2 ^ 32 \<Longrightarrow> (of_nat a :: u32) \<le> of_nat b \<longleftrightarrow> a \<le> b"
  by (simp add: word_le_nat_alt unat_of_nat take_bit_nat_eq_self_iff)

lemma range_tokens_acc:
  assumes "parents_before ss" and "length ts < 2 ^ 32" and "i < length ss"
  defines "a \<equiv> range_tokens ss 0 ts (range_start (length ss))"
  shows "length (ra_first a) = length ss \<and> length (ra_last a) = length ss \<and> length (ra_count a) = length ss \<and>
    ra_first a ! i = map_option fst (ends_of (toks_under ss ts i)) \<and>
    ra_last a ! i = map_option snd (ends_of (toks_under ss ts i)) \<and>
    ra_count a ! i = of_nat (length (toks_under ss ts i))"
  using assms(2) unfolding a_def
proof (induction ts rule: rev_induct)
  case Nil
  then show ?case using assms(3) by (simp add: range_start_def toks_under_def ends_of_def)
next
  case (snoc t ts)
  let ?a = "range_tokens ss 0 ts (range_start (length ss))"
  let ?is = "chain ss (length ss) (tr_parent t)"
  have split: "range_tokens ss 0 (ts @ [t]) (range_start (length ss)) = fold (\<lambda>i. touch i (of_nat (length ts))) ?is ?a"
    by (simp add: range_tokens_append ascend_chain)
  have IH: "length (ra_first ?a) = length ss" "length (ra_last ?a) = length ss" "length (ra_count ?a) = length ss"
    "ra_first ?a ! i = map_option fst (ends_of (toks_under ss ts i))"
    "ra_last ?a ! i = map_option snd (ends_of (toks_under ss ts i))"
    "ra_count ?a ! i = of_nat (length (toks_under ss ts i))"
    using snoc by simp_all
  have sub: "set ?is \<subseteq> {..<length ss}" by (auto dest: chain_bound)
  note ft = fold_touch [OF distinct_chain [OF assms(1)] sub IH(1-3) assms(3), where ord = "of_nat (length ts)"]
  have le: "(of_nat o' :: u32) \<le> of_nat (length ts)" if "o' \<in> set (toks_under ss ts i)" for o'
    using toks_under_less [OF that] snoc.prems by (subst of_nat_u32_less_eq) auto
  have mins: "min (of_nat (hd (toks_under ss ts i))) (of_nat (length ts) :: u32) = of_nat (hd (toks_under ss ts i))"
    "max (of_nat (last (toks_under ss ts i))) (of_nat (length ts) :: u32) = of_nat (length ts)"
    if "toks_under ss ts i \<noteq> []"
    using le [OF hd_in_set [OF that]] le [OF last_in_set [OF that]] by (simp_all add: min_def max_def)
  show ?case
    unfolding split ft chain_under_full [OF assms(1)] IH toks_under_snoc
    using mins by (simp add: ends_of_def)
qed

lemma strict_sorted_bounds:
  assumes "sorted_wrt (<) (ks :: nat list)" and "k \<in> set ks"
  shows "hd ks \<le> k \<and> k \<le> last ks"
proof -
  obtain j where j: "j < length ks" "k = ks ! j" using assms(2) by (auto simp: in_set_conv_nth)
  have "sorted ks" using assms(1) by (simp add: strict_sorted_iff)
  then show ?thesis
    using j sorted_nth_mono [of ks 0 j] sorted_nth_mono [of ks j "length ks - 1"]
    by (cases ks) (auto simp: hd_conv_nth last_conv_nth)
qed

lemma contiguous_iff_length:
  assumes "sorted_wrt (<) ks" and "ks \<noteq> []"
  shows "contiguous ks \<longleftrightarrow> length ks = last ks - hd ks + 1"
proof
  have le: "hd ks \<le> last ks" using strict_sorted_bounds [OF assms(1) last_in_set [OF assms(2)]] by simp
  {
    assume "contiguous ks"
    then have "length ks = length [hd ks..<Suc (last ks)]" using assms(2) by (simp add: contiguous_def)
    then show "length ks = last ks - hd ks + 1" using le by (simp add: Suc_diff_le del: upt_Suc)
  next
    assume len: "length ks = last ks - hd ks + 1"
    have "set ks \<subseteq> set [hd ks..<Suc (last ks)]"
      using strict_sorted_bounds [OF assms(1)] by (auto simp: less_Suc_eq_le simp del: upt_Suc)
    moreover have "card (set ks) = card (set [hd ks..<Suc (last ks)])"
      using len le assms(1) by (simp add: strict_sorted_iff distinct_card Suc_diff_le del: upt_Suc)
    ultimately have "set ks = set [hd ks..<Suc (last ks)]" by (intro card_subset_eq) auto
    then show "contiguous ks"
      using assms(1) unfolding contiguous_def
      by (intro disjI2 strict_sorted_equal) (simp_all del: upt_Suc)
  }
qed

lemma range_of_ends: "range_of (map_option fst x) (map_option snd x) = x"
  by (cases x) (auto simp: range_of_def)

lemma range_dense_ends:
  assumes "sorted_wrt (<) ks" and "\<And>k. k \<in> set ks \<Longrightarrow> k < 2 ^ 32" and "length ks < 2 ^ 32"
  shows "range_dense (map_option fst (ends_of ks)) (map_option snd (ends_of ks)) (of_nat (length ks)) \<longleftrightarrow> contiguous ks"
proof (cases "ks = []")
  case False
  let ?x = "of_nat (hd ks) :: u32" and ?y = "of_nat (last ks) :: u32"
  have b: "hd ks < 2 ^ 32" "last ks < 2 ^ 32" "hd ks \<le> last ks"
    using assms(2) strict_sorted_bounds [OF assms(1)] False by auto
  then have "unat (?y - ?x) = last ks - hd ks"
    by (subst of_nat_diff [symmetric]) (simp_all add: unat_of_nat take_bit_nat_eq_self_iff del: of_nat_diff)
  then have u: "ucast (?y - ?x) + (1 :: u64) = of_nat (last ks - hd ks + 1)"
    by (metis add.commute of_nat_Suc of_nat_unat plus_1_eq_Suc)
  have "(of_nat (length ks) :: u64) = of_nat (last ks - hd ks + 1) \<longleftrightarrow> length ks = last ks - hd ks + 1"
    using b assms(3) by (subst word_of_nat_eq_iff) (simp add: take_bit_nat_eq_self)
  with u False contiguous_iff_length [OF assms(1) False] show ?thesis
    by (simp add: range_dense_def ends_of_def add.commute)
qed (simp add: range_dense_def ends_of_def contiguous_def)

lemma length_toks_under: "length (toks_under ss ts i) \<le> length ts"
  unfolding toks_under_def using length_filter_le [of _ "[0..<length ts]"] by simp

lemma compute_ranges_spec:
  assumes "parents_before ss" and "length ts < 2 ^ 32"
  shows "compute_ranges ss ts =
    (map (\<lambda>i. ends_of (toks_under ss ts i)) [0..<length ss], \<forall>i < length ss. contiguous (toks_under ss ts i))"
proof -
  let ?a = "range_tokens ss 0 ts (range_start (length ss))"
  have "range_of (ra_first ?a ! i) (ra_last ?a ! i) = ends_of (toks_under ss ts i)"
    and "range_dense (ra_first ?a ! i) (ra_last ?a ! i) (ra_count ?a ! i) \<longleftrightarrow> contiguous (toks_under ss ts i)"
    if "i < length ss" for i
    using range_tokens_acc [OF assms that] range_dense_ends [OF sorted_toks_under [of ss ts i]]
      toks_under_less [of _ ss ts i] length_toks_under [of ss ts i] assms(2)
    by (simp_all add: range_of_ends less_trans [of _ "length ts"])
  then show ?thesis
    by (simp add: compute_ranges_def range_start_def Let_def atLeast0LessThan Ball_def)
qed

end
