(* ===== verification/Stream_Roundtrip.thy ===== *)
theory Stream_Roundtrip
  imports Stream_Ranges
begin

text \<open>
  The stream format of crates/graph-store/src/codec.rs read back: every record reader consumes exactly
  the bytes its writer appended, the token section is the concatenation of the records with a
  checkpoint every 64 of them, and the header decodes to the lazy view of the stream that was
  encoded.
\<close>

unbundle bit_operations_syntax

subsection \<open>Specification\<close>

definition valid_id :: "u64 option \<Rightarrow> bool" where
  "valid_id k \<longleftrightarrow> k \<noteq> Some (- 1)"

definition valid_range :: "(u32 \<times> u32) option \<Rightarrow> bool" where
  "valid_range rng \<longleftrightarrow> (case rng of None \<Rightarrow> True | Some (f, l) \<Rightarrow> f \<le> l)"

definition valid_sym :: "bool \<Rightarrow> nat \<Rightarrow> sym_rec \<Rightarrow> bool" where
  "valid_sym own i s \<longleftrightarrow>
     valid_id (sr_lang_kind s) \<and> valid_id (sr_owner s) \<and> (sr_owner s \<noteq> None \<longrightarrow> own) \<and>
     (\<forall>p. sr_parent s = Some p \<longrightarrow> unat p < i)"

fun tok_bytes :: "span \<Rightarrow> tok_rec list \<Rightarrow> u8 list" where
  "tok_bytes prev [] = []"
| "tok_bytes prev (t # ts) = put_tok prev t @ tok_bytes (tr_span t) ts"

definition prev_at :: "tok_rec list \<Rightarrow> nat \<Rightarrow> span" where
  "prev_at ts k = (if k = 0 then ZERO else tr_span (ts ! (k - 1)))"

definition tok_off :: "tok_rec list \<Rightarrow> nat \<Rightarrow> nat" where
  "tok_off ts k = length (tok_bytes ZERO (take k ts))"

definition ck_at :: "tok_rec list \<Rightarrow> nat \<Rightarrow> ck" where
  "ck_at ts k = \<lparr>ck_off = tok_off ts k, ck_start = sp_start (prev_at ts k),
     ck_line = start_line (prev_at ts k), ck_col = start_col (prev_at ts k)\<rparr>"

definition cks_of :: "tok_rec list \<Rightarrow> ck list" where
  "cks_of ts = map (\<lambda>j. ck_at ts (Suc j * CHECKPOINT_EVERY)) [0..<(length ts - 1) div CHECKPOINT_EVERY]"

fun put_cks :: "ck \<Rightarrow> ck list \<Rightarrow> u8 list" where
  "put_cks lst [] = []"
| "put_cks lst (c # cs) = put_ck lst c @ put_cks c cs"

definition ranges_of :: "stream \<Rightarrow> (u32 \<times> u32) option list" where
  "ranges_of st = fst (compute_ranges (st_symbols st) (st_tokens st))"

definition wf_stream :: "stream \<Rightarrow> bool" where
  "wf_stream st \<longleftrightarrow>
     (\<forall>i < length (st_symbols st). valid_sym True i (st_symbols st ! i)) \<and>
     (\<forall>t \<in> set (st_tokens st). \<forall>p. tr_parent t = Some p \<longrightarrow> unat p < length (st_symbols st)) \<and>
     length (st_symbols st) < 2 ^ 32 \<and> length (st_tokens st) < 2 ^ 32"

definition lazy_of :: "stream \<Rightarrow> lazy" where
  "lazy_of st =
     \<lparr>lz_nsym = length (st_symbols st), lz_ntok = length (st_tokens st),
      lz_ranges_dense = snd (compute_ranges (st_symbols st) (st_tokens st)),
      lz_has_owners = has_owners_of (st_symbols st),
      lz_sym_bytes = encode_syms (has_owners_of (st_symbols st)) ZERO 0 (zip (st_symbols st) (ranges_of st)),
      lz_cks = cks_of (st_tokens st),
      lz_toks = tok_bytes ZERO (st_tokens st)\<rparr>"

text \<open>What the decoder returns for a symbol table: the input's, with the computed ranges.\<close>

definition with_ranges :: "stream \<Rightarrow> sym_rec list" where
  "with_ranges st = map (\<lambda>i. (st_symbols st ! i)\<lparr>sr_toks := ends_of (toks_under (st_symbols st) (st_tokens st) i)\<rparr>)
     [0..<length (st_symbols st)]"

subsection \<open>Lemmas\<close>

lemma reads_map_ok:
  assumes "reads get bs v" and "g v = Some w"
  shows "reads (\<lambda>r. bindE (get r) (\<lambda>(a, r'). bindE (ok_or e (g a)) (\<lambda>b. Inr (b, r')))) bs w"
  by (rule reads_bind_last [OF assms(1)]) (simp add: assms(2) reads_pure)

lemma reads_kind: "reads rd_kind [kind_byte k] k"
  unfolding rd_kind_def
  by (rule reads_map_ok [OF reads_byte]) (cases k; simp add: kind_byte_def KINDS_def nth_opt_def)

lemma reads_class: "reads rd_class [class_byte c] c"
  unfolding rd_class_def
  by (rule reads_map_ok [OF reads_byte]) (cases c; simp add: class_byte_def CLASSES_def nth_opt_def)

lemma reads_opt_id: "valid_id k \<Longrightarrow> reads rd_opt_id (put_opt_id k) k"
  unfolding rd_opt_id_def put_opt_id_def
  by (rule reads_bind_last [OF reads_varint])
     (cases k; auto simp: checked_pred_def valid_id_def reads_pure eq_neg_iff_add_eq_0)

lemma reads_range: "valid_range rng \<Longrightarrow> reads (rd_range pf) (put_range pf rng) rng"
proof (cases rng)
  case None
  show ?thesis
    unfolding rd_range_def put_range_def None option.case
    by (rule reads_bind_last [OF reads_varint]) (simp add: reads_pure)
next
  case (Some p)
  moreover obtain f l where "p = (f, l)" by fastforce
  moreover assume "valid_range rng"
  ultimately have rng: "rng = Some (f, l)" and le: "f \<le> l" by (simp_all add: valid_range_def)
  have "checked_add_u32 f (l - f) = Some l"
  proof -
    have "unat (l - f) = unat l - unat f" using le by (simp add: unat_sub)
    moreover have "unat l < 2 ^ LENGTH(32)" by (rule unsigned_less)
    ultimately show ?thesis using le by (simp add: checked_add_u32_def word_le_nat_alt)
  qed
  then show ?thesis
    unfolding rd_range_def put_range_def rng option.case prod.case
    by (intro reads_bind [OF reads_varint])
       (simp add: ucast_u32_plus_1_neq_0 u32_try_from_u64_ucast reads_bind_last [OF reads_rel] reads_pure)
qed

lemma reads_sym:
  assumes "valid_sym own i s" and "valid_range rng"
  shows "reads (rd_sym own i prev pf) (put_sym own prev pf s rng) (s\<lparr>sr_toks := rng\<rparr>)"
proof -
  have own: "reads (if own then rd_opt_id else (\<lambda>r. Inr (None, r))) (if own then put_opt_id (sr_owner s) else [])
      (sr_owner s)"
    using assms(1) by (auto simp: valid_sym_def reads_opt_id intro: reads_pure)
  have par: "\<not> (case sr_parent s of None \<Rightarrow> False | Some p \<Rightarrow> unat p \<ge> i)"
    using assms(1) by (auto simp: valid_sym_def split: option.splits)
  have "valid_id (sr_lang_kind s)" using assms(1) by (simp add: valid_sym_def)
  then show ?thesis
    unfolding rd_sym_def put_sym_def
    apply (intro reads_bind [OF reads_varint] reads_bind [OF reads_kind] reads_bind [OF reads_opt_id]
      reads_bind [OF own] reads_bind [OF reads_parent])
     apply assumption
    apply (subst if_not_P [OF par])
    apply (intro reads_bind [OF reads_span] reads_bind_last [OF reads_range] assms(2))
    apply (cases s, simp add: reads_pure)
    done
qed

lemma reads_if_not: "\<not> b \<Longrightarrow> reads g bs v \<Longrightarrow> reads (\<lambda>r. if b then Inl e else g r) bs v"
  by simp

lemma reads_tok:
  assumes "\<And>p. tr_parent t = Some p \<Longrightarrow> unat p < nsym"
  shows "reads (rd_tok nsym prev) (put_tok prev t) t"
proof -
  have par: "\<not> (case tr_parent t of None \<Rightarrow> False | Some p \<Rightarrow> unat p \<ge> nsym)"
    using assms by (auto split: option.splits)
  show ?thesis
    unfolding rd_tok_def put_tok_def
    by (intro reads_bind [OF reads_varint] reads_bind [OF reads_class] reads_bind [OF reads_parent]
        reads_if_not [OF par] reads_bind_last [OF reads_span])
       (cases t, simp add: reads_pure)
qed

lemma reads_symbols_loop:
  assumes "\<And>k. k < length xs \<Longrightarrow> valid_sym own (i + k) (fst (xs ! k))"
    and "\<And>k. k < length xs \<Longrightarrow> valid_range (snd (xs ! k))"
  shows "reads (symbols_loop own (length xs) i prev pf) (encode_syms own prev pf xs)
           (map (\<lambda>(s, rng). s\<lparr>sr_toks := rng\<rparr>) xs)"
  using assms
proof (induction xs arbitrary: i prev pf)
  case Nil
  then show ?case by (simp add: reads_pure)
next
  case (Cons x xs)
  obtain s rng where x: "x = (s, rng)" by fastforce
  have "valid_sym own i s" "valid_range rng"
    using Cons.prems(1) [of 0] Cons.prems(2) [of 0] x by simp_all
  moreover have "reads (symbols_loop own (length xs) (Suc i) (sr_span s) (next_first pf rng))
      (encode_syms own (sr_span s) (next_first pf rng) xs) (map (\<lambda>(s, rng). s\<lparr>sr_toks := rng\<rparr>) xs)"
    using Cons.prems(1) [of "Suc k" for k] Cons.prems(2) [of "Suc k" for k] by (intro Cons.IH) auto
  ultimately show ?case
    unfolding x length_Cons symbols_loop.simps encode_syms.simps
    by (intro reads_bind [OF reads_sym] reads_bind_last) (auto simp: reads_pure)
qed

lemma tok_bytes_snoc: "tok_bytes prev (ts @ [t]) = tok_bytes prev ts @ put_tok (if ts = [] then prev else tr_span (last ts)) t"
  by (induction ts arbitrary: prev) auto

lemma put_cks_snoc: "put_cks lst (cs @ [c]) = put_cks lst cs @ put_ck (if cs = [] then lst else last cs) c"
  by (induction cs arbitrary: lst) auto

lemma tok_bytes_take_Suc:
  "k < length ts \<Longrightarrow> tok_bytes ZERO (take (Suc k) ts) = tok_bytes ZERO (take k ts) @ put_tok (prev_at ts k) (ts ! k)"
proof -
  assume k: "k < length ts"
  then have "last (take k ts) = ts ! (k - 1)" if "k \<noteq> 0"
    using that by (subst last_conv_nth) auto
  with k show ?thesis
    by (auto simp add: take_Suc_conv_app_nth [OF k] tok_bytes_snoc prev_at_def)
qed

lemma tok_bytes_drop:
  "k \<le> length ts \<Longrightarrow> drop (tok_off ts k) (tok_bytes ZERO ts) = tok_bytes (prev_at ts k) (drop k ts)"
proof (induction k)
  case 0
  then show ?case by (simp add: tok_off_def prev_at_def)
next
  case (Suc k)
  then have "drop (tok_off ts k) (tok_bytes ZERO ts) = put_tok (prev_at ts k) (ts ! k) @ tok_bytes (tr_span (ts ! k)) (drop (Suc k) ts)"
    by (simp add: Cons_nth_drop_Suc [symmetric])
  then have "drop (tok_off ts k + length (put_tok (prev_at ts k) (ts ! k))) (tok_bytes ZERO ts) = tok_bytes (tr_span (ts ! k)) (drop (Suc k) ts)"
    by (rule drop_eq_append_length)
  moreover have "tok_off ts (Suc k) = tok_off ts k + length (put_tok (prev_at ts k) (ts ! k))"
    using Suc.prems by (simp add: tok_off_def tok_bytes_take_Suc)
  ultimately show ?case by (simp add: prev_at_def)
qed

text \<open>What the encoder's loop has written after a prefix of the tokens.\<close>

lemma ck_at_append: "k \<le> length ts \<Longrightarrow> ck_at (ts @ us) k = ck_at ts k"
  by (auto simp: ck_at_def tok_off_def prev_at_def nth_append)

lemma cks_of_snoc:
  "cks_of (ts @ [t]) = (if length ts > 0 \<and> length ts mod CHECKPOINT_EVERY = 0 then cks_of ts @ [ck_at ts (length ts)] else cks_of ts)"
proof -
  let ?n = "length ts"
  have same: "map (\<lambda>j. ck_at (ts @ [t]) (Suc j * CHECKPOINT_EVERY)) [0..<(?n - 1) div CHECKPOINT_EVERY] = cks_of ts"
    unfolding cks_of_def
  proof (rule map_cong [OF refl])
    fix j assume "j \<in> set [0..<(?n - 1) div CHECKPOINT_EVERY]"
    then have "Suc j * CHECKPOINT_EVERY \<le> ?n"
      by (auto simp: CHECKPOINT_EVERY_def)
    then show "ck_at (ts @ [t]) (Suc j * CHECKPOINT_EVERY) = ck_at ts (Suc j * CHECKPOINT_EVERY)"
      by (rule ck_at_append)
  qed
  show ?thesis
  proof (cases "?n > 0 \<and> ?n mod CHECKPOINT_EVERY = 0")
    case True
    then obtain q where q: "?n = Suc q * CHECKPOINT_EVERY"
      by (metis dvd_def mod_0_imp_dvd mult.commute mult_0 not0_implies_Suc not_gr_zero)
    then have "?n div CHECKPOINT_EVERY = Suc q" "(?n - 1) div CHECKPOINT_EVERY = q"
      by (simp_all add: CHECKPOINT_EVERY_def)
    then have "cks_of (ts @ [t]) = map (\<lambda>j. ck_at (ts @ [t]) (Suc j * CHECKPOINT_EVERY)) [0..<(?n - 1) div CHECKPOINT_EVERY] @ [ck_at (ts @ [t]) (Suc q * CHECKPOINT_EVERY)]"
      by (simp add: cks_of_def)
    with same True q ck_at_append [of "Suc q * CHECKPOINT_EVERY" ts "[t]"] show ?thesis by simp
  next
    case False
    then have "?n div CHECKPOINT_EVERY = (?n - 1) div CHECKPOINT_EVERY"
      by (cases ?n) (auto simp: CHECKPOINT_EVERY_def div_Suc)
    with same False show ?thesis by (auto simp: cks_of_def)
  qed
qed

lemma encode_toks_eq:
  "encode_toks ts = \<lparr>te_cks = put_cks ck_default (cks_of ts), te_toks = tok_bytes ZERO ts,
     te_prev = prev_at ts (length ts),
     te_last = (if cks_of ts = [] then ck_default else last (cks_of ts))\<rparr>"
proof (induction ts rule: rev_induct)
  case Nil
  then show ?case by (simp add: encode_toks_def cks_of_def prev_at_def)
next
  case (snoc t ts)
  have "encode_toks (ts @ [t]) = encode_tok (encode_toks ts) (length ts, t)"
    by (simp add: encode_toks_def enumerate_append_eq)
  moreover have "ck_at ts (length ts) = \<lparr>ck_off = length (tok_bytes ZERO ts), ck_start = sp_start (prev_at ts (length ts)),
                  ck_line = start_line (prev_at ts (length ts)), ck_col = start_col (prev_at ts (length ts))\<rparr>"
    by (simp add: ck_at_def tok_off_def)
  moreover have "tok_bytes ZERO (ts @ [t]) = tok_bytes ZERO ts @ put_tok (prev_at ts (length ts)) t"
    by (simp add: tok_bytes_snoc prev_at_def last_conv_nth)
  moreover have "prev_at (ts @ [t]) (length (ts @ [t])) = tr_span t"
    by (simp add: prev_at_def)
  ultimately show ?case
    by (simp add: snoc.IH encode_tok_def encode_ck_def cks_of_snoc put_cks_snoc Let_def)
qed

lemma reads_cks:
  assumes "sorted (map ck_off (lst # cs))" and "\<And>c. c \<in> set cs \<Longrightarrow> ck_off c < 2 ^ 64"
  shows "reads (rd_cks (length cs) lst) (put_cks lst cs) cs"
  using assms
proof (induction cs arbitrary: lst)
  case Nil
  then show ?case by (simp add: reads_pure)
next
  case (Cons c cs)
  have "ck_off lst \<le> ck_off c" "ck_off c < 2 ^ 64" using Cons.prems by simp_all
  then have off: "checked_add_usize (ck_off lst) (unat (of_nat (ck_off c - ck_off lst) :: u64)) = Some (ck_off c)"
    by (simp add: checked_add_usize_def unat_of_nat take_bit_nat_eq_self_iff del: of_nat_diff)
  have IH: "reads (rd_cks (length cs) c) (put_cks c cs) cs"
    using Cons.prems by (intro Cons.IH) auto
  then have last: "reads (\<lambda>r. let c = c in bindE (rd_cks (length cs) c r) (\<lambda>(cs, r). Inr (c # cs, r))) (put_cks c cs) (c # cs)"
    unfolding Let_def by (rule reads_bind_last) (simp add: reads_pure)
  show ?case
    unfolding length_Cons rd_cks.simps put_cks.simps put_ck_def append_assoc
    apply (rule reads_bind [OF reads_varint])
    apply (simp only: off ok_or_simps bindE_simps)
    apply (intro reads_bind [OF reads_rel])
    using last by (cases c) simp
qed

lemma tok_off_Suc: "k < length ts \<Longrightarrow> tok_off ts (Suc k) = tok_off ts k + length (put_tok (prev_at ts k) (ts ! k))"
  by (simp add: tok_off_def tok_bytes_take_Suc)

lemma length_put_tok_pos: "0 < length (put_tok prev t)"
  by (simp add: put_tok_def)

lemma tok_off_strict: "i < j \<Longrightarrow> j \<le> length ts \<Longrightarrow> tok_off ts i < tok_off ts j"
proof (induction j)
  case (Suc j)
  then show ?case
    using length_put_tok_pos [of "prev_at ts j" "ts ! j"]
    by (cases "i = j") (simp_all add: tok_off_Suc trans_less_add1 Suc_lessI del: length_greater_0_conv)
qed simp

lemma tok_off_mono: "i \<le> j \<Longrightarrow> j \<le> length ts \<Longrightarrow> tok_off ts i \<le> tok_off ts j"
  using tok_off_strict [of i j ts] by (cases "i = j") auto

lemma tok_off_length: "tok_off ts (length ts) = length (tok_bytes ZERO ts)"
  by (simp add: tok_off_def)

lemma cks_index_le: "j < (n - Suc 0) div CHECKPOINT_EVERY \<Longrightarrow> Suc j * CHECKPOINT_EVERY < n"
  by (simp add: CHECKPOINT_EVERY_def)

lemma length_cks_of: "length (cks_of ts) = (length ts - 1) div CHECKPOINT_EVERY"
  by (simp add: cks_of_def)

lemma cks_of_nth: "j < (length ts - 1) div CHECKPOINT_EVERY \<Longrightarrow> cks_of ts ! j = ck_at ts (Suc j * CHECKPOINT_EVERY)"
  by (simp add: cks_of_def)

lemma cks_of_off_less: "c \<in> set (cks_of ts) \<Longrightarrow> ck_off c < length (tok_bytes ZERO ts)"
  unfolding tok_off_length [symmetric]
  by (auto simp: cks_of_def ck_at_def simp del: mult_Suc dest!: cks_index_le intro!: tok_off_strict)

lemma sorted_cks_of: "sorted (map ck_off (ck_default # cks_of ts))"
proof -
  have "sorted (map ck_off (cks_of ts))"
    by (auto simp: sorted_iff_nth_mono length_cks_of cks_of_nth ck_at_def simp del: mult_Suc
        dest!: cks_index_le intro!: tok_off_mono mult_le_mono1)
  then show ?thesis by (simp add: ck_default_def)
qed

lemma reads_cks_of:
  assumes "length (tok_bytes ZERO ts) < 2 ^ 64"
  shows "reads (rd_cks ((length ts - 1) div CHECKPOINT_EVERY) ck_default) (put_cks ck_default (cks_of ts)) (cks_of ts)"
  using reads_cks [OF sorted_cks_of less_trans [OF cks_of_off_less assms], of ts] by (simp add: length_cks_of)

lemma encode_eq:
  "encode st = STREAM_FORMAT # put_varint (of_nat (length (st_symbols st))) @
     put_varint (of_nat (length (st_tokens st))) @
     put_varint (of_nat (length (lz_sym_bytes (lazy_of st)))) @
     flag_byte (lz_ranges_dense (lazy_of st)) (lz_has_owners (lazy_of st)) #
     lz_sym_bytes (lazy_of st) @ put_cks ck_default (lz_cks (lazy_of st)) @ lz_toks (lazy_of st)"
  by (simp add: encode_def encode_toks_eq lazy_of_def ranges_of_def Let_def split: prod.splits)

lemma length_compute_ranges [simp]: "length (fst (compute_ranges ss ts)) = length ss"
  by (simp add: compute_ranges_def Let_def)

lemma length_encode_syms_ge: "length xs \<le> length (encode_syms own prev pf xs)"
proof (induction own prev pf xs rule: encode_syms.induct)
  case (2 own prev pf s rng rest)
  have "1 \<le> length (put_sym own prev pf s rng)" by (simp add: put_sym_def)
  with 2 show ?case by simp
qed simp

lemma length_tok_bytes_ge: "length ts \<le> length (tok_bytes prev ts)"
proof (induction ts arbitrary: prev)
  case (Cons t ts)
  from Cons [of "tr_span t"] length_put_tok_pos [of prev t] show ?case
    unfolding tok_bytes.simps length_append length_Cons by linarith
qed simp

lemma length_encode_ge: "length (st_symbols st) + length (st_tokens st) \<le> length (encode st)"
  using length_encode_syms_ge [of "zip (st_symbols st) (ranges_of st)" "has_owners_of (st_symbols st)" ZERO 0]
    length_tok_bytes_ge [of "st_tokens st" ZERO]
  by (simp add: encode_eq lazy_of_def ranges_of_def)

lemma length_put_opt_id_le: "length (put_opt_id k) \<le> 10"
  by (simp add: put_opt_id_def length_put_varint_le)

lemma length_put_range_le: "length (put_range pf rng) \<le> 20"
proof (cases rng)
  case None
  then show ?thesis using length_put_varint_le [of 0] by (simp add: put_range_def)
next
  case (Some p)
  then show ?thesis
    using length_put_varint_le [of "ucast (snd p - fst p) + 1"] length_put_varint_le [of "diff (fst p) pf"]
    by (cases p) (simp add: put_range_def)
qed

lemma length_put_sym_le: "length (put_sym own prev pf s rng) \<le> 91"
  using length_put_varint_le [of "sr_name s"] length_put_opt_id_le [of "sr_lang_kind s"] length_put_opt_id_le [of "sr_owner s"]
    length_put_varint_le [of "case sr_parent s of None \<Rightarrow> 0 | Some p \<Rightarrow> ucast p + 1"]
    length_put_span_bounds [of "sr_span s" prev] length_put_range_le [of pf rng]
  by (simp add: put_sym_def put_parent_def)

lemma length_put_tok_le: "length (put_tok prev t) \<le> 51"
  using length_put_varint_le [of "tr_term t"] length_put_span_bounds [of "tr_span t" prev]
    length_put_varint_le [of "case tr_parent t of None \<Rightarrow> 0 | Some p \<Rightarrow> ucast p + 1"]
  by (simp add: put_tok_def put_parent_def)

lemma length_put_ck_le: "length (put_ck lst c) \<le> 40"
  using length_put_varint_le [of "of_nat (ck_off c - ck_off lst)"] length_put_varint_le [of "diff (ck_start c) (ck_start lst)"]
    length_put_varint_le [of "diff (ck_line c) (ck_line lst)"] length_put_varint_le [of "diff (ck_col c) (ck_col lst)"]
  by (simp add: put_ck_def del: of_nat_diff)

lemma length_encode_syms_le: "length (encode_syms own prev pf xs) \<le> 91 * length xs"
proof (induction own prev pf xs rule: encode_syms.induct)
  case (2 own prev pf s rng rest)
  then show ?case using length_put_sym_le [of own prev pf s rng] by simp
qed simp

lemma length_tok_bytes_le: "length (tok_bytes prev ts) \<le> 51 * length ts"
proof (induction ts arbitrary: prev)
  case (Cons t ts)
  from Cons [of "tr_span t"] length_put_tok_le [of prev t] show ?case by simp
qed simp

lemma length_put_cks_le: "length (put_cks lst cs) \<le> 40 * length cs"
proof (induction cs arbitrary: lst)
  case (Cons c cs)
  from Cons [of c] length_put_ck_le [of lst c] show ?case by simp
qed simp

lemma length_encode_le: "length (encode st) \<le> 32 + 91 * length (st_symbols st) + 91 * length (st_tokens st)"
proof -
  let ?l = "lazy_of st"
  have "length (lz_sym_bytes ?l) \<le> 91 * length (st_symbols st)"
    using length_encode_syms_le [of "has_owners_of (st_symbols st)" ZERO 0 "zip (st_symbols st) (ranges_of st)"]
    by (simp add: lazy_of_def ranges_of_def)
  moreover have "length (lz_toks ?l) \<le> 51 * length (st_tokens st)"
    using length_tok_bytes_le [of ZERO "st_tokens st"] by (simp add: lazy_of_def)
  moreover have "length (put_cks ck_default (lz_cks ?l)) \<le> 40 * length (st_tokens st)"
    using length_put_cks_le [of ck_default "lz_cks ?l"] by (simp add: lazy_of_def length_cks_of CHECKPOINT_EVERY_def)
  moreover have "length (put_varint (of_nat (length (st_symbols st)))) \<le> 10"
    "length (put_varint (of_nat (length (st_tokens st)))) \<le> 10" "length (put_varint (of_nat (length (lz_sym_bytes ?l)))) \<le> 10"
    by (rule length_put_varint_le)+
  ultimately show ?thesis by (simp add: encode_eq)
qed

lemma wf_length_encode: "wf_stream st \<Longrightarrow> length (encode st) < 2 ^ 64"
  using length_encode_le [of st] by (simp add: wf_stream_def)

lemma flag_byte_bits:
  "flag_byte d h AND NOT 3 = 0" "flag_byte d h AND 1 \<noteq> 0 \<longleftrightarrow> d" "flag_byte d h AND 2 \<noteq> 0 \<longleftrightarrow> h"
  by (cases d; cases h; simp add: flag_byte_def)+

lemma checkpoints_in_range: "\<not> (lz_cks (lazy_of st) \<noteq> [] \<and> length (lz_toks (lazy_of st)) \<le> ck_off (last (lz_cks (lazy_of st))))"
  using cks_of_off_less [OF last_in_set, of "st_tokens st"] by (auto simp: lazy_of_def not_le)

lemma decode_lazy_encode:
  assumes "wf_stream st"
  shows "decode_lazy_uncounted (encode st) = Inr (lazy_of st)"
proof -
  let ?b = "encode st" and ?l = "lazy_of st"
  let ?ns = "of_nat (length (st_symbols st)) :: u64" and ?nt = "of_nat (length (st_tokens st)) :: u64"
  let ?sl = "of_nat (length (lz_sym_bytes ?l)) :: u64"
  have len: "length ?b < 2 ^ 64" by (rule wf_length_encode [OF assms])
  have ge: "length (st_symbols st) + length (st_tokens st) \<le> length ?b" by (rule length_encode_ge)
  have sy: "length (lz_sym_bytes ?l) \<le> length ?b" and tk: "length (lz_toks ?l) \<le> length ?b"
    by (simp_all add: encode_eq)
  have nat: "unat ?ns = length (st_symbols st)" "unat ?nt = length (st_tokens st)" "unat ?sl = length (lz_sym_bytes ?l)"
    by (rule unat_of_nat_u64, use len ge sy in linarith)+
  have "drop 0 ?b = [STREAM_FORMAT] @ put_varint ?ns @ put_varint ?nt @ put_varint ?sl @
     [flag_byte (lz_ranges_dense ?l) (lz_has_owners ?l)] @
     lz_sym_bytes ?l @ put_cks ck_default (lz_cks ?l) @ lz_toks ?l"
    by (simp add: encode_eq)
  note 1 = reads_at [OF reads_byte this]
  note 2 = reads_at [OF reads_varint 1(2)]
  note 3 = reads_at [OF reads_varint 2(2)]
  note 4 = reads_at [OF reads_varint 3(2)]
  note 5 = reads_at [OF reads_byte 4(2)]
  define n where "n = 0 + length [STREAM_FORMAT] + length (put_varint ?ns) + length (put_varint ?nt) +
     length (put_varint ?sl) + length [flag_byte (lz_ranges_dense ?l) (lz_has_owners ?l)]"
  note 6 = 5(2) [folded n_def]
  have n: "n + length (lz_sym_bytes ?l) \<le> length ?b"
    by (simp add: n_def encode_eq)
  have 7: "drop (n + length (lz_sym_bytes ?l)) ?b = put_cks ck_default (lz_cks ?l) @ lz_toks ?l"
    by (rule drop_eq_append_length [OF 6])
  have "reads (rd_cks ((length (st_tokens st) - 1) div CHECKPOINT_EVERY) ck_default) (put_cks ck_default (lz_cks ?l)) (lz_cks ?l)"
    using reads_cks_of [of "st_tokens st"] tk len by (simp add: lazy_of_def)
  note 8 = reads_at [OF this 7]
  have ck: "\<not> length ?b < (length (st_tokens st) - 1) div CHECKPOINT_EVERY"
    using ge by (simp add: CHECKPOINT_EVERY_def)
  have opt: "opt_filter (\<lambda>e. e \<le> length ?b) (checked_add_usize n (length (lz_sym_bytes ?l))) = Some (n + length (lz_sym_bytes ?l))"
    using n len by (simp add: opt_filter_def checked_add_usize_def)
  have sat: "\<not> length ?b < saturating_add_usize (length (st_symbols st)) (length (st_tokens st))"
    using ge by (simp add: saturating_add_usize_def)
  show ?thesis
    unfolding decode_lazy_uncounted_def
    apply (simp only: 1 2 3 4 5 bindE_simps prod.case nat flag_byte_bits if_False simp_thms sat if_not_P)
    apply (fold n_def)
    apply (simp only: reader.simps opt ok_or_simps bindE_simps Let_def ck if_False 8 prod.case checkpoints_in_range)
    apply (simp add: 6 lazy_of_def)
    done
qed

lemma ends_of_valid:
  assumes "length ts < 2 ^ 32"
  shows "valid_range (ends_of (toks_under ss ts i))"
proof (cases "toks_under ss ts i = []")
  case False
  have "hd (toks_under ss ts i) \<le> last (toks_under ss ts i)" "last (toks_under ss ts i) < length ts"
    using strict_sorted_bounds [OF sorted_toks_under last_in_set [OF False]] toks_under_less [OF last_in_set [OF False]]
    by simp_all
  with assms False show ?thesis by (simp add: valid_range_def ends_of_def of_nat_u32_less_eq)
qed (simp add: valid_range_def ends_of_def)

lemma wf_parents_before: "wf_stream st \<Longrightarrow> parents_before (st_symbols st)"
  by (auto simp: wf_stream_def valid_sym_def parents_before_def)

lemma valid_sym_own: "valid_sym True i s \<Longrightarrow> (sr_owner s \<noteq> None \<longrightarrow> own) \<Longrightarrow> valid_sym own i s"
  by (simp add: valid_sym_def)

lemma symbols_lazy_of:
  assumes "wf_stream st"
  shows "symbols_uncounted (lazy_of st) = Inr (with_ranges st)"
proof -
  let ?ss = "st_symbols st" and ?own = "has_owners_of (st_symbols st)"
  let ?xs = "zip ?ss (ranges_of st)"
  have rng: "ranges_of st = map (\<lambda>i. ends_of (toks_under ?ss (st_tokens st) i)) [0..<length ?ss]"
    using compute_ranges_spec [OF wf_parents_before [OF assms]] assms by (simp add: ranges_of_def wf_stream_def)
  have len: "length ?xs = length ?ss" by (simp add: rng)
  have "reads (symbols_loop ?own (length ?xs) 0 ZERO 0) (encode_syms ?own ZERO 0 ?xs)
      (map (\<lambda>(s, rng). s\<lparr>sr_toks := rng\<rparr>) ?xs)"
  proof (rule reads_symbols_loop)
    fix k assume k: "k < length ?xs"
    then have "sr_owner (?ss ! k) \<noteq> None \<longrightarrow> ?own"
      by (auto simp: has_owners_of_def list_ex_iff rng)
    then show "valid_sym ?own (0 + k) (fst (?xs ! k))"
      using assms k by (auto simp: wf_stream_def rng intro: valid_sym_own)
    show "valid_range (snd (?xs ! k))"
      using k assms by (simp add: rng ends_of_valid wf_stream_def)
  qed
  moreover have "map (\<lambda>(s, rng). s\<lparr>sr_toks := rng\<rparr>) ?xs = with_ranges st"
    unfolding with_ranges_def by (rule nth_equalityI) (simp_all add: rng)
  ultimately have "reads (symbols_loop ?own (length ?ss) 0 ZERO 0) (encode_syms ?own ZERO 0 ?xs) (with_ranges st)"
    by (simp only: len)
  from readsD [OF this, of "\<lparr>rb = encode_syms ?own ZERO 0 ?xs, at = 0\<rparr>" "[]"] show ?thesis
    by (simp add: symbols_uncounted_def lazy_of_def)
qed

end
