(* ===== verification/Stream_Access.thy ===== *)
theory Stream_Access
  imports Stream_Roundtrip "HOL-Library.Code_Target_Nat"
begin

text \<open>
  Random access to an encoded stream (\<open>Lazy\<close> in crates/graph-store/src/codec.rs). The locale
  \<open>token_view\<close> is the contract the visitors rely on: where each record starts, what it decodes to and
  that the checkpoints agree. It is interpreted twice: for the bytes the encoder writes
  (\<open>encoded\<close>), and for any bytes the full decode has accepted (\<open>accepted\<close>).
\<close>

unbundle bit_operations_syntax

subsection \<open>Specification\<close>

text \<open>The visit of every token in order, until the visitor stops.\<close>

fun visit :: "(nat \<Rightarrow> tok_rec \<Rightarrow> 's \<Rightarrow> bool \<times> 's) \<Rightarrow> nat \<Rightarrow> tok_rec list \<Rightarrow> 's \<Rightarrow> 's" where
  "visit f ord [] s = s"
| "visit f ord (t # ts) s = (let (go, s) = f ord t s in if go then visit f (Suc ord) ts s else s)"

text \<open>The visit of the tokens at strictly increasing ordinals.\<close>

fun visit_at ::
  "(nat \<Rightarrow> tok_rec \<Rightarrow> 's \<Rightarrow> bool \<times> 's) \<Rightarrow> tok_rec list \<Rightarrow> nat list \<Rightarrow> nat option \<Rightarrow> 's \<Rightarrow> 's result" where
  "visit_at f ts [] lst s = Inr s"
| "visit_at f ts (ord # ords) lst s =
     (if ord < length ts \<and> (\<forall>p. lst = Some p \<longrightarrow> p < ord)
      then let (go, s) = f ord (ts ! ord) s in if go then visit_at f ts ords (Some ord) s else Inr s
      else Inl (bad ''token ordinal out of order or range''))"

text \<open>The fields of the previous span that the next record is relative to.\<close>

definition same_anchor :: "span \<Rightarrow> span \<Rightarrow> bool" where
  "same_anchor p q \<longleftrightarrow> sp_start p = sp_start q \<and> start_line p = start_line q \<and> start_col p = start_col q"

definition first_at :: "tok_rec list \<Rightarrow> u32 \<Rightarrow> nat" where
  "first_at ts start = length (takeWhile (\<lambda>t. sp_start (tr_span t) < start) ts)"

definition by_start :: "tok_rec list \<Rightarrow> bool" where
  "by_start ts \<longleftrightarrow> sorted (map (\<lambda>t. sp_start (tr_span t)) ts)"

definition keeps :: "(reader \<Rightarrow> ('a \<times> reader) result) \<Rightarrow> bool" where
  "keeps get \<longleftrightarrow> (\<forall>r v r'. get r = Inr (v, r') \<longrightarrow> rb r' = rb r)"

definition collect :: "nat \<Rightarrow> tok_rec \<Rightarrow> tok_rec list \<Rightarrow> bool \<times> tok_rec list" where
  "collect ord t ts = (True, ts @ [t])"

text \<open>The position after \<open>k\<close> records.\<close>

fun rec_pos :: "nat \<Rightarrow> nat \<Rightarrow> span \<Rightarrow> reader \<Rightarrow> nat" where
  "rec_pos nsym 0 prev r = at r"
| "rec_pos nsym (Suc k) prev r =
     (case rd_tok nsym prev r of Inl _ \<Rightarrow> at r | Inr (t, r) \<Rightarrow> rec_pos nsym k (tr_span t) r)"

definition all_toks :: "lazy \<Rightarrow> tok_rec list" where
  "all_toks l = (case tokens l collect [] of Inl _ \<Rightarrow> [] | Inr ts \<Rightarrow> ts)"

definition accepted :: "lazy \<Rightarrow> bool" where
  "accepted l \<longleftrightarrow> is_ok (tokens l collect [])"

text \<open>A small stream, for the concrete instances.\<close>

definition sample :: stream where
  "sample =
    \<lparr>st_symbols =
       [\<lparr>sr_name = 1, sr_kind = Module, sr_lang_kind = None, sr_parent = None,
         sr_span = \<lparr>sp_start = 0, sp_end = 20, start_line = 1, start_col = 1, end_line = 3, end_col = 2\<rparr>,
         sr_toks = None, sr_owner = None\<rparr>,
        \<lparr>sr_name = 300, sr_kind = Function, sr_lang_kind = Some 5, sr_parent = Some 0,
         sr_span = \<lparr>sp_start = 4, sp_end = 20, start_line = 2, start_col = 1, end_line = 3, end_col = 2\<rparr>,
         sr_toks = None, sr_owner = Some 9\<rparr>],
     st_tokens =
       [\<lparr>tr_term = 10, tr_class = Keyword, tr_parent = Some 0,
         tr_span = \<lparr>sp_start = 0, sp_end = 3, start_line = 1, start_col = 1, end_line = 1, end_col = 4\<rparr>\<rparr>,
        \<lparr>tr_term = 11, tr_class = Identifier, tr_parent = Some 1,
         tr_span = \<lparr>sp_start = 4, sp_end = 8, start_line = 2, start_col = 1, end_line = 2, end_col = 5\<rparr>\<rparr>,
        \<lparr>tr_term = 12, tr_class = Punctuation, tr_parent = None,
         tr_span = \<lparr>sp_start = 20, sp_end = 21, start_line = 3, start_col = 2, end_line = 3, end_col = 3\<rparr>\<rparr>]\<rparr>"

subsection \<open>Lemmas\<close>

lemma same_anchor_refl [simp]: "same_anchor p p"
  by (simp add: same_anchor_def)

lemma rd_tok_anchor: "same_anchor p q \<Longrightarrow> rd_tok n p r = rd_tok n q r"
proof -
  assume "same_anchor p q"
  then have "rd_span p = rd_span q" by (intro ext) (simp add: rd_span_def same_anchor_def)
  then show ?thesis by (simp only: rd_tok_def cong: if_cong)
qed

lemma ck_prev_anchor: "same_anchor (ck_prev (ck_at ts k)) (prev_at ts k)"
  by (simp add: same_anchor_def ck_prev_def ck_at_def)

lemma prev_at_Suc: "prev_at ts (Suc k) = tr_span (ts ! k)"
  by (simp add: prev_at_def)

lemma prev_at_0: "prev_at ts 0 = ZERO"
  by (simp add: prev_at_def)

locale token_view =
  fixes view :: "'a \<Rightarrow> lazy" and toks :: "'a \<Rightarrow> tok_rec list" and off :: "'a \<Rightarrow> nat \<Rightarrow> nat" and valid :: "'a \<Rightarrow> bool"
  assumes view_ntok: "valid v \<Longrightarrow> lz_ntok (view v) = length (toks v)"
    and view_start: "valid v \<Longrightarrow> off v 0 = 0"
    and view_end: "valid v \<Longrightarrow> off v (length (toks v)) = length (lz_toks (view v))"
    and view_rec: "valid v \<Longrightarrow> k < length (toks v) \<Longrightarrow>
      rd_tok (lz_nsym (view v)) (prev_at (toks v) k) \<lparr>rb = lz_toks (view v), at = off v k\<rparr> =
        Inr (toks v ! k, \<lparr>rb = lz_toks (view v), at = off v (Suc k)\<rparr>)"
    and view_ck: "valid v \<Longrightarrow> 0 < b \<Longrightarrow> b * CHECKPOINT_EVERY < length (toks v) \<Longrightarrow>
      ck_matches (lz_cks (view v) ! (b - 1)) (off v (b * CHECKPOINT_EVERY)) (prev_at (toks v) (b * CHECKPOINT_EVERY))"
begin

abbreviation pos :: "'a \<Rightarrow> nat \<Rightarrow> reader" where
  "pos v k \<equiv> \<lparr>rb = lz_toks (view v), at = off v k\<rparr>"

lemma rd_tok_at:
  assumes "valid v" and "k < length (toks v)" and "same_anchor prev (prev_at (toks v) k)"
  shows "rd_tok (lz_nsym (view v)) prev (pos v k) = Inr (toks v ! k, pos v (Suc k))"
  using view_rec [OF assms(1,2)] by (simp add: rd_tok_anchor [OF assms(3)])

lemma block_ck:
  assumes "valid v" and "0 < k div CHECKPOINT_EVERY" and "k < length (toks v)"
  defines "c \<equiv> lz_cks (view v) ! (k div CHECKPOINT_EVERY - 1)"
  shows "ck_off c = off v (k div CHECKPOINT_EVERY * CHECKPOINT_EVERY)"
    and "same_anchor (ck_prev c) (prev_at (toks v) (k div CHECKPOINT_EVERY * CHECKPOINT_EVERY))"
  using view_ck [OF assms(1,2) le_less_trans [OF div_times_less_eq_dividend assms(3)]]
  by (simp_all add: c_def ck_matches_def same_anchor_def ck_prev_def)

lemma tokens_loop_visit:
  assumes "valid v"
  shows "k + ord = length (toks v) \<Longrightarrow> same_anchor prev (prev_at (toks v) ord) \<Longrightarrow>
    tokens_loop (view v) f k ord prev (pos v ord) s = Inr (visit f ord (drop ord (toks v)) s)"
proof (induction k arbitrary: ord prev s)
  case 0
  then show ?case using view_end [OF assms] by simp
next
  case (Suc k)
  have ck: "ck_matches (lz_cks (view v) ! (ord div CHECKPOINT_EVERY - 1)) (off v ord) prev"
    if "0 < ord" "ord mod CHECKPOINT_EVERY = 0"
  proof -
    from that obtain b where b: "ord = b * CHECKPOINT_EVERY" by (metis mod_0_imp_dvd dvd_def mult.commute)
    then show ?thesis
      using view_ck [OF assms, of b] that Suc.prems
      by (simp add: ck_matches_def same_anchor_def CHECKPOINT_EVERY_def)
  qed
  have "drop ord (toks v) = toks v ! ord # drop (Suc ord) (toks v)"
    using Suc.prems by (simp add: Cons_nth_drop_Suc)
  then show ?case
    using ck Suc.prems rd_tok_at [OF assms, of ord prev] Suc.IH [of "Suc ord" "tr_span (toks v ! ord)"]
    by (auto simp: prev_at_Suc split: prod.splits)
qed

lemma tokens_visit: "valid v \<Longrightarrow> tokens (view v) f s = Inr (visit f 0 (toks v) s)"
  using tokens_loop_visit [of v "length (toks v)" 0 ZERO f s]
  by (simp add: tokens_def view_ntok view_start prev_at_0)

lemma skip_toks_at:
  "valid v \<Longrightarrow> k + j \<le> length (toks v) \<Longrightarrow> same_anchor prev (prev_at (toks v) k) \<Longrightarrow>
    \<exists>prev'. skip_toks (lz_nsym (view v)) j prev (pos v k) = Inr (prev', pos v (k + j)) \<and>
      same_anchor prev' (prev_at (toks v) (k + j))"
proof (induction j arbitrary: k prev)
  case (Suc j)
  then show ?case
    using Suc.IH [of "Suc k" "tr_span (toks v ! k)"] by (simp add: rd_tok_at prev_at_Suc)
qed simp

lemma tokens_at_loop_visit:
  assumes "valid v"
  shows "next \<le> length (toks v) \<Longrightarrow> same_anchor prev (prev_at (toks v) next) \<Longrightarrow>
    next = (case lst of None \<Rightarrow> 0 | Some p \<Rightarrow> Suc p) \<Longrightarrow>
    tokens_at_loop (view v) f ords next lst prev (pos v next) s = visit_at f (toks v) ords lst s"
proof (induction ords arbitrary: "next" lst prev s)
  case (Cons ord ords)
  let ?n = "length (toks v)" and ?b = "ord div CHECKPOINT_EVERY"
  show ?case
  proof (cases "ord < ?n \<and> (\<forall>p. lst = Some p \<longrightarrow> p < ord)")
    case True
    then have ord: "ord < ?n" "next \<le> ord" using Cons.prems(3) by (auto split: option.splits)
    define jump where "jump \<longleftrightarrow> next < ?b * CHECKPOINT_EVERY"
    define n' where "n' = (if jump then ?b * CHECKPOINT_EVERY else next)"
    define p' where "p' = (if jump then ck_prev (lz_cks (view v) ! (?b - 1)) else prev)"
    have "?b * CHECKPOINT_EVERY \<le> ord" by (simp add: CHECKPOINT_EVERY_def)
    then have n': "n' \<le> ord" using ord by (simp add: n'_def)
    have "0 < ?b" if jump using that unfolding jump_def by (cases "?b = 0") simp_all
    note ck = block_ck [OF assms this ord(1)]
    have p': "same_anchor p' (prev_at (toks v) n')"
      using Cons.prems(2) ck(2) by (simp add: p'_def n'_def)
    have sel: "(if ?b * CHECKPOINT_EVERY > next
        then ((pos v next)\<lparr>at := ck_off (lz_cks (view v) ! (?b - 1))\<rparr>, ck_prev (lz_cks (view v) ! (?b - 1)), ?b * CHECKPOINT_EVERY)
        else (pos v next, prev, next)) = (pos v n', p', n')"
      using ck(1) by (simp add: n'_def p'_def jump_def)
    obtain q where q: "skip_toks (lz_nsym (view v)) (ord - n') p' (pos v n') = Inr (q, pos v ord)"
      "same_anchor q (prev_at (toks v) ord)"
      using skip_toks_at [OF assms, of n' "ord - n'" p'] n' ord p' by auto
    have guard: "\<not> (ord \<ge> lz_ntok (view v) \<or> (case lst of None \<Rightarrow> False | Some p \<Rightarrow> ord \<le> p))"
      using True by (cases lst) (simp_all add: view_ntok [OF assms])
    have rd: "rd_tok (lz_nsym (view v)) q (pos v ord) = Inr (toks v ! ord, pos v (Suc ord))"
      by (rule rd_tok_at [OF assms ord(1) q(2)])
    have IH: "tokens_at_loop (view v) f ords (ord + 1) (Some ord) (tr_span (toks v ! ord)) (pos v (Suc ord)) s' =
        visit_at f (toks v) ords (Some ord) s'" for s'
      unfolding Suc_eq_plus1 [symmetric] using ord(1) by (intro Cons.IH) (simp_all add: prev_at_Suc)
    show ?thesis
      unfolding tokens_at_loop.simps Let_def sel if_not_P [OF guard] prod.case q(1) bindE_simps rd IH
      unfolding visit_at.simps if_P [OF True] Let_def ..
  next
    case False
    then show ?thesis by (auto simp: view_ntok [OF assms] split: option.splits)
  qed
qed simp

lemma tokens_at_while_visit: "valid v \<Longrightarrow> tokens_at_while (view v) ords f s = visit_at f (toks v) ords None s"
  using tokens_at_loop_visit [of v 0 ZERO None f ords s]
  by (simp add: tokens_at_while_def view_start prev_at_0)

lemma tokens_from_loop_visit:
  assumes "valid v"
  shows "k + ord = length (toks v) \<Longrightarrow> same_anchor prev (prev_at (toks v) ord) \<Longrightarrow>
    tokens_from_loop (view v) f first k ord prev (pos v ord) s =
      Inr (visit f (max first ord) (drop (max first ord) (toks v)) s)"
proof (induction k arbitrary: ord prev s)
  case (Suc k)
  have dr: "drop ord (toks v) = toks v ! ord # drop (Suc ord) (toks v)"
    using Suc.prems by (simp add: Cons_nth_drop_Suc)
  have rd: "rd_tok (lz_nsym (view v)) prev (pos v ord) = Inr (toks v ! ord, pos v (Suc ord))"
    using Suc.prems by (intro rd_tok_at [OF assms]) simp_all
  have IH: "tokens_from_loop (view v) f first k (Suc ord) (tr_span (toks v ! ord)) (pos v (Suc ord)) s' =
      Inr (visit f (max first (Suc ord)) (drop (max first (Suc ord)) (toks v)) s')" for s'
    using Suc.prems by (intro Suc.IH) (simp_all add: prev_at_Suc)
  show ?case
  proof (cases "first \<le> ord")
    case True
    then have "max first ord = ord" "max first (Suc ord) = Suc ord" by simp_all
    with True show ?thesis
      by (simp add: rd IH dr split: prod.splits)
  next
    case False
    then have "max first ord = max first (Suc ord)" by simp
    with False show ?thesis by (simp add: rd IH)
  qed
qed simp

lemma tokens_from_while_visit:
  assumes "valid v"
  shows "tokens_from_while (view v) first f s = Inr (visit f first (drop first (toks v)) s)"
proof (cases "first < length (toks v)")
  case True
  let ?b = "first div CHECKPOINT_EVERY"
  have le: "?b * CHECKPOINT_EVERY \<le> first" by (simp add: CHECKPOINT_EVERY_def)
  define p where "p = (if ?b = 0 then ZERO else ck_prev (lz_cks (view v) ! (?b - 1)))"
  note ck = block_ck [OF assms _ True]
  have sel: "(if ?b = 0 then (0, ZERO, 0)
     else (ck_off (lz_cks (view v) ! (?b - 1)), ck_prev (lz_cks (view v) ! (?b - 1)), ?b * CHECKPOINT_EVERY)) =
    (off v (?b * CHECKPOINT_EVERY), p, ?b * CHECKPOINT_EVERY)"
    using ck(1) view_start [OF assms] by (cases "?b = 0") (simp_all add: p_def)
  have "same_anchor p (prev_at (toks v) (?b * CHECKPOINT_EVERY))"
    using ck(2) by (cases "?b = 0") (simp_all add: p_def prev_at_0)
  from tokens_from_loop_visit [OF assms _ this, of "length (toks v) - ?b * CHECKPOINT_EVERY" f first s] show ?thesis
    using True le unfolding tokens_from_while_def Let_def sel by (simp add: view_ntok [OF assms] max_def)
qed (simp add: tokens_from_while_def view_ntok [OF assms])

end

lemma view_rec_lazy_of:
  assumes "wf_stream st" and "k < length (st_tokens st)"
  shows "rd_tok (lz_nsym (lazy_of st)) (prev_at (st_tokens st) k) \<lparr>rb = lz_toks (lazy_of st), at = tok_off (st_tokens st) k\<rparr> =
    Inr (st_tokens st ! k, \<lparr>rb = lz_toks (lazy_of st), at = tok_off (st_tokens st) (Suc k)\<rparr>)"
proof -
  let ?ts = "st_tokens st"
  have "drop (tok_off ?ts k) (tok_bytes ZERO ?ts) =
      put_tok (prev_at ?ts k) (?ts ! k) @ tok_bytes (tr_span (?ts ! k)) (drop (Suc k) ?ts)"
    using assms by (simp add: tok_bytes_drop Cons_nth_drop_Suc [symmetric])
  moreover have "unat p < lz_nsym (lazy_of st)" if "tr_parent (?ts ! k) = Some p" for p
    using assms that nth_mem by (fastforce simp: wf_stream_def lazy_of_def)
  ultimately show ?thesis
    using reads_at(1) [OF reads_tok, of "?ts ! k" "lz_nsym (lazy_of st)"] assms(2) by (simp add: lazy_of_def tok_off_Suc)
qed

interpretation encoded: token_view lazy_of st_tokens "\<lambda>st. tok_off (st_tokens st)" wf_stream
proof
  fix st b
  assume "wf_stream st" "0 < b" "b * CHECKPOINT_EVERY < length (st_tokens st)"
  then have "b - 1 < (length (st_tokens st) - 1) div CHECKPOINT_EVERY"
    by (simp add: CHECKPOINT_EVERY_def less_eq_div_iff_mult_less_eq Suc_le_eq [symmetric])
  then show "ck_matches (lz_cks (lazy_of st) ! (b - 1)) (tok_off (st_tokens st) (b * CHECKPOINT_EVERY))
      (prev_at (st_tokens st) (b * CHECKPOINT_EVERY))"
    using \<open>0 < b\<close> by (simp add: lazy_of_def cks_of_nth ck_matches_def ck_at_def)
qed (simp_all add: view_rec_lazy_of, simp_all add: lazy_of_def tok_off_def)

lemma keeps_bind: "keeps get \<Longrightarrow> (\<And>a. keeps (f a)) \<Longrightarrow> keeps (\<lambda>r. bindE (get r) (\<lambda>(a, r). f a r))"
  by (fastforce simp: keeps_def bindE_eq_Inr_iff)

lemma keeps_pure: "keeps (\<lambda>r. Inr (v, r))"
  by (simp add: keeps_def)

lemma keeps_fail: "keeps (\<lambda>r. Inl e)"
  by (simp add: keeps_def)

lemma keeps_if: "keeps f \<Longrightarrow> keeps g \<Longrightarrow> keeps (\<lambda>r. if b then f r else g r)"
  by (simp add: keeps_def)

lemma keeps_bind_pure: "(\<And>a. keeps (f a)) \<Longrightarrow> keeps (\<lambda>r. bindE x (\<lambda>a. f a r))"
  by (auto simp: keeps_def bindE_eq_Inr_iff)

lemma keeps_byte: "keeps rd_byte"
  by (auto simp: keeps_def rd_byte_def split: if_splits option.splits)

lemma keeps_varint_loop: "varint_loop r v sh = Inr (w, r') \<Longrightarrow> rb r' = rb r"
proof (induction r v sh rule: varint_loop.induct)
  case (1 r v sh)
  from 1(2) obtain b r1 where b: "rd_byte r = Inr (b, r1)"
    by (subst (asm) varint_loop.simps) (auto simp: bindE_eq_Inr_iff)
  have "rb r1 = rb r" using keeps_byte b by (simp add: keeps_def)
  with 1(1) [of "(b, r1)" b r1] 1(2) show ?case
    by (subst (asm) (2) varint_loop.simps) (auto simp: b Let_def split: if_splits)
qed

lemma keeps_varint: "keeps rd_varint"
  by (auto simp: keeps_def rd_varint_def dest: keeps_varint_loop split: if_splits)

lemma keeps_rel: "keeps (rd_rel base)"
  unfolding rd_rel_def by (intro keeps_bind keeps_bind_pure keeps_varint keeps_pure)

lemma keeps_span: "keeps (rd_span prev)"
  unfolding rd_span_def by (intro keeps_bind keeps_bind_pure keeps_rel keeps_varint keeps_pure)

lemma keeps_parent: "keeps rd_parent"
  unfolding rd_parent_def by (intro keeps_bind keeps_bind_pure keeps_if keeps_varint keeps_pure)

lemma keeps_tok: "keeps (rd_tok nsym prev)"
  unfolding rd_tok_def rd_class_def
  by (intro keeps_bind keeps_bind_pure keeps_if keeps_fail keeps_varint keeps_byte keeps_parent keeps_span keeps_pure)

lemma rd_tok_rb: "rd_tok nsym prev r = Inr (t, r') \<Longrightarrow> rb r' = rb r"
  using keeps_tok by (auto simp: keeps_def)

lemma tokens_loop_collect:
  "tokens_loop l collect (Suc k) ord prev r acc =
     (if ord > 0 \<and> ord mod CHECKPOINT_EVERY = 0 \<and>
         \<not> ck_matches (lz_cks l ! (ord div CHECKPOINT_EVERY - 1)) (at r) prev
      then Inl (bad ''checkpoint mismatch'')
      else bindE (rd_tok (lz_nsym l) prev r) (\<lambda>(rec, r). tokens_loop l collect k (Suc ord) (tr_span rec) r (acc @ [rec])))"
  by (simp add: collect_def)

text \<open>What a full decode has established about each record.\<close>

lemma tokens_loop_trace:
  assumes "tokens_loop l collect k ord prev r acc = Inr res"
  shows "\<exists>ts. res = acc @ ts \<and> length ts = k \<and> rec_pos (lz_nsym l) k prev r = length (rb r) \<and>
    (\<forall>j < k. let p = (if j = 0 then prev else tr_span (ts ! (j - 1))) in
       rd_tok (lz_nsym l) p (r\<lparr>at := rec_pos (lz_nsym l) j prev r\<rparr>) =
         Inr (ts ! j, r\<lparr>at := rec_pos (lz_nsym l) (Suc j) prev r\<rparr>) \<and>
       (ord + j > 0 \<and> (ord + j) mod CHECKPOINT_EVERY = 0 \<longrightarrow>
         ck_matches (lz_cks l ! ((ord + j) div CHECKPOINT_EVERY - 1)) (rec_pos (lz_nsym l) j prev r) p))"
  using assms
proof (induction k arbitrary: ord prev r acc)
  case 0
  then show ?case by (auto split: if_splits)
next
  case (Suc k)
  from Suc.prems obtain t r1 where t: "rd_tok (lz_nsym l) prev r = Inr (t, r1)"
    and ck: "ord > 0 \<and> ord mod CHECKPOINT_EVERY = 0 \<longrightarrow> ck_matches (lz_cks l ! (ord div CHECKPOINT_EVERY - 1)) (at r) prev"
    and rest: "tokens_loop l collect k (Suc ord) (tr_span t) r1 (acc @ [t]) = Inr res"
    unfolding tokens_loop_collect by (auto simp: bindE_eq_Inr_iff split: if_splits)
  have rb: "rb r1 = rb r" by (rule rd_tok_rb [OF t])
  then have r1: "r\<lparr>at := n\<rparr> = r1\<lparr>at := n\<rparr>" for n by (cases r; cases r1) simp
  from Suc.IH [OF rest] obtain ts where ts: "res = (acc @ [t]) @ ts" "length ts = k"
     "rec_pos (lz_nsym l) k (tr_span t) r1 = length (rb r1)"
    and IH: "\<And>j. j < k \<Longrightarrow> (let p = (if j = 0 then tr_span t else tr_span (ts ! (j - 1))) in
       rd_tok (lz_nsym l) p (r1\<lparr>at := rec_pos (lz_nsym l) j (tr_span t) r1\<rparr>) =
         Inr (ts ! j, r1\<lparr>at := rec_pos (lz_nsym l) (Suc j) (tr_span t) r1\<rparr>) \<and>
       (Suc ord + j > 0 \<and> (Suc ord + j) mod CHECKPOINT_EVERY = 0 \<longrightarrow>
         ck_matches (lz_cks l ! ((Suc ord + j) div CHECKPOINT_EVERY - 1)) (rec_pos (lz_nsym l) j (tr_span t) r1) p))"
    by blast
  show ?case
  proof (intro exI [of _ "t # ts"] conjI allI impI)
    fix j assume j: "j < Suc k"
    show "let p = (if j = 0 then prev else tr_span ((t # ts) ! (j - 1))) in
       rd_tok (lz_nsym l) p (r\<lparr>at := rec_pos (lz_nsym l) j prev r\<rparr>) =
         Inr ((t # ts) ! j, r\<lparr>at := rec_pos (lz_nsym l) (Suc j) prev r\<rparr>) \<and>
       (ord + j > 0 \<and> (ord + j) mod CHECKPOINT_EVERY = 0 \<longrightarrow>
         ck_matches (lz_cks l ! ((ord + j) div CHECKPOINT_EVERY - 1)) (rec_pos (lz_nsym l) j prev r) p)"
    proof (cases j)
      case 0
      then show ?thesis using t ck r1 [of "at r1"] by simp
    next
      case (Suc i)
      then show ?thesis using IH [of i] j t by (cases i) (simp_all add: r1 Let_def)
    qed
  qed (use ts t rb in simp_all)
qed

declare rec_pos.simps(2) [simp del]

lemma accepted_trace:
  assumes "accepted l"
  defines "p \<equiv> \<lambda>k. rec_pos (lz_nsym l) k ZERO \<lparr>rb = lz_toks l, at = 0\<rparr>"
  shows "length (all_toks l) = lz_ntok l" and "p (lz_ntok l) = length (lz_toks l)"
    and "k < lz_ntok l \<Longrightarrow> rd_tok (lz_nsym l) (prev_at (all_toks l) k) \<lparr>rb = lz_toks l, at = p k\<rparr> =
      Inr (all_toks l ! k, \<lparr>rb = lz_toks l, at = p (Suc k)\<rparr>)"
    and "k < lz_ntok l \<Longrightarrow> k > 0 \<Longrightarrow> k mod CHECKPOINT_EVERY = 0 \<Longrightarrow>
      ck_matches (lz_cks l ! (k div CHECKPOINT_EVERY - 1)) (p k) (prev_at (all_toks l) k)"
proof -
  from assms(1) obtain ts where "tokens l collect [] = Inr ts" by (auto simp: accepted_def is_ok_def split: sum.splits)
  then have ts: "tokens_loop l collect (lz_ntok l) 0 ZERO \<lparr>rb = lz_toks l, at = 0\<rparr> [] = Inr ts" and all: "all_toks l = ts"
    by (simp_all add: tokens_def all_toks_def)
  note tr = tokens_loop_trace [OF ts, unfolded Let_def, simplified]
  show "length (all_toks l) = lz_ntok l" "p (lz_ntok l) = length (lz_toks l)"
    using tr by (auto simp: all p_def)
  show "rd_tok (lz_nsym l) (prev_at (all_toks l) k) \<lparr>rb = lz_toks l, at = p k\<rparr> =
      Inr (all_toks l ! k, \<lparr>rb = lz_toks l, at = p (Suc k)\<rparr>)" if "k < lz_ntok l"
    using tr that by (auto simp: all p_def prev_at_def)
  show "ck_matches (lz_cks l ! (k div CHECKPOINT_EVERY - 1)) (p k) (prev_at (all_toks l) k)"
    if "k < lz_ntok l" "k > 0" "k mod CHECKPOINT_EVERY = 0"
    using tr that by (auto simp: all p_def prev_at_def)
qed

interpretation accepted: token_view "\<lambda>l. l" all_toks
    "\<lambda>l k. rec_pos (lz_nsym l) k ZERO \<lparr>rb = lz_toks l, at = 0\<rparr>" accepted
proof
  fix l b
  assume "accepted l" "0 < b" "b * CHECKPOINT_EVERY < length (all_toks l)"
  then show "ck_matches (lz_cks l ! (b - 1)) (rec_pos (lz_nsym l) (b * CHECKPOINT_EVERY) ZERO \<lparr>rb = lz_toks l, at = 0\<rparr>)
      (prev_at (all_toks l) (b * CHECKPOINT_EVERY))"
    using accepted_trace(1) [of l] accepted_trace(4) [of l "b * CHECKPOINT_EVERY"] by (simp add: CHECKPOINT_EVERY_def)
qed (use accepted_trace in \<open>auto\<close>)

lemma takeWhile_threshold:
  assumes "\<And>j. j < n \<Longrightarrow> P (f j) \<longleftrightarrow> j < m"
  shows "length (takeWhile P (map f [0..<n])) = min m n"
  using assms
proof (induction n)
  case (Suc n)
  then show ?case
    by (cases "n < m") (auto simp: takeWhile_append min_def)
qed simp

lemma first_at_iff:
  assumes "by_start ts" and "k < length ts"
  shows "sp_start (tr_span (ts ! k)) < start \<longleftrightarrow> k < first_at ts start"
proof
  let ?P = "\<lambda>t. sp_start (tr_span t) < start"
  assume k: "k < first_at ts start"
  then have "takeWhile ?P ts ! k \<in> set (takeWhile ?P ts)" by (simp add: first_at_def)
  then have "?P (takeWhile ?P ts ! k)" by (rule set_takeWhileD [THEN conjunct2])
  then show "?P (ts ! k)" using k by (simp add: first_at_def takeWhile_nth)
next
  let ?P = "\<lambda>t. sp_start (tr_span t) < start"
  assume P: "?P (ts ! k)"
  show "k < first_at ts start"
  proof (rule ccontr)
    assume "\<not> k < first_at ts start"
    then have le: "first_at ts start \<le> k" by simp
    then have "\<not> ?P (ts ! first_at ts start)"
      unfolding first_at_def using assms(2) by (intro nth_length_takeWhile) simp
    moreover have "sp_start (tr_span (ts ! first_at ts start)) \<le> sp_start (tr_span (ts ! k))"
      using sorted_nth_mono [OF assms(1) [unfolded by_start_def] le] assms(2) le by simp
    ultimately show False using P by simp
  qed
qed

lemma block_ordinal_lazy_of:
  assumes "by_start (st_tokens st)"
  shows "block_ordinal_at (lazy_of st) start =
    min (first_at (st_tokens st) start) (length (st_tokens st) - 1) div CHECKPOINT_EVERY * CHECKPOINT_EVERY"
proof -
  let ?ts = "st_tokens st" and ?i = "first_at (st_tokens st) start"
  let ?n = "(length (st_tokens st) - 1) div CHECKPOINT_EVERY"
  have "ck_start (ck_at ?ts (Suc j * CHECKPOINT_EVERY)) < start \<longleftrightarrow> j < ?i div CHECKPOINT_EVERY" if "j < ?n" for j
  proof -
    have "Suc j * CHECKPOINT_EVERY < length ?ts" using cks_index_le [of j "length ?ts"] that by simp
    then have "sp_start (tr_span (?ts ! (Suc j * CHECKPOINT_EVERY - 1))) < start \<longleftrightarrow> Suc j * CHECKPOINT_EVERY - 1 < ?i"
      by (intro first_at_iff [OF assms]) simp
    then show ?thesis by (auto simp: ck_at_def prev_at_def CHECKPOINT_EVERY_def)
  qed
  from takeWhile_threshold [where P = "\<lambda>c. ck_start c < start", OF this]
  have "block_ordinal_at (lazy_of st) start = min (?i div CHECKPOINT_EVERY) ?n * CHECKPOINT_EVERY"
    by (simp add: block_ordinal_at_def partition_point_def lazy_of_def cks_of_def)
  moreover have "min (?i div CHECKPOINT_EVERY) ?n = min ?i (length ?ts - 1) div CHECKPOINT_EVERY"
    by (cases "?i \<le> length ?ts - 1") (simp_all add: div_le_mono min_absorb1 min_absorb2)
  ultimately show ?thesis by simp
qed


lemma visit_collect: "visit collect k ts acc = acc @ ts"
  by (induction ts arbitrary: k acc) (simp_all add: collect_def)

lemma decode_uncounted_collect:
  "decode_uncounted b =
     bindE (decode_lazy_uncounted b) (\<lambda>l.
     bindE (symbols_uncounted l) (\<lambda>symbols.
     bindE (tokens l collect []) (\<lambda>tokens.
     Inr \<lparr>st_symbols = symbols, st_tokens = tokens\<rparr>)))"
proof -
  have "(\<lambda>_ t ts. (True, ts @ [t])) = collect" by (intro ext) (simp add: collect_def)
  then show ?thesis by (simp add: decode_uncounted_def)
qed

lemma decode_uncounted_accepted:
  assumes "decode_lazy_uncounted b = Inr l" and "decode_uncounted b = Inr st"
  shows "accepted l" and "all_toks l = st_tokens st" and "symbols_uncounted l = Inr (st_symbols st)"
  using assms by (auto simp: decode_uncounted_collect bindE_eq_Inr_iff accepted_def all_toks_def is_ok_def)

lemma rd_tok_parent: "rd_tok nsym prev r = Inr (t, r') \<Longrightarrow> tr_parent t = Some p \<Longrightarrow> unat p < nsym"
  by (auto simp: rd_tok_def bindE_eq_Inr_iff split: if_splits)

lemma rd_range_valid: "rd_range pf r = Inr (rng, r') \<Longrightarrow> valid_range rng"
proof -
  have "f \<le> f + d" if "unat f + unat d < 2 ^ 32" for f d :: u32
    using that by (simp add: word_le_nat_alt unat_word_ariths)
  moreover assume "rd_range pf r = Inr (rng, r')"
  ultimately show ?thesis
    by (auto simp: rd_range_def bindE_eq_Inr_iff valid_range_def checked_add_u32_def split: if_splits)
qed

lemma rd_sym_valid:
  "rd_sym own i prev pf r = Inr (s, r') \<Longrightarrow> valid_range (sr_toks s) \<and> (\<forall>p. sr_parent s = Some p \<longrightarrow> unat p < i)"
  by (auto simp: rd_sym_def bindE_eq_Inr_iff split: if_splits dest: rd_range_valid)

lemma symbols_loop_valid:
  "symbols_loop own k i prev pf r = Inr (ss, r') \<Longrightarrow> length ss = k \<and>
    (\<forall>j < k. valid_range (sr_toks (ss ! j)) \<and> (\<forall>p. sr_parent (ss ! j) = Some p \<longrightarrow> unat p < i + j))"
proof (induction k arbitrary: i prev pf r ss)
  case (Suc k)
  from Suc.prems obtain s r1 ss' where s: "rd_sym own i prev pf r = Inr (s, r1)" and ss: "ss = s # ss'"
    and rest: "symbols_loop own k (Suc i) (sr_span s) (next_first pf (sr_toks s)) r1 = Inr (ss', r')"
    by (auto simp: bindE_eq_Inr_iff)
  from Suc.IH [OF rest] rd_sym_valid [OF s] show ?case
    by (auto simp: ss less_Suc_eq_0_disj)
qed simp

lemma rd_cks_sorted:
  "rd_cks n lst r = Inr (cs, r') \<Longrightarrow> length cs = n \<and> sorted (map ck_off (lst # cs))"
proof (induction n arbitrary: lst r cs)
  case (Suc n)
  from Suc.prems obtain c r1 cs' where rest: "rd_cks n c r1 = Inr (cs', r')" and cs: "cs = c # cs'" and "ck_off lst \<le> ck_off c"
    by (auto simp: bindE_eq_Inr_iff Let_def checked_add_usize_def split: if_splits)
  then show ?case using Suc.IH [OF rest] by auto
qed simp

lemma decode_lazy_inv:
  assumes "decode_lazy_uncounted b = Inr l" and "length b < 2 ^ 63"
  shows "length (lz_cks l) = (lz_ntok l - 1) div CHECKPOINT_EVERY \<and> sorted (map ck_off (lz_cks l)) \<and>
    (lz_cks l \<noteq> [] \<longrightarrow> ck_off (last (lz_cks l)) < length (lz_toks l)) \<and>
    lz_nsym l + lz_ntok l \<le> length b"
  using assms
  by (auto simp: decode_lazy_uncounted_def bindE_eq_Inr_iff Let_def saturating_add_usize_def not_less not_le
      split: if_splits dest!: rd_cks_sorted)

lemma wf_sample: "wf_stream sample"
  by (auto simp: wf_stream_def sample_def valid_sym_def valid_id_def less_Suc_eq)

lemma sample_ranges:
  "with_ranges sample =
     [(st_symbols sample ! 0)\<lparr>sr_toks := Some (0, 1)\<rparr>, (st_symbols sample ! 1)\<lparr>sr_toks := Some (1, 1)\<rparr>]"
  by (simp add: with_ranges_def toks_under_def sample_def under_Some ends_of_def upt_rec)

lemma sample_decode:
  "decode_uncounted (encode sample) = Inr \<lparr>st_symbols = with_ranges sample, st_tokens = st_tokens sample\<rparr>"
  by (simp add: decode_uncounted_collect decode_lazy_encode symbols_lazy_of encoded.tokens_visit visit_collect wf_sample)

lemma sample_length: "length (encode sample) < 2 ^ 63"
  using length_encode_le [of sample] by (simp add: sample_def)

lemma sample_by_start: "by_start (st_tokens sample)"
  by (simp add: by_start_def sample_def)

subsection \<open>Properties\<close>

text \<open>
  C1: decoding what the encoder wrote gives back the stream, tokens unchanged and every symbol with
  its token range computed.
\<close>

theorem decode_encode:
  assumes "wf_stream st"
  shows "decode_uncounted (encode st) = Inr \<lparr>st_symbols = with_ranges st, st_tokens = st_tokens st\<rparr>"
  by (simp add: decode_uncounted_collect decode_lazy_encode symbols_lazy_of encoded.tokens_visit visit_collect assms)

theorem decode_encode_witness:
  "decode_uncounted (encode sample) =
     Inr \<lparr>st_symbols = [(st_symbols sample ! 0)\<lparr>sr_toks := Some (0, 1)\<rparr>,
                         (st_symbols sample ! 1)\<lparr>sr_toks := Some (1, 1)\<rparr>],
          st_tokens = st_tokens sample\<rparr>"
  using decode_encode [OF wf_sample] by (simp add: sample_ranges)

text \<open>
  C2: on any bytes that the full decode accepts, visiting the tokens at chosen ordinals through the
  checkpoints gives exactly the records of the full decode, in the order asked for, and rejects
  ordinals that are out of range or out of order.
\<close>

theorem tokens_at_while_eq_decode:
  assumes "decode_lazy_uncounted b = Inr l" and "decode_uncounted b = Inr st"
  shows "tokens_at_while l ords f s = visit_at f (st_tokens st) ords None s"
  using accepted.tokens_at_while_visit [OF decode_uncounted_accepted(1) [OF assms]]
  by (simp add: decode_uncounted_accepted(2) [OF assms])

theorem tokens_at_while_eq_decode_witness:
  "tokens_at_while (lazy_of sample) [0, 2] (\<lambda>ord t s. (True, s @ [(ord, tr_term t)])) [] = Inr [(0, 10), (2, 12)] \<and>
   tokens_at_while (lazy_of sample) [2, 1] (\<lambda>ord t s. (True, s @ [(ord, tr_term t)])) [] =
     Inl (bad ''token ordinal out of order or range'')"
  unfolding tokens_at_while_eq_decode [OF decode_lazy_encode [OF wf_sample] sample_decode]
  by (simp add: sample_def)

text \<open>
  C3: on any bytes that the full decode accepts, visiting from an ordinal onwards is visiting the
  tail of the decoded tokens; an ordinal past the end visits nothing.
\<close>

theorem tokens_from_while_eq_decode:
  assumes "decode_lazy_uncounted b = Inr l" and "decode_uncounted b = Inr st"
  shows "tokens_from_while l first f s = Inr (visit f first (drop first (st_tokens st)) s)"
  using accepted.tokens_from_while_visit [OF decode_uncounted_accepted(1) [OF assms]]
  by (simp add: decode_uncounted_accepted(2) [OF assms])

theorem tokens_from_while_eq_decode_witness:
  "tokens_from_while (lazy_of sample) 1 (\<lambda>ord t s. (True, s @ [(ord, tr_term t)])) [] = Inr [(1, 11), (2, 12)]"
  unfolding tokens_from_while_eq_decode [OF decode_lazy_encode [OF wf_sample] sample_decode]
  by (simp add: sample_def)

text \<open>
  C5: the documented contract of \<open>block_ordinal_at\<close> on tokens sorted by start: the ordinal is at or
  before the first token that starts at or after the byte, less than a block before it, and the
  first ordinal of the last block when there is no such token.
\<close>

theorem block_ordinal_at_contract:
  assumes "wf_stream st" and "by_start (st_tokens st)" and "decode_lazy_uncounted (encode st) = Inr l"
  shows "let n = length (st_tokens st); i = first_at (st_tokens st) start; k = block_ordinal_at l start in
    k \<le> i \<and> (i < n \<longrightarrow> i - k < CHECKPOINT_EVERY) \<and>
    (i = n \<longrightarrow> k = (n - 1) div CHECKPOINT_EVERY * CHECKPOINT_EVERY)"
proof -
  have "l = lazy_of st" using assms(1,3) by (simp add: decode_lazy_encode)
  then show ?thesis
    unfolding block_ordinal_lazy_of [OF assms(2)] \<open>l = lazy_of st\<close>
    by (auto simp: Let_def CHECKPOINT_EVERY_def min_def)
qed

theorem block_ordinal_at_contract_witness:
  "block_ordinal_at (lazy_of sample) 4 \<le> 1 \<and> 1 - block_ordinal_at (lazy_of sample) 4 < CHECKPOINT_EVERY"
  using block_ordinal_at_contract [OF wf_sample sample_by_start decode_lazy_encode [OF wf_sample], of 4]
  by (simp add: sample_def first_at_def Let_def)

text \<open>
  C4: the token ranges. When parents come before their children, the range of a symbol is the first
  and the last ordinal of the tokens that have the symbol on their parent chain (none when there are
  no such tokens), and the flag of the stream is set exactly when every symbol's tokens are
  contiguous.
\<close>

theorem compute_ranges_correct:
  assumes "parents_before ss" and "length ts < 2 ^ 32"
  shows "(\<forall>i < length ss. fst (compute_ranges ss ts) ! i = ends_of (toks_under ss ts i)) \<and>
    (snd (compute_ranges ss ts) \<longleftrightarrow> (\<forall>i < length ss. contiguous (toks_under ss ts i)))"
  by (simp add: compute_ranges_spec [OF assms])

theorem compute_ranges_correct_witness:
  "fst (compute_ranges (st_symbols sample) (st_tokens sample)) ! 1 = Some (1, 1)"
  using compute_ranges_correct [OF wf_parents_before [OF wf_sample], of "st_tokens sample"]
  by (simp add: sample_def toks_under_def under_Some ends_of_def upt_rec)

text \<open>
  C6: whatever the bytes, a stream the decoder returns is well linked: every symbol's parent is an
  earlier symbol, every token's parent is a symbol of the stream, and every token range is ordered.
\<close>

theorem decode_links_in_range:
  assumes "decode_uncounted b = Inr st"
  shows "(\<forall>i < length (st_symbols st). valid_range (sr_toks (st_symbols st ! i)) \<and>
       (\<forall>p. sr_parent (st_symbols st ! i) = Some p \<longrightarrow> unat p < i)) \<and>
    (\<forall>t \<in> set (st_tokens st). \<forall>p. tr_parent t = Some p \<longrightarrow> unat p < length (st_symbols st))"
proof -
  from assms obtain l where l: "decode_lazy_uncounted b = Inr l" by (auto simp: decode_uncounted_def bindE_eq_Inr_iff)
  note acc = decode_uncounted_accepted [OF l assms]
  from acc(3) obtain r where "symbols_loop (lz_has_owners l) (lz_nsym l) 0 ZERO 0 \<lparr>rb = lz_sym_bytes l, at = 0\<rparr> = Inr (st_symbols st, r)"
    by (auto simp: symbols_uncounted_def bindE_eq_Inr_iff split: if_splits)
  note sym = symbols_loop_valid [OF this]
  have "unat p < lz_nsym l" if "t \<in> set (st_tokens st)" "tr_parent t = Some p" for t p
  proof -
    from that(1) obtain k where "k < length (all_toks l)" "t = all_toks l ! k" by (auto simp: in_set_conv_nth acc(2))
    with that(2) show ?thesis using rd_tok_parent [OF accepted.view_rec [OF acc(1)]] by simp
  qed
  with sym show ?thesis by simp
qed

theorem decode_links_in_range_witness:
  "list_all (\<lambda>t. case tr_parent t of None \<Rightarrow> True | Some p \<Rightarrow> unat p < 2) (st_tokens sample)"
  using decode_links_in_range [OF sample_decode]
  by (simp add: sample_ranges numeral_2_eq_2 list_all_iff split: option.splits)

text \<open>
  C7: whatever the bytes, the lazy view a decode returns can be indexed: there is one checkpoint per
  started block after the first, at offsets that do not decrease and stay inside the token section,
  so that no access through a valid ordinal leaves the checkpoint vector or the section. (A slice is
  never longer than \<open>isize::MAX\<close> bytes.)
\<close>

theorem decode_lazy_checkpoints:
  assumes "decode_lazy_uncounted b = Inr l" and "length b < 2 ^ 63"
  shows "length (lz_cks l) = (lz_ntok l - 1) div CHECKPOINT_EVERY \<and> sorted (map ck_off (lz_cks l)) \<and>
    (\<forall>c \<in> set (lz_cks l). ck_off c < length (lz_toks l)) \<and>
    (\<forall>ord < lz_ntok l. CHECKPOINT_EVERY \<le> ord \<longrightarrow> ord div CHECKPOINT_EVERY - 1 < length (lz_cks l)) \<and>
    lz_nsym l + lz_ntok l \<le> length b"
proof -
  note inv = decode_lazy_inv [OF assms]
  then have len: "length (lz_cks l) = (lz_ntok l - 1) div CHECKPOINT_EVERY" and sorted: "sorted (map ck_off (lz_cks l))"
    by simp_all
  have "ck_off c < length (lz_toks l)" if "c \<in> set (lz_cks l)" for c
  proof -
    from that obtain j where j: "j < length (lz_cks l)" "c = lz_cks l ! j" by (auto simp: in_set_conv_nth)
    then have "ck_off c \<le> ck_off (last (lz_cks l))"
      using sorted_nth_mono [OF sorted, of j "length (lz_cks l) - 1"] that by (subst last_conv_nth) auto
    with inv that show ?thesis by (metis le_less_trans list.set_cases list.distinct(1))
  qed
  moreover have "ord div CHECKPOINT_EVERY - 1 < length (lz_cks l)" if "ord < lz_ntok l" "CHECKPOINT_EVERY \<le> ord" for ord
    using that unfolding len by (simp add: CHECKPOINT_EVERY_def less_eq_div_iff_mult_less_eq)
  ultimately show ?thesis using len sorted inv by auto
qed

theorem decode_lazy_checkpoints_witness:
  "lz_cks (lazy_of sample) = [] \<and> lz_nsym (lazy_of sample) + lz_ntok (lazy_of sample) \<le> length (encode sample)"
  using decode_lazy_checkpoints [OF decode_lazy_encode [OF wf_sample] sample_length]
  by (simp add: lazy_of_def sample_def CHECKPOINT_EVERY_def)

end
