(* ===== verification/Utf8.thy ===== *)
theory Utf8
  imports Prelude
begin

text \<open>
  Rust's \<open>str\<close> at the byte level: \<open>as_bytes\<close>, \<open>std::str::from_utf8\<close> and the UTF-8 encoding of a
  Unicode scalar value. A \<open>str\<close> is a HOL \<open>string\<close> whose characters are its bytes; a byte sequence is
  a \<open>str\<close> exactly when \<open>utf8_ok\<close> accepts it. These functions are the standard library's.
\<close>

unbundle bit_operations_syntax

subsection \<open>Strings and bytes\<close>

definition as_bytes :: "string \<Rightarrow> u8 list" where
  "as_bytes s = map (\<lambda>c. of_nat (of_char c)) s"

definition of_bytes :: "u8 list \<Rightarrow> string" where
  "of_bytes bs = map (\<lambda>b. char_of (unat b)) bs"

definition is_cont :: "nat \<Rightarrow> bool" where
  "is_cont b \<longleftrightarrow> 0x80 \<le> b \<and> b \<le> 0xBF"

text \<open>The well-formed sequences of two, three and four bytes (the shortest form, no surrogates).\<close>

definition utf8_2 :: "nat \<Rightarrow> nat \<Rightarrow> bool" where
  "utf8_2 a b \<longleftrightarrow> 0xC2 \<le> a \<and> a \<le> 0xDF \<and> is_cont b"

definition utf8_3 :: "nat \<Rightarrow> nat \<Rightarrow> nat \<Rightarrow> bool" where
  "utf8_3 a b c \<longleftrightarrow>
     0xE0 \<le> a \<and> a \<le> 0xEF \<and> is_cont b \<and> is_cont c \<and>
     (a = 0xE0 \<longrightarrow> 0xA0 \<le> b) \<and> (a = 0xED \<longrightarrow> b \<le> 0x9F)"

definition utf8_4 :: "nat \<Rightarrow> nat \<Rightarrow> nat \<Rightarrow> nat \<Rightarrow> bool" where
  "utf8_4 a b c d \<longleftrightarrow>
     0xF0 \<le> a \<and> a \<le> 0xF4 \<and> is_cont b \<and> is_cont c \<and> is_cont d \<and>
     (a = 0xF0 \<longrightarrow> 0x90 \<le> b) \<and> (a = 0xF4 \<longrightarrow> b \<le> 0x8F)"

fun utf8_ok_nat :: "nat list \<Rightarrow> bool" where
  "utf8_ok_nat [] = True"
| "utf8_ok_nat (a # bs) =
     (if a < 0x80 then utf8_ok_nat bs
      else case bs of
        [] \<Rightarrow> False
      | b # bs1 \<Rightarrow>
          if utf8_2 a b then utf8_ok_nat bs1
          else case bs1 of
            [] \<Rightarrow> False
          | c # bs2 \<Rightarrow>
              if utf8_3 a b c then utf8_ok_nat bs2
              else case bs2 of
                [] \<Rightarrow> False
              | d # bs3 \<Rightarrow> if utf8_4 a b c d then utf8_ok_nat bs3 else False)"

definition utf8_ok :: "u8 list \<Rightarrow> bool" where
  "utf8_ok bs = utf8_ok_nat (map unat bs)"

definition from_utf8 :: "u8 list \<Rightarrow> string option" where
  "from_utf8 bs = (if utf8_ok bs then Some (of_bytes bs) else None)"

text \<open>A HOL string that is a Rust \<open>str\<close>.\<close>

definition is_str :: "string \<Rightarrow> bool" where
  "is_str s \<longleftrightarrow> utf8_ok (as_bytes s)"

subsection \<open>Scalar values\<close>

text \<open>Unicode scalar values (Rust's \<open>char\<close>), \<open>char::len_utf8\<close> and \<open>char::encode_utf8\<close>.\<close>

type_synonym uchar = nat

definition is_scalar :: "uchar \<Rightarrow> bool" where
  "is_scalar c \<longleftrightarrow> c < 0xD800 \<or> 0xE000 \<le> c \<and> c < 0x110000"

definition len_utf8 :: "uchar \<Rightarrow> nat" where
  "len_utf8 c = (if c < 0x80 then 1 else if c < 0x800 then 2 else if c < 0x10000 then 3 else 4)"

definition encode_utf8 :: "uchar \<Rightarrow> nat list" where
  "encode_utf8 c =
     (if c < 0x80 then [c]
      else if c < 0x800 then [0xC0 + c div 0x40, 0x80 + c mod 0x40]
      else if c < 0x10000 then [0xE0 + c div 0x1000, 0x80 + c div 0x40 mod 0x40, 0x80 + c mod 0x40]
      else [0xF0 + c div 0x40000, 0x80 + c div 0x1000 mod 0x40, 0x80 + c div 0x40 mod 0x40,
            0x80 + c mod 0x40])"

text \<open>The \<open>str\<close> of a sequence of scalar values.\<close>

definition str_of :: "uchar list \<Rightarrow> string" where
  "str_of cs = map char_of (concat (map encode_utf8 cs))"

text \<open>\<open>str::chars\<close>: the scalar values of a \<open>str\<close>.\<close>

fun chars_nat :: "nat list \<Rightarrow> uchar list" where
  "chars_nat [] = []"
| "chars_nat (a # bs) =
     (if a < 0x80 then a # chars_nat bs
      else case bs of
        [] \<Rightarrow> []
      | b # bs1 \<Rightarrow>
          if utf8_2 a b then ((a - 0xC0) * 0x40 + (b - 0x80)) # chars_nat bs1
          else case bs1 of
            [] \<Rightarrow> []
          | c # bs2 \<Rightarrow>
              if utf8_3 a b c then
                ((a - 0xE0) * 0x1000 + (b - 0x80) * 0x40 + (c - 0x80)) # chars_nat bs2
              else case bs2 of
                [] \<Rightarrow> []
              | d # bs3 \<Rightarrow>
                  ((a - 0xF0) * 0x40000 + (b - 0x80) * 0x1000 + (c - 0x80) * 0x40 + (d - 0x80)) # chars_nat bs3)"

definition chars_of :: "string \<Rightarrow> uchar list" where
  "chars_of s = chars_nat (map of_char s)"

subsection \<open>Characters and literals\<close>

text \<open>White_Space of Unicode, the table behind \<open>char::is_whitespace\<close>.\<close>

definition is_whitespace :: "uchar \<Rightarrow> bool" where
  "is_whitespace c \<longleftrightarrow>
     9 \<le> c \<and> c \<le> 13 \<or> c = 0x20 \<or> c = 0x85 \<or> c = 0xA0 \<or> c = 0x1680 \<or>
     0x2000 \<le> c \<and> c \<le> 0x200A \<or> c = 0x2028 \<or> c = 0x2029 \<or> c = 0x202F \<or> c = 0x205F \<or> c = 0x3000"

text \<open>An ASCII literal as scalar values.\<close>

definition uchars :: "string \<Rightarrow> uchar list" where
  "uchars s = map of_char s"

definition trim_end_where :: "('a \<Rightarrow> bool) \<Rightarrow> 'a list \<Rightarrow> 'a list" where
  "trim_end_where p s = rev (dropWhile p (rev s))"

subsection \<open>Lemmas\<close>

subsection \<open>Lemmas\<close>

lemma length_as_bytes [simp]: "length (as_bytes s) = length s"
  by (simp add: as_bytes_def)

lemma length_of_bytes [simp]: "length (of_bytes bs) = length bs"
  by (simp add: of_bytes_def)

lemma unat_of_nat_u8: "n < 256 \<Longrightarrow> unat (of_nat n :: u8) = n"
  by (simp add: unat_of_nat take_bit_nat_eq_self)

lemma unat_u8_less: "unat b < 256" for b :: u8
  using unsigned_less [of b, where ?'a = nat] by simp

lemma of_bytes_as_bytes [simp]: "of_bytes (as_bytes s) = s"
  by (simp add: of_bytes_def as_bytes_def comp_def unat_of_nat_u8)

lemma as_bytes_of_bytes [simp]: "as_bytes (of_bytes bs) = bs"
  by (simp add: of_bytes_def as_bytes_def comp_def unat_u8_less)

lemma from_utf8_as_bytes [simp]: "is_str s \<Longrightarrow> from_utf8 (as_bytes s) = Some s"
  by (simp add: from_utf8_def is_str_def)

lemma from_utf8_Some: "from_utf8 bs = Some s \<longleftrightarrow> bs = as_bytes s \<and> is_str s"
  by (auto simp: from_utf8_def is_str_def)

lemma length_encode_utf8 [simp]: "length (encode_utf8 c) = len_utf8 c"
  by (simp add: encode_utf8_def len_utf8_def)

lemma len_utf8_pos [simp]: "0 < len_utf8 c"
  by (simp add: len_utf8_def)

lemma length_str_of: "length (str_of cs) = sum_list (map len_utf8 cs)"
  by (simp add: str_of_def length_concat comp_def)

lemma encode_utf8_less_256: "is_scalar c \<Longrightarrow> b \<in> set (encode_utf8 c) \<Longrightarrow> b < 256"
  by (auto simp: encode_utf8_def is_scalar_def less_mult_imp_div_less split: if_splits)

lemma utf8_ok_encode_utf8:
  assumes "is_scalar c"
  shows "utf8_ok_nat (encode_utf8 c @ bs) = utf8_ok_nat bs"
proof -
  consider "c < 0x80" | "0x80 \<le> c" "c < 0x800" | "0x800 \<le> c" "c < 0x10000" | "0x10000 \<le> c" "c < 0x110000"
    using assms unfolding is_scalar_def by linarith
  then show ?thesis
  proof cases
    case 2
    then have "2 \<le> c div 0x40" "c div 0x40 < 0x20" by linarith+
    then have "utf8_2 (0xC0 + c div 0x40) (0x80 + c mod 0x40)" by (auto simp: utf8_2_def is_cont_def)
    then show ?thesis using 2 by (simp add: encode_utf8_def)
  next
    case 3
    let ?a = "c div 0x1000" and ?b = "c div 0x40 mod 0x40"
    define d where "d = c div 0x40"
    have a: "?a = d div 0x40" by (simp add: d_def flip: div_mult2_eq)
    have d: "0x20 \<le> d" "d < 0x400" "d < 0x360 \<or> 0x380 \<le> d"
      using 3 assms unfolding d_def is_scalar_def by linarith+
    have "?a < 0x10" unfolding a using d by linarith
    moreover have "0x20 \<le> ?b" if "?a = 0"
      using that d div_mult_mod_eq [of d "0x40"] unfolding a d_def [symmetric] by linarith
    moreover have "?b \<le> 0x1F" if "?a = 0xD"
      using that d div_mult_mod_eq [of d "0x40"] unfolding a d_def [symmetric] by linarith
    ultimately have "utf8_3 (0xE0 + ?a) (0x80 + ?b) (0x80 + c mod 0x40)" "\<not> utf8_2 (0xE0 + ?a) (0x80 + ?b)"
      by (auto simp: utf8_3_def utf8_2_def is_cont_def)
    then show ?thesis using 3 by (simp add: encode_utf8_def)
  next
    case 4
    let ?a = "c div 0x40000" and ?b = "c div 0x1000 mod 0x40"
    define d where "d = c div 0x1000"
    have a: "?a = d div 0x40" by (simp add: d_def flip: div_mult2_eq)
    have d: "0x10 \<le> d" "d < 0x110" using 4 unfolding d_def by linarith+
    have "?a \<le> 4" unfolding a using d by linarith
    moreover have "0x10 \<le> ?b" if "?a = 0"
      using that d div_mult_mod_eq [of d "0x40"] unfolding a d_def [symmetric] by linarith
    moreover have "?b \<le> 0xF" if "?a = 4"
      using that d div_mult_mod_eq [of d "0x40"] unfolding a d_def [symmetric] by linarith
    ultimately have "utf8_4 (0xF0 + ?a) (0x80 + ?b) (0x80 + c div 0x40 mod 0x40) (0x80 + c mod 0x40)"
      "\<not> utf8_2 (0xF0 + ?a) (0x80 + ?b)" "\<not> utf8_3 (0xF0 + ?a) (0x80 + ?b) (0x80 + c div 0x40 mod 0x40)"
      by (auto simp: utf8_4_def utf8_3_def utf8_2_def is_cont_def)
    then show ?thesis using 4 by (simp add: encode_utf8_def)
  qed (simp add: encode_utf8_def)
qed

lemma utf8_ok_concat: "\<forall>c \<in> set cs. is_scalar c \<Longrightarrow> utf8_ok_nat (concat (map encode_utf8 cs))"
  by (induction cs) (simp_all add: utf8_ok_encode_utf8)

lemma is_str_str_of:
  assumes "\<forall>c \<in> set cs. is_scalar c"
  shows "is_str (str_of cs)"
proof -
  have "map (\<lambda>b. unat (of_nat (b mod 256) :: u8)) (concat (map encode_utf8 cs)) = concat (map encode_utf8 cs)"
    using assms encode_utf8_less_256 by (intro map_idI) (auto simp: unat_of_nat_u8)
  then show ?thesis
    using utf8_ok_concat [OF assms] by (simp add: is_str_def utf8_ok_def as_bytes_def str_of_def comp_def)
qed

text \<open>Six bits at a time.\<close>

lemma split_64:
  fixes z :: nat
  assumes "z < 64"
  shows "(k * 64 + z) div 64 = k" "(k * 64 + z) mod 64 = z"
  using assms by simp_all

lemma div_64_64: "(n :: nat) div 4096 = n div 64 div 64" "n div 262144 = n div 64 div 64 div 64"
  by (simp_all add: div_mult2_eq [symmetric])

lemma encode_2:
  assumes "utf8_2 a b"
  shows "encode_utf8 ((a - 0xC0) * 0x40 + (b - 0x80)) = [a, b]"
proof -
  define x y where "x = a - 0xC0" and "y = b - 0x80"
  have v: "a = 0xC0 + x" "b = 0x80 + y" "2 \<le> x" "x < 0x20" "y < 0x40"
    using assms by (auto simp: utf8_2_def is_cont_def x_def y_def)
  have "0x80 \<le> x * 64 + y" "x * 64 + y < 0x800" using v by linarith+
  then show ?thesis unfolding x_def [symmetric] y_def [symmetric]
    using v split_64 [OF v(5), of x] by (simp add: encode_utf8_def)
qed

lemma encode_3:
  assumes "utf8_3 a b c"
  shows "encode_utf8 ((a - 0xE0) * 0x1000 + (b - 0x80) * 0x40 + (c - 0x80)) = [a, b, c]"
proof -
  define x y z where "x = a - 0xE0" and "y = b - 0x80" and "z = c - 0x80"
  have v: "a = 0xE0 + x" "b = 0x80 + y" "c = 0x80 + z" "x < 0x10" "y < 0x40" "z < 0x40" "x = 0 \<longrightarrow> 0x20 \<le> y"
    using assms by (auto simp: utf8_3_def is_cont_def x_def y_def z_def)
  define n where "n = (x * 64 + y) * 64 + z"
  have n: "x * 0x1000 + y * 0x40 + z = n" by (simp add: n_def)
  have b: "0x800 \<le> n" "n < 0x10000" using v by (cases "x = 0"; simp add: n_def)+
  have d: "n div 64 = x * 64 + y" "n mod 64 = z" "n div 4096 = x" "n div 64 mod 64 = y"
    using split_64 [OF v(6), of "x * 64 + y"] split_64 [OF v(5), of x] by (simp_all add: n_def div_64_64)
  show ?thesis unfolding x_def [symmetric] y_def [symmetric] z_def [symmetric] n
    using b d v by (simp add: encode_utf8_def)
qed

lemma encode_4:
  assumes "utf8_4 a b c e"
  shows "encode_utf8 ((a - 0xF0) * 0x40000 + (b - 0x80) * 0x1000 + (c - 0x80) * 0x40 + (e - 0x80)) = [a, b, c, e]"
proof -
  define x y z w where "x = a - 0xF0" and "y = b - 0x80" and "z = c - 0x80" and "w = e - 0x80"
  have v: "a = 0xF0 + x" "b = 0x80 + y" "c = 0x80 + z" "e = 0x80 + w" "x < 5" "y < 0x40" "z < 0x40" "w < 0x40"
      "x = 0 \<longrightarrow> 0x10 \<le> y"
    using assms by (auto simp: utf8_4_def is_cont_def x_def y_def z_def w_def)
  define n where "n = ((x * 64 + y) * 64 + z) * 64 + w"
  have n: "x * 0x40000 + y * 0x1000 + z * 0x40 + w = n" by (simp add: n_def)
  have b: "0x10000 \<le> n" using v by (cases "x = 0"; simp add: n_def)
  have d: "n div 64 = (x * 64 + y) * 64 + z" "n mod 64 = w" "n div 4096 = x * 64 + y" "n div 64 mod 64 = z"
      "n div 262144 = x" "n div 4096 mod 64 = y"
    using split_64 [OF v(8), of "(x * 64 + y) * 64 + z"] split_64 [OF v(7), of "x * 64 + y"] split_64 [OF v(6), of x]
    by (simp_all add: n_def div_64_64)
  show ?thesis unfolding x_def [symmetric] y_def [symmetric] z_def [symmetric] w_def [symmetric] n
    using b d v by (simp add: encode_utf8_def)
qed

lemma encode_chars_nat: "utf8_ok_nat bs \<Longrightarrow> concat (map encode_utf8 (chars_nat bs)) = bs"
proof (induction "length bs" arbitrary: bs rule: less_induct)
  case less
  have IH: "concat (map encode_utf8 (chars_nat r)) = r" if "length r < length bs" "utf8_ok_nat r" for r
    using less.hyps that by blast
  show ?case
  proof (cases bs)
    case (Cons a r)
    show ?thesis
    proof (cases "a < 0x80")
      case True
      then show ?thesis using Cons less.prems IH [of r] by (simp add: encode_utf8_def)
    next
      case a: False
      then obtain b r1 where r: "r = b # r1" using Cons less.prems by (cases r) auto
      show ?thesis
      proof (cases "utf8_2 a b")
        case True
        then show ?thesis using Cons r a less.prems IH [of r1] encode_2 [OF True] by simp
      next
        case ab: False
        then obtain c r2 where r1: "r1 = c # r2" using Cons r a less.prems by (cases r1) auto
        show ?thesis
        proof (cases "utf8_3 a b c")
          case True
          then show ?thesis using Cons r r1 a ab less.prems IH [of r2] encode_3 [OF True] by simp
        next
          case abc: False
          then obtain d r3 where r2: "r2 = d # r3" using Cons r r1 a ab less.prems by (cases r2) auto
          then have "utf8_4 a b c d" "utf8_ok_nat r3"
            using Cons r r1 a ab abc less.prems by (auto split: if_splits)
          then show ?thesis using Cons r r1 r2 a ab abc IH [of r3] encode_4 [of a b c d] by simp
        qed
      qed
    qed
  qed simp
qed

lemma str_of_chars_of [simp]:
  assumes "is_str s"
  shows "str_of (chars_of s) = s"
proof -
  have "map unat (as_bytes s) = map of_char s"
    by (simp add: as_bytes_def unat_of_nat_u8)
  then have "utf8_ok_nat (map of_char s)" using assms by (simp add: is_str_def utf8_ok_def)
  from encode_chars_nat [OF this] show ?thesis by (simp add: str_of_def chars_of_def map_idI)
qed

end
