(* ===== verification/Postings.thy ===== *)
theory Postings
  imports Varint Utf8
begin

text \<open>
  The row formats of crates/graph-store/src/codec.rs beside the stream: block-encoded postings
  (\<open>encode_posting\<close>, \<open>posting_count\<close>, \<open>posting_ordinals\<close>), packed dictionary blocks
  (\<open>encode_dict_block\<close> and its readers) and file keys (\<open>encode_file_key\<close>, \<open>decode_file_key\<close>).
\<close>

subsection \<open>Postings\<close>

definition POSTING_BLOCK :: nat where
  "POSTING_BLOCK = 128"

text \<open>\<open>slice::chunks\<close>, for a positive chunk size.\<close>

fun chunks :: "nat \<Rightarrow> 'a list \<Rightarrow> 'a list list" where
  "chunks n [] = []"
| "chunks n (x # xs) = (x # take (n - 1) xs) # chunks n (drop (n - 1) xs)"

text \<open>The gaps of a block; \<open>(o - prev) as u64\<close> on a 64-bit target.\<close>

fun put_gaps :: "nat \<Rightarrow> nat list \<Rightarrow> u8 list" where
  "put_gaps prev [] = []"
| "put_gaps prev (k # ks) = put_varint (of_nat k - of_nat prev) @ put_gaps k ks"

definition put_block :: "nat list \<Rightarrow> u8 list" where
  "put_block chunk =
     (let body = put_gaps 0 chunk
      in put_varint (of_nat (length chunk)) @ put_varint (of_nat (length body)) @ body)"

definition encode_posting :: "nat list \<Rightarrow> u8 list" where
  "encode_posting ords =
     put_varint (of_nat (length ords)) @ concat (map put_block (chunks POSTING_BLOCK ords))"

definition posting_count :: "u8 list \<Rightarrow> nat result" where
  "posting_count b = bindE (rd_varint \<lparr>rb = b, at = 0\<rparr>) (\<lambda>(n, r). Inr (unat n))"

fun rd_gaps :: "nat \<Rightarrow> nat \<Rightarrow> reader \<Rightarrow> (nat list \<times> reader) result" where
  "rd_gaps 0 prev r = Inr ([], r)"
| "rd_gaps (Suc k) prev r =
     bindE (rd_varint r) (\<lambda>(gap, r).
     bindE (ok_or (bad ''posting ordinal overflow'') (checked_add_usize prev (unat gap))) (\<lambda>p.
     bindE (rd_gaps k p r) (\<lambda>(ks, r).
     Inr (p # ks, r))))"

function posting_blocks :: "nat \<Rightarrow> reader \<Rightarrow> nat list \<Rightarrow> (nat list \<times> reader) result" where
  "posting_blocks remaining r out =
     (if remaining = 0 then Inr (out, r)
      else
      bindE (rd_varint r) (\<lambda>(block_len, r).
      if block_len = 0 \<or> unat block_len > remaining then Inl (bad ''posting block length invalid'')
      else
      bindE (rd_varint r) (\<lambda>(block_bytes, r).
      bindE (ok_or (bad ''posting block overflow'') (checked_add_usize (at r) (unat block_bytes))) (\<lambda>block_end.
      if block_end > length (rb r) then Inl (bad ''posting block exceeds input'')
      else
      bindE (rd_gaps (unat block_len) 0 r) (\<lambda>(ks, r).
      if at r \<noteq> block_end then Inl (bad ''trailing bytes in posting block'')
      else posting_blocks (remaining - unat block_len) r (out @ ks))))))"
  by pat_completeness auto
termination
  by (relation "measure (\<lambda>(remaining, r, out). remaining)") (auto simp: unat_gt_0)

declare posting_blocks.simps [simp del]

fun ascending :: "nat list \<Rightarrow> bool" where
  "ascending (a # b # ks) \<longleftrightarrow> a < b \<and> ascending (b # ks)"
| "ascending _ \<longleftrightarrow> True"

definition posting_ordinals :: "u8 list \<Rightarrow> nat list result" where
  "posting_ordinals b =
     bindE (rd_varint \<lparr>rb = b, at = 0\<rparr>) (\<lambda>(n, r).
     if unat n > length b then Inl (bad ''posting count exceeds input'')
     else
     bindE (posting_blocks (unat n) r []) (\<lambda>(out, r).
     if at r \<noteq> length b then Inl (bad ''trailing bytes in posting'')
     else if \<not> ascending out then Inl (bad ''posting ordinals not ascending'')
     else Inr out))"

subsection \<open>Dictionary blocks\<close>

definition DICT_BLOCK :: nat where
  "DICT_BLOCK = POSTING_BLOCK"

definition put_dict_entry :: "u64 \<times> string \<Rightarrow> u8 list" where
  "put_dict_entry e =
     put_varint (fst e) @ put_varint (of_nat (length (snd e))) @ as_bytes (snd e)"

definition encode_dict_block :: "(u64 \<times> string) list \<Rightarrow> u8 list" where
  "encode_dict_block entries =
     put_varint (of_nat (length entries)) @ concat (map put_dict_entry entries)"

definition dict_entry_encoded_len :: "u64 \<Rightarrow> string \<Rightarrow> nat" where
  "dict_entry_encoded_len i text = varint_len i + varint_len (of_nat (length text)) + length text"

definition dict_block_count_len :: "nat \<Rightarrow> nat" where
  "dict_block_count_len n = varint_len (of_nat n)"

definition dict_block_encoded_len :: "(u64 \<times> string) list \<Rightarrow> nat" where
  "dict_block_encoded_len entries =
     dict_block_count_len (length entries) +
     sum_list (map (\<lambda>(i, text). dict_entry_encoded_len i text) entries)"

definition dict_block_entry_count :: "u8 list \<Rightarrow> nat result" where
  "dict_block_entry_count b = bindE (rd_varint \<lparr>rb = b, at = 0\<rparr>) (\<lambda>(n, r). Inr (unat n))"

text \<open>One entry: the id, the length, and the text in place.\<close>

definition rd_dict_entry :: "reader \<Rightarrow> ((u64 \<times> string) \<times> reader) result" where
  "rd_dict_entry r =
     bindE (rd_varint r) (\<lambda>(i, r).
     bindE (rd_varint r) (\<lambda>(len, r).
     bindE (ok_or (bad ''dict entry exceeds input'')
       (opt_filter (\<lambda>e. e \<le> length (rb r)) (checked_add_usize (at r) (unat len)))) (\<lambda>end.
     bindE (ok_or (bad ''dict entry is not valid UTF-8'')
       (from_utf8 (take (end - at r) (drop (at r) (rb r))))) (\<lambda>text.
     Inr ((i, text), r\<lparr>at := end\<rparr>)))))"

fun decode_dict_loop :: "nat \<Rightarrow> reader \<Rightarrow> (u64 \<times> string) list \<Rightarrow> ((u64 \<times> string) list \<times> reader) result" where
  "decode_dict_loop 0 r out = Inr (out, r)"
| "decode_dict_loop (Suc k) r out =
     bindE (rd_dict_entry r) (\<lambda>(e, r). decode_dict_loop k r (out @ [e]))"

definition decode_dict_block :: "u8 list \<Rightarrow> (u64 \<times> string) list result" where
  "decode_dict_block b =
     bindE (rd_varint \<lparr>rb = b, at = 0\<rparr>) (\<lambda>(n, r).
     if unat n > length b then Inl (bad ''dict block count exceeds input'')
     else
     bindE (decode_dict_loop (unat n) r []) (\<lambda>(out, r).
     if at r \<noteq> length b then Inl (bad ''trailing bytes in dict block'') else Inr out))"

fun dict_find_loop :: "u64 \<Rightarrow> nat \<Rightarrow> reader \<Rightarrow> string option \<Rightarrow> (string option \<times> reader) result" where
  "dict_find_loop i 0 r found = Inr (found, r)"
| "dict_find_loop i (Suc k) r found =
     bindE (rd_dict_entry r) (\<lambda>((entry_id, text), r).
     dict_find_loop i k r (if found = None \<and> entry_id = i then Some text else found))"

definition dict_block_find :: "u8 list \<Rightarrow> u64 \<Rightarrow> string option result" where
  "dict_block_find b i =
     bindE (rd_varint \<lparr>rb = b, at = 0\<rparr>) (\<lambda>(n, r).
     if unat n > length b then Inl (bad ''dict block count exceeds input'')
     else
     bindE (dict_find_loop i (unat n) r None) (\<lambda>(found, r).
     if at r \<noteq> length b then Inl (bad ''trailing bytes in dict block'') else Inr found))"

definition dict_block_first_id :: "u8 list \<Rightarrow> u64 option result" where
  "dict_block_first_id b =
     bindE (rd_varint \<lparr>rb = b, at = 0\<rparr>) (\<lambda>(n, r).
     if n = 0 then Inr None
     else bindE (rd_varint r) (\<lambda>(i, r). Inr (Some i)))"

subsection \<open>File keys\<close>

record file_key =
  fk_parent :: u64
  fk_language :: "string option"
  fk_name :: string

definition encode_file_key :: "file_key \<Rightarrow> u8 list" where
  "encode_file_key k =
     put_varint (fk_parent k) @
     (case fk_language k of
        None \<Rightarrow> [0]
      | Some l \<Rightarrow> put_varint (of_nat (length l) + 1) @ as_bytes l) @
     as_bytes (fk_name k)"

definition bad_key :: "string \<Rightarrow> store_error" where
  "bad_key what = Corrupt (''file key: '' @ what)"

definition rd_language :: "reader \<Rightarrow> (string option \<times> reader) result" where
  "rd_language r =
     bindE (rd_varint r) (\<lambda>(n, r).
     if n = 0 then Inr (None, r)
     else
     bindE (ok_or (bad_key ''truncated language'')
       (opt_filter (\<lambda>e. e \<le> length (rb r)) (checked_add_usize (at r) (unat (n - 1))))) (\<lambda>end.
     bindE (ok_or (bad_key ''language not UTF-8'')
       (from_utf8 (take (end - at r) (drop (at r) (rb r))))) (\<lambda>l.
     Inr (Some l, r\<lparr>at := end\<rparr>))))"

definition decode_file_key :: "u8 list \<Rightarrow> file_key result" where
  "decode_file_key b =
     bindE (rd_varint \<lparr>rb = b, at = 0\<rparr>) (\<lambda>(parent, r).
     bindE (rd_language r) (\<lambda>(language, r).
     bindE (ok_or (bad_key ''path not UTF-8'') (from_utf8 (drop (at r) (rb r)))) (\<lambda>name.
     Inr \<lparr>fk_parent = parent, fk_language = language, fk_name = name\<rparr>)))"

subsection \<open>Rows: what every encoder promises\<close>

locale row_codec =
  fixes enc :: "'a \<Rightarrow> u8 list" and dec :: "u8 list \<Rightarrow> 'a result" and valid :: "'a \<Rightarrow> bool"
  assumes dec_enc: "valid v \<Longrightarrow> length (enc v) < 2 ^ 64 \<Longrightarrow> dec (enc v) = Inr v"
begin

lemma enc_inject: "valid v \<Longrightarrow> valid w \<Longrightarrow> length (enc v) < 2 ^ 64 \<Longrightarrow> enc v = enc w \<Longrightarrow> v = w"
  by (metis dec_enc sum.inject(2))

lemma dec_total: "valid v \<Longrightarrow> length (enc v) < 2 ^ 64 \<Longrightarrow> is_ok (dec (enc v))"
  by (simp add: dec_enc)

end

subsection \<open>Postings read back\<close>

lemma concat_chunks [simp]: "concat (chunks n xs) = xs"
  by (induction n xs rule: chunks.induct) simp_all

lemma chunks_nonempty: "c \<in> set (chunks n xs) \<Longrightarrow> c \<noteq> []"
  by (induction n xs rule: chunks.induct) auto

lemma chunks_length: "c \<in> set (chunks n xs) \<Longrightarrow> length c \<le> max 1 n"
  by (induction n xs rule: chunks.induct) auto

lemma sorted_wrt_concatD: "sorted_wrt P (concat xss) \<Longrightarrow> xs \<in> set xss \<Longrightarrow> sorted_wrt P xs"
  by (induction xss) (auto simp: sorted_wrt_append)

lemma ascending_iff: "ascending ks \<longleftrightarrow> sorted_wrt (<) ks"
proof (induction ks rule: ascending.induct)
  case (1 a b ks)
  then show ?case by (simp only: ascending.simps sorted_wrt2 [OF transp_on_less])
qed simp_all

lemma reads_gaps:
  assumes "sorted (prev # ks)" and "\<forall>k \<in> set ks. k < 2 ^ 64"
  shows "reads (rd_gaps (length ks) prev) (put_gaps prev ks) ks"
  using assms
proof (induction ks arbitrary: prev)
  case Nil
  then show ?case by (simp add: reads_pure)
next
  case (Cons k ks)
  have le: "prev \<le> k" "k < 2 ^ 64" using Cons.prems by simp_all
  have "(of_nat k - of_nat prev :: u64) = of_nat (k - prev)" using le by simp
  then have "unat (of_nat k - of_nat prev :: u64) = k - prev"
    using le by (simp only: unat_of_nat_u64)
  then have gap: "checked_add_usize prev (unat (of_nat k - of_nat prev :: u64)) = Some k"
    using le by (simp add: checked_add_usize_def)
  have IH: "reads (rd_gaps (length ks) k) (put_gaps k ks) ks"
    using Cons.prems by (intro Cons.IH) auto
  show ?case
    unfolding length_Cons rd_gaps.simps put_gaps.simps
    by (rule reads_bind [OF reads_varint]) (simp only: gap ok_or_simps bindE_simps reads_bind_last [OF IH] reads_pure prod.case)
qed

lemma length_put_gaps_ge: "length ks \<le> length (put_gaps prev ks)"
proof (induction ks arbitrary: prev)
  case (Cons k ks)
  have "1 \<le> length (put_varint (of_nat k - of_nat prev))" using length_put_varint_pos by (simp add: Suc_le_eq)
  then show ?case using Cons [of k] unfolding put_gaps.simps length_append length_Cons by linarith
qed simp

lemma posting_blocks_put:
  assumes "\<forall>c \<in> set css. c \<noteq> [] \<and> sorted c \<and> (\<forall>k \<in> set c. k < 2 ^ 64)"
    and "drop (at r) (rb r) = concat (map put_block css) @ rest" and "length (rb r) < 2 ^ 64"
  shows "posting_blocks (length (concat css)) r out =
    Inr (out @ concat css, r\<lparr>at := at r + length (concat (map put_block css))\<rparr>)"
  using assms
proof (induction css arbitrary: r out)
  case Nil
  then show ?case by (simp add: posting_blocks.simps [of 0])
next
  case (Cons c css)
  let ?body = "put_gaps 0 c" and ?l = "of_nat (length c) :: u64" and ?n = "of_nat (length (put_gaps 0 c)) :: u64"
  let ?rest = "concat (map put_block css) @ rest"
  define r1 where "r1 = r\<lparr>at := at r + length (put_varint ?l)\<rparr>"
  define r2 where "r2 = r1\<lparr>at := at r1 + length (put_varint ?n)\<rparr>"
  define r3 where "r3 = r2\<lparr>at := at r2 + length ?body\<rparr>"
  have "drop (at r) (rb r) = put_varint ?l @ put_varint ?n @ ?body @ ?rest"
    using Cons.prems(2) by (simp add: put_block_def [of c] Let_def)
  then have d1: "rd_varint r = Inr (?l, r1)" "drop (at r1) (rb r1) = put_varint ?n @ ?body @ ?rest"
    using readsD [OF reads_varint, of r] drop_eq_append_length [of "at r"] by (auto simp: r1_def)
  then have d2: "rd_varint r1 = Inr (?n, r2)" "drop (at r2) (rb r2) = ?body @ ?rest"
    using readsD [OF reads_varint, of r1] drop_eq_append_length [of "at r1"] by (auto simp: r2_def)
  have c: "c \<noteq> []" "sorted (0 # c)" "\<forall>k \<in> set c. k < 2 ^ 64" using Cons.prems(1) by simp_all
  have d3: "rd_gaps (length c) 0 r2 = Inr (c, r3)" "drop (at r3) (rb r3) = ?rest"
    using readsD [OF reads_gaps [OF c(2,3)] d2(2)] drop_eq_append_length [OF d2(2)] by (simp_all add: r3_def)
  have rb: "rb r1 = rb r" "rb r2 = rb r" "rb r3 = rb r" by (simp_all add: r1_def r2_def r3_def)
  have "length ?body \<le> length (rb r) - at r2"
    using arg_cong [OF d2(2), of length] by (simp add: rb)
  moreover have "?body \<noteq> []" using c(1) length_put_gaps_ge [of c 0] by auto
  ultimately have bnd: "at r2 + length ?body \<le> length (rb r)" by (cases "at r2 \<le> length (rb r)") auto
  then have n: "unat ?n = length ?body" "unat ?l = length c" "?l \<noteq> 0"
    using Cons.prems(3) length_put_gaps_ge [of c 0] c(1) unat_of_nat_u64 [of "length c"]
    by (auto simp: unat_of_nat_u64 unat_eq_0 [symmetric])
  have IH: "posting_blocks (length (concat css)) r3 (out @ c) =
      Inr ((out @ c) @ concat css, r3\<lparr>at := at r3 + length (concat (map put_block css))\<rparr>)"
    using Cons.prems d3(2) by (intro Cons.IH) (auto simp: rb)
  have fin: "r3\<lparr>at := at r3 + k\<rparr> = r\<lparr>at := at r + (length (put_block c) + k)\<rparr>" for k
    by (simp add: r1_def r2_def r3_def put_block_def Let_def)
  have ck: "checked_add_usize (at r2) (length ?body) = Some (at r3)"
    using bnd Cons.prems(3) by (simp add: r3_def)
  have at3: "\<not> length (rb r2) < at r3" using bnd by (simp add: rb r3_def)
  show ?case
    unfolding posting_blocks.simps [of "length (concat (c # css))"]
    using c(1) IH by (simp add: d1(1) d2(1) d3(1) n ck at3 fin)
qed

definition valid_posting :: "nat list \<Rightarrow> bool" where
  "valid_posting ords \<longleftrightarrow> sorted_wrt (<) ords \<and> (\<forall>k \<in> set ords. k < 2 ^ 64)"

definition valid_dict :: "(u64 \<times> string) list \<Rightarrow> bool" where
  "valid_dict entries \<longleftrightarrow> (\<forall>e \<in> set entries. is_str (snd e))"

definition valid_key :: "file_key \<Rightarrow> bool" where
  "valid_key k \<longleftrightarrow> is_str (fk_name k) \<and> (case fk_language k of None \<Rightarrow> True | Some l \<Rightarrow> is_str l)"

lemma length_put_block_ge: "length c \<le> length (put_block c)"
  using length_put_gaps_ge [of c 0] by (simp add: put_block_def Let_def)

lemma length_put_blocks_ge: "length (concat css) \<le> length (concat (map put_block css))"
proof (induction css)
  case (Cons c css)
  then show ?case using length_put_block_ge [of c] by simp
qed simp

lemma length_encode_posting_ge: "length ords \<le> length (encode_posting ords)"
  using length_put_blocks_ge [of "chunks POSTING_BLOCK ords"] by (simp add: encode_posting_def)

lemma encode_posting_count:
  assumes "length (encode_posting ords) < 2 ^ 64"
  defines "n \<equiv> of_nat (length ords) :: u64"
  shows "rd_varint \<lparr>rb = encode_posting ords, at = 0\<rparr> =
      Inr (n, \<lparr>rb = encode_posting ords, at = length (put_varint n)\<rparr>)"
    and "unat n = length ords"
  using reads_at(1) [OF reads_varint, of 0 "encode_posting ords"] length_encode_posting_ge [of ords] assms(1)
  by (simp_all add: n_def encode_posting_def unat_of_nat_u64)

lemma posting_ordinals_encode:
  assumes "valid_posting ords" and "length (encode_posting ords) < 2 ^ 64"
  shows "posting_ordinals (encode_posting ords) = Inr ords"
proof -
  let ?n = "of_nat (length ords) :: u64" and ?css = "chunks POSTING_BLOCK ords"
  note cnt = encode_posting_count [OF assms(2)]
  have "sorted_wrt (<) ords" using assms(1) by (simp add: valid_posting_def)
  then have css: "\<forall>c \<in> set ?css. c \<noteq> [] \<and> sorted c \<and> (\<forall>k \<in> set c. k < 2 ^ 64)"
    using assms(1) concat_chunks [of POSTING_BLOCK ords] sorted_wrt_concatD [of "(<)" ?css]
    by (metis UN_I chunks_nonempty set_concat strict_sorted_imp_sorted valid_posting_def)
  have "posting_blocks (length (concat ?css)) \<lparr>rb = encode_posting ords, at = length (put_varint ?n)\<rparr> [] =
      Inr ([] @ concat ?css, \<lparr>rb = encode_posting ords, at = length (put_varint ?n) + length (concat (map put_block ?css))\<rparr>)"
    using posting_blocks_put [OF css, of "\<lparr>rb = encode_posting ords, at = length (put_varint ?n)\<rparr>" "[]" "[]"] assms(2)
    by (simp add: encode_posting_def)
  then show ?thesis
    using length_encode_posting_ge [of ords] assms(1)
    unfolding posting_ordinals_def cnt(1) bindE_simps prod.case cnt(2)
    by (simp add: ascending_iff valid_posting_def) (simp add: encode_posting_def)
qed

lemma posting_count_encode: "length (encode_posting ords) < 2 ^ 64 \<Longrightarrow> posting_count (encode_posting ords) = Inr (length ords)"
  by (simp add: posting_count_def encode_posting_count)

lemma rd_gaps_bounds: "rd_gaps k prev r = Inr (ks, r') \<Longrightarrow> length ks = k \<and> (\<forall>x \<in> set ks. x < 2 ^ 64)"
proof (induction k arbitrary: prev r ks)
  case (Suc k)
  from Suc.prems obtain p r1 ks' where "rd_gaps k p r1 = Inr (ks', r')" "ks = p # ks'" "p < 2 ^ 64"
    by (auto simp: bindE_eq_Inr_iff checked_add_usize_def split: if_splits)
  with Suc.IH show ?case by auto
qed simp

lemma posting_blocks_bounds:
  "posting_blocks n r out = Inr (out', r') \<Longrightarrow> (\<forall>x \<in> set out. x < 2 ^ 64) \<Longrightarrow>
    length out' = length out + n \<and> (\<forall>x \<in> set out'. x < 2 ^ 64)"
proof (induction n r out rule: posting_blocks.induct)
  case (1 n r out)
  show ?case
  proof (cases "n = 0")
    case True
    then show ?thesis using 1(2,3) by (simp add: posting_blocks.simps)
  next
    case False
    then obtain l r1 nb r2 ks r3 where l: "rd_varint r = Inr (l, r1)" "\<not> (l = 0 \<or> n < unat l)" "rd_varint r1 = Inr (nb, r2)"
      and ck: "checked_add_usize (at r2) (unat nb) = Some (at r3)" "\<not> length (rb r2) < at r3"
      and ks: "rd_gaps (unat l) 0 r2 = Inr (ks, r3)"
      and rest: "posting_blocks (n - unat l) r3 (out @ ks) = Inr (out', r')"
      using 1(2) by (subst (asm) posting_blocks.simps) (auto simp: bindE_eq_Inr_iff split: if_splits)
    have "length out' = length (out @ ks) + (n - unat l) \<and> (\<forall>x \<in> set out'. x < 2 ^ 64)"
    proof (rule 1(1) [OF False l(1) refl l(2,3) refl _ ck(2) ks refl _ rest])
      show "ok_or (bad ''posting block overflow'') (checked_add_usize (at r2) (unat nb)) = Inr (at r3)"
        using ck(1) by simp
    qed (use rd_gaps_bounds [OF ks] 1(3) in auto)
    then show ?thesis using rd_gaps_bounds [OF ks] l(2) by auto
  qed
qed

lemma posting_ordinals_valid:
  assumes "posting_ordinals b = Inr ks"
  shows "valid_posting ks \<and> posting_count b = Inr (length ks)"
proof -
  from assms obtain n r r' where n: "rd_varint \<lparr>rb = b, at = 0\<rparr> = Inr (n, r)"
    and blocks: "posting_blocks (unat n) r [] = Inr (ks, r')" and "ascending ks"
    by (auto simp: posting_ordinals_def bindE_eq_Inr_iff split: if_splits)
  with posting_blocks_bounds [OF blocks] show ?thesis
    by (simp add: valid_posting_def posting_count_def ascending_iff)
qed

subsection \<open>Dictionary blocks and file keys read back\<close>

lemma rd_dict_entry_put:
  assumes "drop (at r) (rb r) = put_dict_entry e @ rest" and "is_str (snd e)" and "length (rb r) < 2 ^ 64"
  shows "rd_dict_entry r = Inr (e, r\<lparr>at := at r + length (put_dict_entry e)\<rparr>)"
proof -
  obtain i t where e: "e = (i, t)" by fastforce
  let ?n = "of_nat (length t) :: u64"
  define r1 where "r1 = r\<lparr>at := at r + length (put_varint i)\<rparr>"
  define r2 where "r2 = r1\<lparr>at := at r1 + length (put_varint ?n)\<rparr>"
  have "drop (at r) (rb r) = put_varint i @ put_varint ?n @ as_bytes t @ rest"
    using assms(1) by (simp add: e put_dict_entry_def)
  then have d1: "rd_varint r = Inr (i, r1)" "drop (at r1) (rb r1) = put_varint ?n @ as_bytes t @ rest"
    using readsD [OF reads_varint, of r] drop_eq_append_length [of "at r"] by (auto simp: r1_def)
  then have d2: "rd_varint r1 = Inr (?n, r2)" "drop (at r2) (rb r2) = as_bytes t @ rest"
    using readsD [OF reads_varint, of r1] drop_eq_append_length [of "at r1"] by (auto simp: r2_def)
  have rb: "rb r2 = rb r" by (simp add: r1_def r2_def)
  have "at r2 + length t \<le> length (rb r)"
    using arg_cong [OF assms(1), of length] length_put_varint_pos [of i]
    by (cases "at r \<le> length (rb r)") (auto simp: r1_def r2_def e put_dict_entry_def)
  moreover from this have "unat ?n = length t" using assms(3) by (simp add: unat_of_nat_u64)
  ultimately show ?thesis
    using assms(2,3) d2(2)
    by (simp add: rd_dict_entry_def d1(1) d2(1) rb e) (simp add: r1_def r2_def put_dict_entry_def e)
qed

lemma decode_dict_loop_put:
  "drop (at r) (rb r) = concat (map put_dict_entry es) @ rest \<Longrightarrow> \<forall>e \<in> set es. is_str (snd e) \<Longrightarrow>
    length (rb r) < 2 ^ 64 \<Longrightarrow>
    decode_dict_loop (length es) r out = Inr (out @ es, r\<lparr>at := at r + length (concat (map put_dict_entry es))\<rparr>)"
proof (induction es arbitrary: r out)
  case (Cons e es)
  let ?r = "r\<lparr>at := at r + length (put_dict_entry e)\<rparr>"
  have "rd_dict_entry r = Inr (e, ?r)"
    using Cons.prems by (intro rd_dict_entry_put) auto
  moreover have "drop (at ?r) (rb ?r) = concat (map put_dict_entry es) @ rest"
    using Cons.prems(1) drop_eq_append_length [of "at r" "rb r" "put_dict_entry e"] by simp
  ultimately show ?case
    using Cons.prems Cons.IH [of ?r "out @ [e]"] by (simp add: add.assoc)
qed simp

lemma length_put_dict_entry: "length (put_dict_entry e) = dict_entry_encoded_len (fst e) (snd e)"
  by (simp add: put_dict_entry_def dict_entry_encoded_len_def length_put_varint)

lemma length_encode_dict_block: "length (encode_dict_block es) = dict_block_encoded_len es"
  by (simp add: encode_dict_block_def dict_block_encoded_len_def dict_block_count_len_def length_put_varint
      length_concat comp_def length_put_dict_entry case_prod_unfold)

lemma length_encode_dict_ge: "length es \<le> length (encode_dict_block es)"
proof -
  have "length es \<le> length (concat (map put_dict_entry es))"
  proof (induction es)
    case (Cons e es)
    have "1 \<le> length (put_dict_entry e)" using length_put_varint_pos [of "fst e"] by (simp add: put_dict_entry_def Suc_le_eq)
    with Cons show ?case by simp
  qed simp
  then show ?thesis by (simp add: encode_dict_block_def)
qed

lemma decode_dict_encode:
  assumes "valid_dict es" and "length (encode_dict_block es) < 2 ^ 64"
  shows "decode_dict_block (encode_dict_block es) = Inr es"
proof -
  let ?b = "encode_dict_block es" and ?n = "of_nat (length es) :: u64"
  have "drop 0 ?b = put_varint ?n @ concat (map put_dict_entry es) @ []" by (simp add: encode_dict_block_def)
  note 1 = reads_at [OF reads_varint this]
  have n: "unat ?n = length es" using length_encode_dict_ge [of es] assms(2) by (simp add: unat_of_nat_u64)
  have "decode_dict_loop (length es) \<lparr>rb = ?b, at = length (put_varint ?n)\<rparr> [] =
      Inr ([] @ es, \<lparr>rb = ?b, at = length (put_varint ?n) + length (concat (map put_dict_entry es))\<rparr>)"
    using decode_dict_loop_put [of "\<lparr>rb = ?b, at = length (put_varint ?n)\<rparr>" es "[]" "[]"] assms 1(2)
    by (simp add: valid_dict_def)
  then show ?thesis
    using length_encode_dict_ge [of es]
    by (simp add: decode_dict_block_def 1(1) [simplified] n) (simp add: encode_dict_block_def)
qed

lemma dict_find_loop_eq:
  "dict_find_loop i k r (map_of out i) =
     bindE (decode_dict_loop k r out) (\<lambda>(out, r). Inr (map_of out i, r))"
proof (induction k arbitrary: r out)
  case (Suc k)
  show ?case
  proof (cases "rd_dict_entry r")
    case (Inr er)
    obtain e t r1 where "er = ((e, t), r1)" by (metis surj_pair)
    moreover have "(if map_of out i = None \<and> e = i then Some t else map_of out i) = map_of (out @ [(e, t)]) i"
      by (auto simp: map_add_def split: option.splits)
    ultimately show ?thesis using Inr Suc [of r1 "out @ [(e, t)]"] by simp
  qed simp
qed simp

lemma decode_dict_loop_ids:
  "decode_dict_loop k r out = Inr (out', r') \<Longrightarrow> \<exists>es. out' = out @ es \<and> length es = k \<and>
     (0 < k \<longrightarrow> (\<exists>r1. rd_varint r = Inr (fst (hd es), r1)))"
proof (induction k arbitrary: r out)
  case (Suc k)
  then obtain e r1 where e: "rd_dict_entry r = Inr (e, r1)" and "decode_dict_loop k r1 (out @ [e]) = Inr (out', r')"
    by (auto simp: bindE_eq_Inr_iff)
  from Suc.IH [OF this(2)] obtain es where "out' = (out @ [e]) @ es" "length es = k" by auto
  moreover from e obtain r2 where "rd_varint r = Inr (fst e, r2)"
    by (auto simp: rd_dict_entry_def bindE_eq_Inr_iff)
  ultimately show ?case by (intro exI [of _ "e # es"]) auto
qed simp

lemma decode_file_key_encode:
  assumes "valid_key k" and "length (encode_file_key k) < 2 ^ 64"
  shows "decode_file_key (encode_file_key k) = Inr k"
proof -
  let ?b = "encode_file_key k" and ?p = "put_varint (fk_parent k)"
  define lang where "lang = (case fk_language k of None \<Rightarrow> [0] | Some l \<Rightarrow> put_varint (of_nat (length l) + 1) @ as_bytes l)"
  have "drop 0 ?b = ?p @ lang @ as_bytes (fk_name k)" by (simp add: encode_file_key_def lang_def)
  note 1 = reads_at [OF reads_varint this]
  have "rd_language \<lparr>rb = ?b, at = 0 + length ?p\<rparr> = Inr (fk_language k, \<lparr>rb = ?b, at = length ?p + length lang\<rparr>)"
  proof (cases "fk_language k")
    case None
    then have "drop (0 + length ?p) ?b = put_varint 0 @ as_bytes (fk_name k)"
      using 1(2) by (simp add: lang_def put_varint_small)
    from reads_at(1) [OF reads_varint this] show ?thesis
      by (simp add: rd_language_def None lang_def put_varint_small)
  next
    case (Some l)
    let ?n = "of_nat (length l) + 1 :: u64"
    have "length l < 2 ^ 64 - 1"
      using assms(2) Some length_put_varint_pos [of "fk_parent k"]
      by (simp add: encode_file_key_def del: length_greater_0_conv)
    then have n: "?n \<noteq> 0" "unat (?n - 1) = length l"
      using unat_of_nat_u64 [of "Suc (length l)"] by (auto simp: unat_of_nat_u64 unat_eq_0 [symmetric] add.commute)
    have d: "drop (0 + length ?p) ?b = put_varint ?n @ as_bytes l @ as_bytes (fk_name k)"
      using 1(2) Some by (simp add: lang_def)
    have "length ?p + length (put_varint ?n) + length l \<le> length ?b"
      using Some by (simp add: encode_file_key_def)
    then show ?thesis
      using n assms Some reads_at [OF reads_varint d]
      by (simp add: rd_language_def lang_def valid_key_def add.assoc)
  qed
  moreover have "drop (length ?p + length lang) ?b = as_bytes (fk_name k)"
    by (simp add: encode_file_key_def lang_def)
  ultimately show ?thesis
    using 1(1) assms(1) by (simp add: decode_file_key_def valid_key_def)
qed

interpretation posting_rows: row_codec encode_posting posting_ordinals valid_posting
  by unfold_locales (rule posting_ordinals_encode)

interpretation dict_rows: row_codec encode_dict_block decode_dict_block valid_dict
  by unfold_locales (rule decode_dict_encode)

interpretation key_rows: row_codec encode_file_key decode_file_key valid_key
  by unfold_locales (rule decode_file_key_encode)

subsection \<open>Properties\<close>

text \<open>
  C13: a posting read back is the list of ordinals that was written, for every strictly ascending list
  of 64-bit ordinals, and its count is the length of that list.
\<close>

theorem posting_roundtrip:
  assumes "valid_posting ords" and "length (encode_posting ords) < 2 ^ 64"
  shows "posting_ordinals (encode_posting ords) = Inr ords \<and> posting_count (encode_posting ords) = Inr (length ords)"
  using posting_rows.dec_enc [OF assms] posting_count_encode [OF assms(2)] by simp

theorem posting_roundtrip_witness:
  "posting_ordinals (encode_posting [3, 4, 300]) = Inr [3, 4, 300]"
proof -
  have "valid_posting [3, 4, 300]" by (simp add: valid_posting_def)
  moreover have "length (encode_posting [3, 4, 300]) < 2 ^ 64"
    by (simp add: encode_posting_def POSTING_BLOCK_def put_block_def put_varint.simps)
  ultimately show ?thesis using posting_roundtrip by blast
qed

text \<open>
  Whatever the bytes, ordinals that \<open>posting_ordinals\<close> returns are strictly ascending 64-bit values,
  and there are as many as \<open>posting_count\<close> announces.
\<close>

theorem posting_ordinals_ascending:
  assumes "posting_ordinals b = Inr ks"
  shows "sorted_wrt (<) ks \<and> (\<forall>k \<in> set ks. k < 2 ^ 64) \<and> posting_count b = Inr (length ks)"
  using posting_ordinals_valid [OF assms] by (simp add: valid_posting_def)

theorem posting_ordinals_ascending_witness:
  "posting_count (encode_posting [3]) = Inr 1"
proof -
  have "length (encode_posting [3]) < 2 ^ 64"
    by (simp add: encode_posting_def POSTING_BLOCK_def put_block_def put_varint.simps)
  then have "posting_ordinals (encode_posting [3]) = Inr [3]"
    by (intro posting_ordinals_encode) (simp add: valid_posting_def)
  from posting_ordinals_ascending [OF this] show ?thesis by simp
qed

text \<open>
  A dictionary block read back is the list of entries that was written, and the length computed
  from the entries is the length of the block.
\<close>

theorem dict_block_roundtrip:
  assumes "valid_dict entries" and "dict_block_encoded_len entries < 2 ^ 64"
  shows "decode_dict_block (encode_dict_block entries) = Inr entries \<and>
    length (encode_dict_block entries) = dict_block_encoded_len entries"
  using assms dict_rows.dec_enc [of entries] by (simp add: length_encode_dict_block)

theorem dict_block_roundtrip_witness:
  "decode_dict_block (encode_dict_block [(7, ''fn''), (300, ''x'')]) = Inr [(7, ''fn''), (300, ''x'')]"
proof -
  have "valid_dict [(7, ''fn''), (300, ''x'')]" by (simp add: valid_dict_def is_str_def utf8_ok_def as_bytes_def unat_of_nat_u8)
  moreover have "dict_block_encoded_len [(7, ''fn''), (300, ''x'')] < 2 ^ 64"
    by (simp add: length_encode_dict_block [symmetric] encode_dict_block_def put_dict_entry_def put_varint.simps)
  ultimately show ?thesis using dict_block_roundtrip by blast
qed

text \<open>
  C14: \<open>dict_block_find\<close> walks a block in place and is the lookup in the decoded block: for every input
  and id, the text of the first entry with that id, or the same refusal.
\<close>

theorem dict_block_find_eq_decode:
  "dict_block_find b i = bindE (decode_dict_block b) (\<lambda>entries. Inr (map_of entries i))"
proof (cases "rd_varint \<lparr>rb = b, at = 0\<rparr>")
  case (Inr nr)
  then show ?thesis
    using dict_find_loop_eq [of i "unat (fst nr)" "snd nr" "[]"]
    by (cases nr; cases "decode_dict_loop (unat (fst nr)) (snd nr) []")
       (auto simp: dict_block_find_def decode_dict_block_def)
qed (simp add: dict_block_find_def decode_dict_block_def)

text \<open>
  The two peeks at a block agree with its decoding: the announced number of entries, and the id of
  the first one.
\<close>

theorem dict_block_peeks:
  assumes "decode_dict_block b = Inr entries"
  shows "dict_block_entry_count b = Inr (length entries) \<and>
    dict_block_first_id b = Inr (case entries of [] \<Rightarrow> None | e # _ \<Rightarrow> Some (fst e))"
proof -
  from assms obtain n r r' where n: "rd_varint \<lparr>rb = b, at = 0\<rparr> = Inr (n, r)"
    and loop: "decode_dict_loop (unat n) r [] = Inr (entries, r')"
    by (auto simp: decode_dict_block_def bindE_eq_Inr_iff split: if_splits)
  from decode_dict_loop_ids [OF loop] have len: "length entries = unat n"
    and first: "0 < unat n \<Longrightarrow> \<exists>r1. rd_varint r = Inr (fst (hd entries), r1)" by auto
  show ?thesis
    using n len first
    by (cases entries) (auto simp: dict_block_entry_count_def dict_block_first_id_def unat_eq_0 unat_gt_0)
qed

theorem dict_block_peeks_witness:
  "dict_block_first_id (encode_dict_block [(7, ''fn'')]) = Inr (Some 7)"
proof -
  have "length (encode_dict_block [(7, ''fn'')]) < 2 ^ 64"
    by (simp add: encode_dict_block_def put_dict_entry_def put_varint.simps)
  then have "decode_dict_block (encode_dict_block [(7, ''fn'')]) = Inr [(7, ''fn'')]"
    by (intro decode_dict_encode) (simp_all add: valid_dict_def is_str_def utf8_ok_def as_bytes_def unat_of_nat_u8)
  from dict_block_peeks [OF this] show ?thesis by simp
qed

text \<open>
  A file key read back is the key that was written; so two keys with the same row are equal.
\<close>

theorem file_key_roundtrip:
  assumes "valid_key k" and "length (encode_file_key k) < 2 ^ 64"
  shows "decode_file_key (encode_file_key k) = Inr k \<and>
    (\<forall>k'. valid_key k' \<longrightarrow> encode_file_key k' = encode_file_key k \<longrightarrow> k' = k)"
  using key_rows.dec_enc [OF assms] key_rows.enc_inject [OF assms(1) _ assms(2)] by metis

theorem file_key_roundtrip_witness:
  "decode_file_key (encode_file_key \<lparr>fk_parent = 1, fk_language = Some ''rust'', fk_name = ''a.rs''\<rparr>) =
     Inr \<lparr>fk_parent = 1, fk_language = Some ''rust'', fk_name = ''a.rs''\<rparr>"
  by (rule file_key_roundtrip [THEN conjunct1])
     (simp_all add: valid_key_def is_str_def utf8_ok_def as_bytes_def unat_of_nat_u8 encode_file_key_def put_varint.simps)

end
