(* ===== verification/Scan.thy ===== *)
theory Scan
  imports Schema
begin

text \<open>
  The token-stream helpers of crates/graph-core/src/scan.rs: spans between tokens, bracket and keyword
  block matching with their one-pass tables, keyword marking, indentation blocks, lines and the cursor.
\<close>

subsection \<open>Delimiters\<close>

definition span_between :: "span \<Rightarrow> span \<Rightarrow> span" where
  "span_between first lst =
     \<lparr>sp_start = sp_start first, sp_end = sp_end lst, start_line = start_line first,
      start_col = start_col first, end_line = end_line lst, end_col = end_col lst\<rparr>"

definition closer_for :: "string \<Rightarrow> string option" where
  "closer_for text =
     (if text = ''('' then Some '')''
      else if text = ''['' then Some '']''
      else if text = ''{'' then Some ''}''
      else None)"

definition is_closer :: "string \<Rightarrow> bool" where
  "is_closer text \<longleftrightarrow> text = '')'' \<or> text = '']'' \<or> text = ''}''"

definition is_trivia :: "token_decl \<Rightarrow> bool" where
  "is_trivia t \<longleftrightarrow> td_class t = Comment \<or> td_class t = Literal"

text \<open>The stack of a \<open>Vec\<close> is a list with its top first.\<close>

fun matching_close_loop :: "nat \<Rightarrow> token_decl list \<Rightarrow> string list \<Rightarrow> nat option" where
  "matching_close_loop i [] stack = None"
| "matching_close_loop i (t # ts) stack =
     (if is_trivia t then matching_close_loop (Suc i) ts stack
      else case closer_for (td_text t) of
        Some c \<Rightarrow> matching_close_loop (Suc i) ts (c # stack)
      | None \<Rightarrow>
          if is_closer (td_text t) then
            (case stack of
               [] \<Rightarrow> None
             | c # stack \<Rightarrow>
                 if c \<noteq> td_text t then None
                 else if stack = [] then Some i
                 else matching_close_loop (Suc i) ts stack)
          else matching_close_loop (Suc i) ts stack)"

definition matching_close :: "token_decl list \<Rightarrow> nat \<Rightarrow> nat option" where
  "matching_close tokens open =
     (case nth_opt tokens open of
        None \<Rightarrow> None
      | Some first \<Rightarrow>
          if closer_for (td_text first) = None \<or> is_trivia first then None
          else matching_close_loop open (drop open tokens) [])"

fun close_table_loop ::
  "nat \<Rightarrow> token_decl list \<Rightarrow> (nat \<times> string) list \<Rightarrow> nat option list \<Rightarrow> nat option list" where
  "close_table_loop i [] stack out = out"
| "close_table_loop i (t # ts) stack out =
     (if is_trivia t then close_table_loop (Suc i) ts stack out
      else case closer_for (td_text t) of
        Some c \<Rightarrow> close_table_loop (Suc i) ts ((i, c) # stack) out
      | None \<Rightarrow>
          if is_closer (td_text t) then
            (case stack of
               (open, want) # stack' \<Rightarrow>
                 if want = td_text t then close_table_loop (Suc i) ts stack' (out[open := Some i])
                 else close_table_loop (Suc i) ts [] out
             | [] \<Rightarrow> close_table_loop (Suc i) ts [] out)
          else close_table_loop (Suc i) ts stack out)"

definition close_table :: "token_decl list \<Rightarrow> nat option list" where
  "close_table tokens = close_table_loop 0 tokens [] (replicate (length tokens) None)"

text \<open>The positions of the code tokens: \<open>pos[i] = Some(c)\<close> for the \<open>c\<close>-th element \<open>i\<close> of \<open>code\<close>.\<close>

fun code_pos :: "nat \<Rightarrow> nat list \<Rightarrow> nat option list \<Rightarrow> nat option list" where
  "code_pos c [] pos = pos"
| "code_pos c (i # code) pos = code_pos (Suc c) code (pos[i := Some c])"

definition code_close_table :: "token_decl list \<Rightarrow> nat list \<Rightarrow> nat option list" where
  "code_close_table tokens code =
     (let table = close_table tokens;
          pos = code_pos 0 code (replicate (length tokens) None)
      in map (\<lambda>i. case table ! i of None \<Rightarrow> None | Some close \<Rightarrow> pos ! close) code)"

subsection \<open>Keywords\<close>

fun mark_keywords_loop ::
  "nat \<Rightarrow> nat \<Rightarrow> (string \<Rightarrow> bool) \<Rightarrow> (token_decl list \<Rightarrow> nat \<Rightarrow> bool) \<Rightarrow> token_decl list \<Rightarrow> token_decl list" where
  "mark_keywords_loop 0 i is_kw is_escaped tokens = tokens"
| "mark_keywords_loop (Suc k) i is_kw is_escaped tokens =
     mark_keywords_loop k (Suc i) is_kw is_escaped
       (if td_class (tokens ! i) = Identifier \<and> is_kw (td_text (tokens ! i)) \<and> \<not> is_escaped tokens i
        then tokens[i := (tokens ! i)\<lparr>td_class := Keyword\<rparr>]
        else tokens)"

definition mark_keywords ::
  "token_decl list \<Rightarrow> string list \<Rightarrow> (token_decl list \<Rightarrow> nat \<Rightarrow> bool) \<Rightarrow> token_decl list" where
  "mark_keywords tokens keywords is_escaped =
     mark_keywords_loop (length tokens) 0 (\<lambda>text. text \<in> set keywords) is_escaped tokens"

definition mark_keywords_ignore_case ::
  "token_decl list \<Rightarrow> string list \<Rightarrow> (token_decl list \<Rightarrow> nat \<Rightarrow> bool) \<Rightarrow> token_decl list" where
  "mark_keywords_ignore_case tokens keywords is_escaped =
     mark_keywords_loop (length tokens) 0
       (\<lambda>text. \<exists>k \<in> set keywords. eq_ignore_ascii_case k text) is_escaped tokens"

definition code_index :: "token_decl list \<Rightarrow> token_class list \<Rightarrow> nat list" where
  "code_index tokens skip = map fst (filter (\<lambda>(i, t). td_class t \<notin> set skip) (enumerate 0 tokens))"

subsection \<open>Keyword blocks\<close>

definition kw_eq :: "bool \<Rightarrow> string \<Rightarrow> string \<Rightarrow> bool" where
  "kw_eq ignore_case a b = (if ignore_case then eq_ignore_ascii_case a b else a = b)"

definition closer_of :: "(string \<times> string) list \<Rightarrow> bool \<Rightarrow> token_decl \<Rightarrow> string option" where
  "closer_of pairs ignore_case t =
     map_option snd (find (\<lambda>(a, b). kw_eq ignore_case (td_text t) a) pairs)"

definition is_kw_closer :: "(string \<times> string) list \<Rightarrow> bool \<Rightarrow> token_decl \<Rightarrow> bool" where
  "is_kw_closer pairs ignore_case t \<longleftrightarrow> (\<exists>(a, b) \<in> set pairs. kw_eq ignore_case (td_text t) b)"

fun keyword_block_loop ::
  "(string \<times> string) list \<Rightarrow> bool \<Rightarrow> nat \<Rightarrow> token_decl list \<Rightarrow> string list \<Rightarrow> nat option" where
  "keyword_block_loop pairs ic i [] stack = None"
| "keyword_block_loop pairs ic i (t # ts) stack =
     (if is_trivia t then keyword_block_loop pairs ic (Suc i) ts stack
      else case closer_of pairs ic t of
        Some c \<Rightarrow> keyword_block_loop pairs ic (Suc i) ts (c # stack)
      | None \<Rightarrow>
          if is_kw_closer pairs ic t then
            (case stack of
               [] \<Rightarrow> None
             | c # stack \<Rightarrow>
                 if \<not> kw_eq ic (td_text t) c then None
                 else if stack = [] then Some i
                 else keyword_block_loop pairs ic (Suc i) ts stack)
          else keyword_block_loop pairs ic (Suc i) ts stack)"

definition keyword_block :: "token_decl list \<Rightarrow> nat \<Rightarrow> (string \<times> string) list \<Rightarrow> bool \<Rightarrow> nat option" where
  "keyword_block tokens open pairs ignore_case =
     (case nth_opt tokens open of
        None \<Rightarrow> None
      | Some first \<Rightarrow>
          if is_trivia first \<or> closer_of pairs ignore_case first = None then None
          else keyword_block_loop pairs ignore_case open (drop open tokens) [])"

fun keyword_close_loop ::
  "(string \<times> string) list \<Rightarrow> bool \<Rightarrow> nat \<Rightarrow> token_decl list \<Rightarrow> (nat \<times> nat) list \<Rightarrow> nat option list \<Rightarrow>
   nat option list" where
  "keyword_close_loop pairs ic i [] stack out = out"
| "keyword_close_loop pairs ic i (t # ts) stack out =
     (if is_trivia t then keyword_close_loop pairs ic (Suc i) ts stack out
      else case position (\<lambda>(a, b). kw_eq ic (td_text t) a) pairs of
        Some k \<Rightarrow> keyword_close_loop pairs ic (Suc i) ts ((i, k) # stack) out
      | None \<Rightarrow>
          if is_kw_closer pairs ic t then
            (case stack of
               (open, k) # stack' \<Rightarrow>
                 if kw_eq ic (td_text t) (snd (pairs ! k))
                 then keyword_close_loop pairs ic (Suc i) ts stack' (out[open := Some i])
                 else keyword_close_loop pairs ic (Suc i) ts [] out
             | [] \<Rightarrow> keyword_close_loop pairs ic (Suc i) ts [] out)
          else keyword_close_loop pairs ic (Suc i) ts stack out)"

definition keyword_close_table :: "token_decl list \<Rightarrow> (string \<times> string) list \<Rightarrow> bool \<Rightarrow> nat option list" where
  "keyword_close_table tokens pairs ignore_case =
     keyword_close_loop pairs ignore_case 0 tokens [] (replicate (length tokens) None)"

subsection \<open>Indentation blocks and lines\<close>

text \<open>\<open>while line_first > 0 && tokens[line_first - 1].span.start_line == line\<close>.\<close>

fun line_first_of :: "token_decl list \<Rightarrow> u32 \<Rightarrow> nat \<Rightarrow> nat" where
  "line_first_of tokens line 0 = 0"
| "line_first_of tokens line (Suc k) =
     (if start_line (td_span (tokens ! k)) = line then line_first_of tokens line k else Suc k)"

definition depth_after :: "token_decl \<Rightarrow> nat \<Rightarrow> nat" where
  "depth_after t depth =
     (if is_trivia t then depth
      else if closer_for (td_text t) \<noteq> None then depth + 1
      else if is_closer (td_text t) then depth - 1
      else depth)"

fun indent_loop ::
  "token_class list \<Rightarrow> u32 \<Rightarrow> nat \<Rightarrow> token_decl list \<Rightarrow> nat \<Rightarrow> u32 \<Rightarrow> nat \<Rightarrow> bool \<Rightarrow> nat" where
  "indent_loop skip indent j [] lst prev_end_line depth line_open = lst"
| "indent_loop skip indent j (t # ts) lst prev_end_line depth line_open =
     (let line_open = (if start_line (td_span t) > prev_end_line then False else line_open);
          prev_end_line = max prev_end_line (end_line (td_span t))
      in if td_class t \<in> set skip then indent_loop skip indent (Suc j) ts lst prev_end_line depth line_open
         else if \<not> line_open \<and> depth = 0 \<and> start_col (td_span t) \<le> indent then lst
         else indent_loop skip indent (Suc j) ts j prev_end_line (depth_after t depth) True)"

definition indent_block :: "token_decl list \<Rightarrow> nat \<Rightarrow> token_class list \<Rightarrow> nat" where
  "indent_block tokens header skip =
     (case nth_opt tokens header of
        None \<Rightarrow> header
      | Some h \<Rightarrow>
          let line_first = line_first_of tokens (start_line (td_span h)) header;
              indent = start_col (td_span (tokens ! line_first))
          in indent_loop skip indent (Suc header) (drop (Suc header) tokens) header
               (end_line (td_span h)) 0 True)"

text \<open>\<open>line_iter\<close>: the items of the iterator, each a line and the range of its token indices.\<close>

fun line_runs :: "nat \<Rightarrow> token_decl list \<Rightarrow> (u32 \<times> nat \<times> nat) list" where
  "line_runs i [] = []"
| "line_runs i (t # ts) =
     (let k = length (takeWhile (\<lambda>u. start_line (td_span u) = start_line (td_span t)) ts)
      in (start_line (td_span t), i, i + Suc k) # line_runs (i + Suc k) (drop k ts))"

definition line_iter :: "token_decl list \<Rightarrow> (u32 \<times> nat \<times> nat) list" where
  "line_iter tokens = line_runs 0 tokens"

subsection \<open>The cursor\<close>

record cursor =
  cu_tokens :: "token_decl list"
  cu_pos :: nat

definition cursor_new :: "token_decl list \<Rightarrow> cursor" where
  "cursor_new tokens = \<lparr>cu_tokens = tokens, cu_pos = 0\<rparr>"

definition set_pos :: "nat \<Rightarrow> cursor \<Rightarrow> cursor" where
  "set_pos p c = c\<lparr>cu_pos := min p (length (cu_tokens c))\<rparr>"

definition at_end :: "cursor \<Rightarrow> bool" where
  "at_end c \<longleftrightarrow> cu_pos c \<ge> length (cu_tokens c)"

definition peek :: "cursor \<Rightarrow> token_decl option" where
  "peek c = nth_opt (cu_tokens c) (cu_pos c)"

definition peek_code :: "nat \<Rightarrow> cursor \<Rightarrow> (nat \<times> token_decl) option" where
  "peek_code n c =
     nth_opt (filter (\<lambda>(i, t). td_class t \<noteq> Comment) (drop (cu_pos c) (enumerate 0 (cu_tokens c)))) n"

fun skip_from :: "nat \<Rightarrow> token_decl list \<Rightarrow> nat" where
  "skip_from i [] = i"
| "skip_from i (t # ts) = (if td_class t = Comment then skip_from (Suc i) ts else i)"

definition skip_comments :: "cursor \<Rightarrow> cursor" where
  "skip_comments c = c\<lparr>cu_pos := skip_from (cu_pos c) (drop (cu_pos c) (cu_tokens c))\<rparr>"

definition next_code :: "cursor \<Rightarrow> (nat \<times> token_decl) option \<times> cursor" where
  "next_code c =
     (let c = skip_comments c; i = cu_pos c
      in case nth_opt (cu_tokens c) i of
           None \<Rightarrow> (None, c)
         | Some t \<Rightarrow> (Some (i, t), c\<lparr>cu_pos := i + 1\<rparr>))"

definition eat :: "string \<Rightarrow> cursor \<Rightarrow> nat option \<times> cursor" where
  "eat text c =
     (case peek_code 0 c of
        None \<Rightarrow> (None, c)
      | Some (i, t) \<Rightarrow> if td_text t = text then (Some i, c\<lparr>cu_pos := i + 1\<rparr>) else (None, c))"

definition skip_balanced :: "cursor \<Rightarrow> (nat \<times> nat) option \<times> cursor" where
  "skip_balanced c =
     (case peek_code 0 c of
        None \<Rightarrow> (None, c)
      | Some (open, t) \<Rightarrow>
          (case matching_close (cu_tokens c) open of
             None \<Rightarrow> (None, c)
           | Some close \<Rightarrow> (Some (open, close), c\<lparr>cu_pos := close + 1\<rparr>)))"

definition skip_balanced_with :: "nat option list \<Rightarrow> cursor \<Rightarrow> (nat \<times> nat) option \<times> cursor" where
  "skip_balanced_with table c =
     (case peek_code 0 c of
        None \<Rightarrow> (None, c)
      | Some (open, t) \<Rightarrow>
          (case nth_opt table open of
             None \<Rightarrow> (None, c)
           | Some None \<Rightarrow> (None, c)
           | Some (Some close) \<Rightarrow> (Some (open, close), c\<lparr>cu_pos := close + 1\<rparr>)))"

subsection \<open>A scan and its table\<close>

text \<open>
  The contract the two pairs of functions share. \<open>scan\<close> looks for the closer of one opener with a stack
  of expected closers; \<open>table\<close> answers every opener in one pass, with the openers still open on its
  stack. \<open>opens\<close> and \<open>opens_tab\<close> give the closer an opener expects in the representation each of the
  two uses, related by \<open>conv\<close>.
\<close>

locale close_scan =
  fixes trivia :: "'t \<Rightarrow> bool" and opens :: "'t \<Rightarrow> 'c option" and opens_tab :: "'t \<Rightarrow> 'd option"
    and closes :: "'t \<Rightarrow> bool" and fits :: "'t \<Rightarrow> 'c \<Rightarrow> bool" and conv :: "'d \<Rightarrow> 'c"
    and scan :: "nat \<Rightarrow> 't list \<Rightarrow> 'c list \<Rightarrow> nat option"
    and table :: "nat \<Rightarrow> 't list \<Rightarrow> (nat \<times> 'd) list \<Rightarrow> nat option list \<Rightarrow> nat option list"
  assumes opens_conv: "opens t = map_option conv (opens_tab t)"
    and scan_Nil: "scan i [] st = None"
    and scan_trivia: "trivia t \<Longrightarrow> scan i (t # ts) st = scan (Suc i) ts st"
    and scan_open: "\<not> trivia t \<Longrightarrow> opens t = Some c \<Longrightarrow> scan i (t # ts) st = scan (Suc i) ts (c # st)"
    and scan_close: "\<not> trivia t \<Longrightarrow> opens t = None \<Longrightarrow> closes t \<Longrightarrow> scan i (t # ts) st =
      (case st of [] \<Rightarrow> None | c # st \<Rightarrow> if \<not> fits t c then None else if st = [] then Some i else scan (Suc i) ts st)"
    and scan_other: "\<not> trivia t \<Longrightarrow> opens t = None \<Longrightarrow> \<not> closes t \<Longrightarrow> scan i (t # ts) st = scan (Suc i) ts st"
    and table_Nil: "table i [] stack out = out"
    and table_trivia: "trivia t \<Longrightarrow> table i (t # ts) stack out = table (Suc i) ts stack out"
    and table_open: "\<not> trivia t \<Longrightarrow> opens_tab t = Some d \<Longrightarrow>
      table i (t # ts) stack out = table (Suc i) ts ((i, d) # stack) out"
    and table_close: "\<not> trivia t \<Longrightarrow> opens_tab t = None \<Longrightarrow> closes t \<Longrightarrow> table i (t # ts) stack out =
      (case stack of
         (open, d) # stack' \<Rightarrow>
           if fits t (conv d) then table (Suc i) ts stack' (out[open := Some i]) else table (Suc i) ts [] out
       | [] \<Rightarrow> table (Suc i) ts [] out)"
    and table_other: "\<not> trivia t \<Longrightarrow> opens_tab t = None \<Longrightarrow> \<not> closes t \<Longrightarrow>
      table i (t # ts) stack out = table (Suc i) ts stack out"
begin

text \<open>The state of the one-pass scan before token \<open>i\<close>: the open openers are distinct and unanswered.\<close>

definition ready :: "nat \<Rightarrow> (nat \<times> 'd) list \<Rightarrow> nat option list \<Rightarrow> bool" where
  "ready i stack out \<longleftrightarrow> distinct (map fst stack) \<and> (\<forall>k \<in> fst ` set stack. k < i \<and> out ! k = None)"

lemma ready_open: "ready i stack out \<Longrightarrow> out ! i = None \<Longrightarrow> ready (Suc i) ((i, d) # stack) out"
  by (auto simp: ready_def)

lemma ready_Suc: "ready i stack out \<Longrightarrow> ready (Suc i) stack out"
  by (auto simp: ready_def less_Suc_eq)

lemma ready_pop: "ready i ((k, d) # stack) out \<Longrightarrow> ready (Suc i) stack (out[k := Some i])"
proof -
  assume r: "ready i ((k, d) # stack) out"
  have "j < Suc i \<and> out[k := Some i] ! j = None" if "j \<in> fst ` set stack" for j
  proof -
    have "j \<noteq> k" using that r by (auto simp: ready_def)
    then show ?thesis using that r by (auto simp: ready_def less_Suc_eq)
  qed
  then show ?thesis using r by (auto simp: ready_def)
qed

lemma ready_Nil: "ready i [] out"
  by (simp add: ready_def)

lemma length_table: "length (table i ts stack out) = length out"
proof (induction ts arbitrary: i stack out)
  case (Cons t ts)
  consider "trivia t" | d where "\<not> trivia t" "opens_tab t = Some d" | "\<not> trivia t" "opens_tab t = None" "closes t"
    | "\<not> trivia t" "opens_tab t = None" "\<not> closes t" by (cases "opens_tab t") auto
  then show ?case
    by cases (auto simp: Cons table_trivia table_open table_close table_other split: list.splits prod.splits)
qed (simp add: table_Nil)

text \<open>An answered opener keeps its answer; an open one gets the answer of its own scan.\<close>

lemma table_stack:
  assumes "ready i stack out" and "i + length ts \<le> length out"
    and "\<forall>k. i \<le> k \<longrightarrow> k < length out \<longrightarrow> out ! k = None"
  shows "(\<forall>k < i. k \<notin> fst ` set stack \<longrightarrow> table i ts stack out ! k = out ! k) \<and>
    (\<forall>above k d below. stack = above @ (k, d) # below \<longrightarrow>
       table i ts stack out ! k = scan i ts (map (\<lambda>x. conv (snd x)) above @ [conv d]))"
  using assms
proof (induction ts arbitrary: i stack out)
  case Nil
  then show ?case by (auto simp: table_Nil scan_Nil ready_def)
next
  case (Cons t ts)
  have i: "i < length out" "Suc i + length ts \<le> length out" using Cons.prems(2) by simp_all
  have none: "\<forall>k. Suc i \<le> k \<longrightarrow> k < length out \<longrightarrow> out ! k = None" and oi: "out ! i = None"
    using Cons.prems(3) i(1) by auto
  consider "trivia t" | d where "\<not> trivia t" "opens_tab t = Some d" | "\<not> trivia t" "opens_tab t = None" "closes t"
    | "\<not> trivia t" "opens_tab t = None" "\<not> closes t" by (cases "opens_tab t") auto
  then show ?case
  proof cases
    case 1
    then show ?thesis
      using Cons.IH [OF ready_Suc [OF Cons.prems(1)] i(2) none] by (simp add: table_trivia scan_trivia)
  next
    case (2 d)
    note IH = Cons.IH [OF ready_open [OF Cons.prems(1) oi, of d] i(2) none]
    have "table (Suc i) ts ((i, d) # stack) out ! k = scan (Suc i) ts (conv d # map (\<lambda>x. conv (snd x)) above @ [conv e])"
      if "stack = above @ (k, e) # below" for above k e below
      using IH [THEN conjunct2, rule_format, of "(i, d) # above" k e below] that by simp
    moreover have "table (Suc i) ts ((i, d) # stack) out ! k = out ! k" if "k < i" "k \<notin> fst ` set stack" for k
      using IH [THEN conjunct1, rule_format, of k] that by simp
    ultimately show ?thesis
      using 2 by (simp add: table_open scan_open opens_conv)
  next
    case 3
    show ?thesis
    proof (cases stack)
      case Nil
      then show ?thesis
        using 3 Cons.IH [OF ready_Nil i(2) none] by (simp add: table_close)
    next
      case (Cons kd stack')
      obtain k1 d1 where kd: "kd = (k1, d1)" by fastforce
      note rdy = \<open>ready i stack out\<close> [unfolded Cons kd]
      have k1: "k1 < i" "out ! k1 = None" "\<And>k. k \<in> fst ` set stack' \<Longrightarrow> k \<noteq> k1 \<and> k < i \<and> out ! k = None"
        using rdy by (auto simp: ready_def)
      show ?thesis
      proof (cases "fits t (conv d1)")
        case True
        let ?out = "out[k1 := Some i]"
        have "\<forall>k. Suc i \<le> k \<longrightarrow> k < length ?out \<longrightarrow> ?out ! k = None" using none k1(1) by auto
        note IH = Cons.IH [OF ready_pop [OF rdy], simplified, OF i(2) [simplified] this [simplified]]
        have "table (Suc i) ts stack' ?out ! k1 = Some i"
          using IH [THEN conjunct1, rule_format, of k1] k1(1,3) i(1) by (auto simp: less_Suc_eq)
        moreover have "table (Suc i) ts stack' ?out ! k = scan (Suc i) ts (map (\<lambda>x. conv (snd x)) above @ [conv e])"
          if "stack' = above @ (k, e) # below" for above k e below
          using IH [THEN conjunct2, rule_format, OF that] that by simp
        moreover have "table (Suc i) ts stack' ?out ! k = out ! k" if "k < i" "k \<notin> fst ` set stack" for k
          using IH [THEN conjunct1, rule_format, of k] that by (auto simp: Cons kd)
        ultimately show ?thesis
          using 3 True unfolding Cons kd
          by (auto simp: table_close scan_close opens_conv Cons_eq_append_conv)
      next
        case False
        have "table (Suc i) ts [] out ! k = out ! k" if "k < i" for k
          using Cons.IH [OF ready_Nil i(2) none] that by simp
        moreover have "out ! k = None \<and> k < i" if "stack = above @ (k, e) # below" for above k e below
          using that \<open>ready i stack out\<close> by (auto simp: ready_def)
        ultimately show ?thesis
          using 3 False unfolding Cons kd
          by (auto simp: table_close scan_close opens_conv Cons_eq_append_conv)
      qed
    qed
  next
    case 4
    then show ?thesis
      using Cons.IH [OF ready_Suc [OF Cons.prems(1)] i(2) none] by (simp add: table_other scan_other opens_conv)
  qed
qed

lemma table_at:
  assumes "ready i stack out" and "i + length ts \<le> length out"
    and "\<forall>k. i \<le> k \<longrightarrow> k < length out \<longrightarrow> out ! k = None" and "m < length ts"
  shows "table i ts stack out ! (i + m) =
    (if \<not> trivia (ts ! m) \<and> opens (ts ! m) \<noteq> None then scan (i + m) (drop m ts) [] else None)"
  using assms
proof (induction ts arbitrary: i stack out m)
  case (Cons t ts)
  have i: "i < length out" "Suc i + length ts \<le> length out" using Cons.prems(2) by simp_all
  have none: "\<forall>k. Suc i \<le> k \<longrightarrow> k < length out \<longrightarrow> out ! k = None" and oi: "out ! i = None"
    using Cons.prems(3) i(1) by auto
  have notin: "i \<notin> fst ` set stack" using Cons.prems(1) by (auto simp: ready_def)
  have step: "table (Suc i) ts stk o' ! (i + m) = (if \<not> trivia ((t # ts) ! m) \<and> opens ((t # ts) ! m) \<noteq> None
      then scan (i + m) (drop m (t # ts)) [] else None)"
    if "ready (Suc i) stk o'" "length o' = length out" "\<forall>k. Suc i \<le> k \<longrightarrow> k < length out \<longrightarrow> o' ! k = None" "m \<noteq> 0" for stk o'
    using Cons.IH [OF that(1), of "m - 1"] that Cons.prems(4) i(2) by (cases m) auto
  have same: "table (Suc i) ts stk o' ! i = None" if "ready (Suc i) stk o'" "length o' = length out"
    "\<forall>k. Suc i \<le> k \<longrightarrow> k < length out \<longrightarrow> o' ! k = None" "i \<notin> fst ` set stk" "o' ! i = None" for stk o'
    using table_stack [OF that(1), of ts] that(2-5) i(2) by auto
  consider "trivia t" | d where "\<not> trivia t" "opens_tab t = Some d" | "\<not> trivia t" "opens_tab t = None" "closes t"
    | "\<not> trivia t" "opens_tab t = None" "\<not> closes t" by (cases "opens_tab t") auto
  then show ?case
  proof cases
    case 1
    then show ?thesis
      using step [OF ready_Suc [OF Cons.prems(1)] refl none] same [OF ready_Suc [OF Cons.prems(1)] refl none notin oi]
      by (cases "m = 0") (simp_all add: table_trivia)
  next
    case (2 d)
    note rdy = ready_open [OF Cons.prems(1) oi, of d]
    have "table (Suc i) ts ((i, d) # stack) out ! i = scan (Suc i) ts [conv d]"
      using table_stack [OF rdy i(2) none, THEN conjunct2, rule_format, of "[]" i d stack] by simp
    then show ?thesis
      using 2 step [OF rdy refl none] by (cases "m = 0") (simp_all add: table_open scan_open opens_conv)
  next
    case 3
    have "\<exists>stk o'. table i (t # ts) stack out = table (Suc i) ts stk o' \<and> ready (Suc i) stk o' \<and> length o' = length out \<and>
        (\<forall>k. Suc i \<le> k \<longrightarrow> k < length out \<longrightarrow> o' ! k = None) \<and> i \<notin> fst ` set stk \<and> o' ! i = None"
    proof (cases "\<exists>k d stack'. stack = (k, d) # stack' \<and> fits t (conv d)")
      case True
      then obtain k d stack' where st: "stack = (k, d) # stack'" "fits t (conv d)" by auto
      then have "k < i" using Cons.prems(1) by (auto simp: ready_def)
      then show ?thesis
        using 3 st none oi notin ready_pop [OF Cons.prems(1) [unfolded st(1)]]
        by (intro exI [of _ stack'] exI [of _ "out[k := Some i]"]) (simp add: table_close)
    next
      case False
      then show ?thesis
        using 3 none oi ready_Nil
        by (intro exI [of _ "[]"] exI [of _ out]) (auto simp: table_close split: list.splits)
    qed
    then obtain stk o' where "table i (t # ts) stack out = table (Suc i) ts stk o'" "ready (Suc i) stk o'"
      "length o' = length out" "\<forall>k. Suc i \<le> k \<longrightarrow> k < length out \<longrightarrow> o' ! k = None" "i \<notin> fst ` set stk" "o' ! i = None"
      by blast
    then show ?thesis
      using 3 step [of stk o'] same [of stk o'] by (cases "m = 0") (simp_all add: opens_conv)
  next
    case 4
    then show ?thesis
      using step [OF ready_Suc [OF Cons.prems(1)] refl none] same [OF ready_Suc [OF Cons.prems(1)] refl none notin oi]
      by (cases "m = 0") (simp_all add: table_other opens_conv)
  qed
qed simp

lemma table_eq_scan:
  assumes "m < length ts"
  shows "table 0 ts [] (replicate (length ts) None) ! m =
    (if \<not> trivia (ts ! m) \<and> opens (ts ! m) \<noteq> None then scan m (drop m ts) [] else None)"
  using table_at [OF ready_Nil, where i = 0 and ts = ts and m = m and out = "replicate (length ts) None"] assms by simp

text \<open>A scan with an empty or a proper stack answers with a position of the sequence.\<close>

lemma scan_range: "scan i ts st = Some k \<Longrightarrow> i \<le> k \<and> k < i + length ts"
proof (induction ts arbitrary: i st)
  case (Cons t ts)
  consider "trivia t" | c where "\<not> trivia t" "opens t = Some c" | "\<not> trivia t" "opens t = None" "closes t"
    | "\<not> trivia t" "opens t = None" "\<not> closes t" by (cases "opens t") auto
  then show ?case
    using Cons.prems
    by cases (auto simp: scan_trivia scan_open scan_close scan_other split: list.splits if_splits dest!: Cons.IH)
qed (simp add: scan_Nil)

end

lemma find_position: "find P xs = map_option (\<lambda>k. xs ! k) (position P xs)"
proof (induction xs)
  case (Cons x xs)
  then show ?case by (cases "position P xs") auto
qed simp

lemma closer_of_position:
  "closer_of pairs ic t =
     map_option (\<lambda>k. snd (pairs ! k)) (position (\<lambda>(a, b). kw_eq ic (td_text t) a) pairs)"
  by (simp add: closer_of_def find_position option.map_comp comp_def)

interpretation brackets: close_scan is_trivia "\<lambda>t. closer_for (td_text t)" "\<lambda>t. closer_for (td_text t)"
    "\<lambda>t. is_closer (td_text t)" "\<lambda>t c. c = td_text t" "\<lambda>c. c" matching_close_loop close_table_loop
  by unfold_locales (simp_all add: option.map_ident split: list.splits)

interpretation kw_blocks: close_scan is_trivia "closer_of pairs ic"
    "\<lambda>t. position (\<lambda>(a, b). kw_eq ic (td_text t) a) pairs" "is_kw_closer pairs ic"
    "\<lambda>t c. kw_eq ic (td_text t) c" "\<lambda>k. snd (pairs ! k)" "keyword_block_loop pairs ic" "keyword_close_loop pairs ic"
  for pairs ic
  by unfold_locales (rule closer_of_position, simp_all split: list.splits)

subsection \<open>Balanced segments\<close>

text \<open>A sequence of tokens whose delimiters, trivia aside, are properly nested.\<close>

inductive balanced :: "token_decl list \<Rightarrow> bool" where
  balanced_Nil: "balanced []"
| balanced_skip: "is_trivia t \<or> closer_for (td_text t) = None \<and> \<not> is_closer (td_text t) \<Longrightarrow> balanced ts \<Longrightarrow>
    balanced (t # ts)"
| balanced_pair: "\<not> is_trivia t \<Longrightarrow> closer_for (td_text t) = Some (td_text u) \<Longrightarrow> \<not> is_trivia u \<Longrightarrow>
    balanced xs \<Longrightarrow> balanced ys \<Longrightarrow> balanced (t # xs @ u # ys)"

lemma closer_for_closer: "closer_for a = Some b \<Longrightarrow> is_closer b \<and> closer_for b = None"
  by (auto simp: closer_for_def is_closer_def split: if_splits)

lemma balanced_scan:
  "balanced xs \<Longrightarrow> st \<noteq> [] \<Longrightarrow> matching_close_loop i (xs @ ys) st = matching_close_loop (i + length xs) ys st"
proof (induction xs arbitrary: i st ys rule: balanced.induct)
  case (balanced_pair t u xs zs)
  note u = closer_for_closer [OF balanced_pair(2)]
  have "matching_close_loop i ((t # xs @ u # zs) @ ys) st =
      matching_close_loop (Suc i + length xs) (u # zs @ ys) (td_text u # st)"
    using balanced_pair(1,2) balanced_pair(6) [of "td_text u # st" "Suc i" "u # zs @ ys"] by simp
  also have "\<dots> = matching_close_loop (Suc (Suc i + length xs) + length zs) ys st"
    using balanced_pair(3,7,8) u by simp
  also have "Suc (Suc i + length xs) + length zs = i + length (t # xs @ u # zs)" by simp
  finally show ?case .
qed auto

lemma scan_balanced:
  "matching_close_loop i ts (c # st) = Some j \<Longrightarrow> \<exists>xs u ys. ts = xs @ u # ys \<and> balanced xs \<and> \<not> is_trivia u \<and>
     td_text u = c \<and> closer_for c = None \<and> is_closer c \<and>
     (if st = [] then j = i + length xs else matching_close_loop (Suc (i + length xs)) ys st = Some j)"
proof (induction ts arbitrary: i c st rule: length_induct)
  case (1 ts)
  note IH = 1(1) [rule_format]
  from 1(2) obtain t rest where ts: "ts = t # rest" by (cases ts) auto
  show ?case
  proof (cases "is_trivia t \<or> closer_for (td_text t) = None \<and> \<not> is_closer (td_text t)")
    case True
    then have "matching_close_loop (Suc i) rest (c # st) = Some j" using 1(2) ts by (auto split: if_splits)
    from IH [OF _ this] ts obtain xs u ys where "rest = xs @ u # ys" "balanced xs" "\<not> is_trivia u" "td_text u = c"
      "closer_for c = None" "is_closer c"
      "if st = [] then j = Suc i + length xs else matching_close_loop (Suc (Suc i + length xs)) ys st = Some j" by auto
    with True show ?thesis
      by (intro exI [of _ "t # xs"] exI [of _ u] exI [of _ ys]) (auto simp: ts balanced_skip split: if_splits)
  next
    case False
    then have nt: "\<not> is_trivia t" by simp
    show ?thesis
    proof (cases "closer_for (td_text t)")
      case (Some d)
      then have "matching_close_loop (Suc i) rest (d # c # st) = Some j" using 1(2) ts nt by simp
      from IH [OF _ this] ts obtain xs u ys where r: "rest = xs @ u # ys" "balanced xs" "\<not> is_trivia u" "td_text u = d"
        "matching_close_loop (Suc (Suc i + length xs)) ys (c # st) = Some j" by auto
      from IH [OF _ r(5)] ts r(1) obtain xs' u' ys' where "ys = xs' @ u' # ys'" "balanced xs'" "\<not> is_trivia u'" "td_text u' = c"
        "closer_for c = None" "is_closer c"
        "if st = [] then j = Suc (Suc i + length xs) + length xs'
         else matching_close_loop (Suc (Suc (Suc i + length xs) + length xs')) ys' st = Some j" by auto
      with r nt Some show ?thesis
        by (intro exI [where x = "t # xs @ u # xs'"], intro exI [where x = u'], intro exI [where x = ys'])
           (auto simp: ts balanced_pair add.assoc split: if_splits)
    next
      case None
      with False nt 1(2) ts show ?thesis
        by (intro exI [of _ "[]"] exI [of _ t] exI [of _ rest]) (auto simp: balanced_Nil split: if_splits)
    qed
  qed
qed

lemma matching_close_unfold:
  "i < length ts \<Longrightarrow> \<not> is_trivia (ts ! i) \<Longrightarrow> closer_for (td_text (ts ! i)) = Some c \<Longrightarrow>
    matching_close ts i = matching_close_loop (Suc i) (drop (Suc i) ts) [c]"
  by (simp add: matching_close_def nth_opt_def Cons_nth_drop_Suc [symmetric])

lemma close_table_nth: "i < length tokens \<Longrightarrow> close_table tokens ! i = matching_close tokens i"
  unfolding close_table_def by (subst brackets.table_eq_scan) (auto simp: matching_close_def nth_opt_def)

lemma length_close_table [simp]: "length (close_table tokens) = length tokens"
  by (simp add: close_table_def brackets.length_table)

lemma matching_close_range: "matching_close tokens i = Some j \<Longrightarrow> i \<le> j \<and> j < length tokens"
  by (auto simp: matching_close_def split: option.splits if_splits dest!: brackets.scan_range)

subsection \<open>Code positions\<close>

lemma length_code_pos [simp]: "length (code_pos c code pos) = length pos"
  by (induction c code pos rule: code_pos.induct) simp_all

lemma code_pos_nth:
  "distinct code \<Longrightarrow> \<forall>i \<in> set code. i < length pos \<Longrightarrow> k < length pos \<Longrightarrow>
    code_pos c code pos ! k =
      (case position (\<lambda>x. x = k) code of None \<Rightarrow> pos ! k | Some j \<Rightarrow> Some (c + j))"
proof (induction code arbitrary: c pos)
  case (Cons i code)
  have "position (\<lambda>x. x = i) code = None" if "i \<notin> set code"
    using that by (induction code) auto
  then show ?case
    using Cons by (auto simp: nth_list_update split: option.splits)
qed simp

subsection \<open>Keyword marking\<close>

definition relabels :: "(string \<Rightarrow> bool) \<Rightarrow> token_decl \<Rightarrow> token_decl \<Rightarrow> bool" where
  "relabels is_kw t u \<longleftrightarrow>
     u = t \<or> td_class t = Identifier \<and> is_kw (td_text t) \<and> u = t\<lparr>td_class := Keyword\<rparr>"

lemma mark_keywords_loop_relabels:
  "i + k \<le> length tokens \<Longrightarrow> (\<And>j. j < length tokens \<Longrightarrow> relabels is_kw (orig ! j) (tokens ! j)) \<Longrightarrow>
    length (mark_keywords_loop k i is_kw esc tokens) = length tokens \<and>
    (\<forall>j < length tokens. relabels is_kw (orig ! j) (mark_keywords_loop k i is_kw esc tokens ! j))"
proof (induction k arbitrary: i tokens)
  case (Suc k)
  let ?tokens = "if td_class (tokens ! i) = Identifier \<and> is_kw (td_text (tokens ! i)) \<and> \<not> esc tokens i
    then tokens[i := (tokens ! i)\<lparr>td_class := Keyword\<rparr>] else tokens"
  have "relabels is_kw (orig ! j) (?tokens ! j)" if "j < length ?tokens" for j
    using Suc.prems(2) [of j] that by (cases "j = i") (auto simp: relabels_def split: if_splits)
  moreover have "length ?tokens = length tokens" by simp
  ultimately show ?case
    using Suc.IH [of "Suc i" ?tokens] Suc.prems(1) by simp
qed simp

subsection \<open>Blocks and lines\<close>

lemma line_first_of_le: "line_first_of tokens line k \<le> k"
  by (induction k) auto

lemma indent_loop_bounds:
  assumes "drop j tokens = ts" and "lst < j" and "header \<le> lst" and "lst = header \<or> td_class (tokens ! lst) \<notin> set skip"
    and "j \<le> length tokens"
  shows "let r = indent_loop skip indent j ts lst pel depth lo in
    header \<le> r \<and> r < length tokens \<and> (r = header \<or> td_class (tokens ! r) \<notin> set skip)"
  using assms
proof (induction ts arbitrary: j lst pel depth lo)
  case (Cons t ts)
  have "tokens ! j = t" "drop (Suc j) tokens = ts" "j < length tokens"
    using nth_drop_hd [OF Cons.prems(1)] by simp_all
  with Cons show ?case by (simp add: Let_def)
qed simp

text \<open>The runs cover the token indices from \<open>i\<close> to \<open>n\<close> without gaps, each run on one line.\<close>

fun covers :: "token_decl list \<Rightarrow> nat \<Rightarrow> (u32 \<times> nat \<times> nat) list \<Rightarrow> bool" where
  "covers tokens i [] \<longleftrightarrow> i = length tokens"
| "covers tokens i ((line, a, b) # runs) \<longleftrightarrow>
     a = i \<and> a < b \<and> b \<le> length tokens \<and> (\<forall>k. a \<le> k \<longrightarrow> k < b \<longrightarrow> start_line (td_span (tokens ! k)) = line) \<and>
     (b < length tokens \<longrightarrow> start_line (td_span (tokens ! b)) \<noteq> line) \<and> covers tokens b runs"

lemma line_runs_covers: "drop i tokens = ts \<Longrightarrow> i \<le> length tokens \<Longrightarrow> covers tokens i (line_runs i ts)"
proof (induction i ts rule: line_runs.induct)
  case (2 i t ts)
  let ?P = "\<lambda>u. start_line (td_span u) = start_line (td_span t)"
  let ?k = "length (takeWhile ?P ts)"
  note hd = nth_drop_hd [OF 2(2)]
  have len: "length ts = length tokens - Suc i" using hd(3) by (metis length_drop)
  have k: "?k \<le> length ts" by (rule length_takeWhile_le)
  have nth: "tokens ! (Suc i + m) = ts ! m" if "m < length ts" for m
    using hd that by (metis nth_drop Suc_leI less_imp_le_nat)
  have in_run: "start_line (td_span (tokens ! m)) = start_line (td_span t)" if "i \<le> m" "m < i + Suc ?k" for m
  proof (cases "m = i")
    case False
    then obtain q where q: "m = Suc i + q" using \<open>i \<le> m\<close> by (metis le_neq_implies_less less_iff_Suc_add add_Suc)
    then have "q < ?k" using that by simp
    then have "?P (ts ! q)" using nth_mem [of q "takeWhile ?P ts"] by (auto simp: takeWhile_nth dest: set_takeWhileD)
    with q nth [of q] \<open>q < ?k\<close> k show ?thesis by simp
  qed (simp add: hd)
  have after: "start_line (td_span (tokens ! (i + Suc ?k))) \<noteq> start_line (td_span t)" if "i + Suc ?k < length tokens"
    using nth_length_takeWhile [of ?P ts] nth [of ?k] that len by simp
  have "drop (i + Suc ?k) tokens = drop ?k ts" unfolding hd(3) [symmetric] by (simp add: add.commute)
  with 2(1) [OF refl] len k hd(1) have "covers tokens (i + Suc ?k) (line_runs (i + Suc ?k) (drop ?k ts))" by simp
  with in_run after len k hd(1) show ?case by (simp add: Let_def)
qed simp

subsection \<open>The cursor\<close>

definition cursor_ok :: "cursor \<Rightarrow> bool" where
  "cursor_ok c \<longleftrightarrow> cu_pos c \<le> length (cu_tokens c)"

lemma skip_from_le: "skip_from i ts \<le> i + length ts"
  by (induction i ts rule: skip_from.induct) auto

lemma skip_from_ge: "i \<le> skip_from i ts"
  by (induction i ts rule: skip_from.induct) auto

lemma filter_enumerate_hd:
  "nth_opt (filter (\<lambda>(i, t). td_class t \<noteq> Comment) (enumerate i ts)) 0 =
     (if skip_from i ts < i + length ts then Some (skip_from i ts, ts ! (skip_from i ts - i)) else None)"
proof (induction ts arbitrary: i)
  case (Cons t ts)
  show ?case
  proof (cases "td_class t = Comment")
    case True
    have "(t # ts) ! (skip_from (Suc i) ts - i) = ts ! (skip_from (Suc i) ts - Suc i)"
      using skip_from_ge [of "Suc i" ts] by (simp add: nth_Cons')
    then show ?thesis using Cons [of "Suc i"] True by simp
  qed (simp add: nth_opt_def)
qed (simp add: nth_opt_def)

lemma peek_code_0:
  assumes "cursor_ok c"
  shows "peek_code 0 c =
    (let i = skip_from (cu_pos c) (drop (cu_pos c) (cu_tokens c))
     in if i < length (cu_tokens c) then Some (i, cu_tokens c ! i) else None)"
proof -
  have "drop (cu_pos c) (enumerate 0 (cu_tokens c)) = enumerate (cu_pos c) (drop (cu_pos c) (cu_tokens c))"
    using assms drop_enumerate_eq [of "cu_pos c" 0] by simp
  then show ?thesis
    using assms skip_from_ge [of "cu_pos c" "drop (cu_pos c) (cu_tokens c)"]
    by (simp add: peek_code_def filter_enumerate_hd Let_def cursor_ok_def)
qed

lemma peek_code_bound: "cursor_ok c \<Longrightarrow> peek_code 0 c = Some (i, t) \<Longrightarrow> i < length (cu_tokens c) \<and> t = cu_tokens c ! i"
  by (auto simp: peek_code_0 Let_def split: if_splits)

subsection \<open>Properties\<close>

text \<open>A token at the origin, for the concrete instances.\<close>

definition sample_tok :: "string \<Rightarrow> token_class \<Rightarrow> token_decl" where
  "sample_tok text c =
     \<lparr>td_text = text, td_class = c,
      td_span = \<lparr>sp_start = 0, sp_end = 1, start_line = 1, start_col = 1, end_line = 1, end_col = 2\<rparr>\<rparr>"

text \<open>
  C11: the one-pass table of closers is the table of the per-opener scans: for every token sequence,
  entry \<open>i\<close> of \<open>close_table\<close> is \<open>matching_close\<close> at \<open>i\<close>.
\<close>

theorem close_table_eq_matching_close:
  "close_table tokens = map (matching_close tokens) [0..<length tokens]"
  by (rule nth_equalityI) (simp_all add: close_table_nth)

text \<open>
  The one-pass table of keyword blocks is the table of the per-opener scans, for every list of
  opener and closer pairs and in both case modes.
\<close>

theorem keyword_close_table_eq_keyword_block:
  "keyword_close_table tokens pairs ignore_case =
     map (\<lambda>i. keyword_block tokens i pairs ignore_case) [0..<length tokens]"
proof (rule nth_equalityI)
  show "length (keyword_close_table tokens pairs ignore_case) =
      length (map (\<lambda>i. keyword_block tokens i pairs ignore_case) [0..<length tokens])"
    by (simp add: keyword_close_table_def kw_blocks.length_table)
  fix i
  assume "i < length (keyword_close_table tokens pairs ignore_case)"
  then have "i < length tokens" by (simp add: keyword_close_table_def kw_blocks.length_table)
  then show "keyword_close_table tokens pairs ignore_case ! i =
      map (\<lambda>i. keyword_block tokens i pairs ignore_case) [0..<length tokens] ! i"
    unfolding keyword_close_table_def by (subst kw_blocks.table_eq_scan) (auto simp: keyword_block_def nth_opt_def)
qed

text \<open>
  C12: what \<open>matching_close\<close> finds. It answers \<open>j\<close> for \<open>i\<close> exactly when \<open>i\<close> is an opening delimiter,
  \<open>j\<close> is the matching closing delimiter, both outside literals and comments, and the tokens between
  them are balanced.
\<close>

theorem matching_close_iff_balanced:
  "matching_close ts i = Some j \<longleftrightarrow>
     i < j \<and> j < length ts \<and> \<not> is_trivia (ts ! i) \<and> \<not> is_trivia (ts ! j) \<and>
     closer_for (td_text (ts ! i)) = Some (td_text (ts ! j)) \<and>
     balanced (take (j - Suc i) (drop (Suc i) ts))"
  (is "_ \<longleftrightarrow> ?spec")
proof
  assume mc: "matching_close ts i = Some j"
  then obtain c where i: "i < length ts" "\<not> is_trivia (ts ! i)" "closer_for (td_text (ts ! i)) = Some c"
    by (auto simp: matching_close_def nth_opt_def split: if_splits)
  with mc have "matching_close_loop (Suc i) (drop (Suc i) ts) [c] = Some j" by (simp add: matching_close_unfold)
  from scan_balanced [OF this] obtain xs u ys where d: "drop (Suc i) ts = xs @ u # ys" "balanced xs" "\<not> is_trivia u"
    "td_text u = c" "j = Suc i + length xs" by auto
  then have "drop j ts = u # ys" using drop_eq_append_length [OF d(1)] by simp
  from nth_drop_hd [OF this] d i show ?spec by auto
next
  assume spec: ?spec
  let ?xs = "take (j - Suc i) (drop (Suc i) ts)"
  have "drop (j - Suc i) (drop (Suc i) ts) = drop j ts" using spec by simp
  then have "drop (Suc i) ts = ?xs @ drop j ts" by (metis append_take_drop_id)
  also have "drop j ts = ts ! j # drop (Suc j) ts" using spec by (simp add: Cons_nth_drop_Suc)
  finally have d: "drop (Suc i) ts = ?xs @ ts ! j # drop (Suc j) ts" .
  have "length ?xs = j - Suc i" using spec by (simp add: min_absorb2 diff_le_mono)
  with spec have len: "Suc i + length ?xs = j" by linarith
  have "matching_close ts i = matching_close_loop (Suc i) (drop (Suc i) ts) [td_text (ts ! j)]"
    using spec by (intro matching_close_unfold) auto
  also have "\<dots> = matching_close_loop j (ts ! j # drop (Suc j) ts) [td_text (ts ! j)]"
    using spec balanced_scan [of ?xs "[td_text (ts ! j)]" "Suc i" "ts ! j # drop (Suc j) ts"]
    by (simp only: d [symmetric] len list.distinct simp_thms)
  also have "\<dots> = Some j" using spec closer_for_closer [of "td_text (ts ! i)" "td_text (ts ! j)"] by simp
  finally show "matching_close ts i = Some j" .
qed

text \<open>
  The table by code position is the closer of each code token looked up among the code tokens
  (the position a binary search of the sorted code indices finds), or nothing.
\<close>

theorem code_close_table_lookup:
  assumes "sorted_wrt (<) code" and "\<forall>i \<in> set code. i < length tokens"
  shows "code_close_table tokens code =
    map (\<lambda>i. Option.bind (matching_close tokens i) (\<lambda>close. position (\<lambda>x. x = close) code)) code"
proof -
  have "distinct code" using assms(1) by (simp add: strict_sorted_iff)
  then have "code_pos 0 code (replicate (length tokens) None) ! k = position (\<lambda>x. x = k) code" if "k < length tokens" for k
    using code_pos_nth [of code "replicate (length tokens) None" k 0] assms(2) that by (simp split: option.splits)
  then show ?thesis
    using assms(2) matching_close_range
    by (auto simp: code_close_table_def Let_def close_table_nth split: option.splits)
qed

theorem code_close_table_lookup_witness:
  "code_close_table
     [sample_tok ''('' Punctuation, sample_tok ''c'' Comment,
      sample_tok '')'' Punctuation] [0, 2] = [Some 1, None]"
  using code_close_table_lookup [of "[0, 2]" "[sample_tok ''('' Punctuation,
      sample_tok ''c'' Comment, sample_tok '')'' Punctuation]"]
  by (simp add: matching_close_def nth_opt_def closer_for_def is_closer_def is_trivia_def sample_tok_def)

text \<open>
  Marking keywords touches nothing but classes: there are as many tokens, and each one is as it was
  or is a listed identifier relabelled as a keyword, whatever the escape rule.
\<close>

theorem mark_keywords_only_relabels:
  "list_all2 (relabels (\<lambda>text. text \<in> set keywords)) tokens (mark_keywords tokens keywords is_escaped)"
  using mark_keywords_loop_relabels [of 0 "length tokens" tokens "\<lambda>text. text \<in> set keywords" tokens is_escaped]
  by (simp add: mark_keywords_def list_all2_conv_all_nth relabels_def)

text \<open>
  The lines of a token sequence: the runs cover all tokens in order without gap or overlap, no run
  is empty, the tokens of a run start on its line, and the token after a run starts on another line.
\<close>

theorem line_iter_partition:
  "covers tokens 0 (line_iter tokens)"
  unfolding line_iter_def by (rule line_runs_covers) simp_all

text \<open>
  An indentation block ends at a token of the sequence, not before its header, and (unless it is
  the header itself) not at a skipped token.
\<close>

theorem indent_block_bounds:
  assumes "header < length tokens"
  shows "header \<le> indent_block tokens header skip \<and> indent_block tokens header skip < length tokens \<and>
    (indent_block tokens header skip = header \<or> td_class (tokens ! indent_block tokens header skip) \<notin> set skip)"
  using indent_loop_bounds [OF refl, where j = "Suc header" and lst = header and header = header and tokens = tokens] assms
  by (simp add: indent_block_def nth_opt_def Let_def)

theorem indent_block_bounds_witness:
  "indent_block [sample_tok ''x'' Identifier] 0 [] = 0"
  using indent_block_bounds [of 0 "[sample_tok ''x'' Identifier]" "[]"] by simp

text \<open>
  The cursor stays within its tokens under every operation, and \<open>next_code\<close> returns what
  \<open>peek_code 0\<close> announces.
\<close>

theorem cursor_invariant:
  assumes "cursor_ok c"
  shows "cursor_ok (set_pos p c) \<and> cursor_ok (skip_comments c) \<and> cursor_ok (snd (next_code c)) \<and>
    cursor_ok (snd (eat text c)) \<and> cursor_ok (snd (skip_balanced c)) \<and> fst (next_code c) = peek_code 0 c"
proof -
  have sk: "skip_from (cu_pos c) (drop (cu_pos c) (cu_tokens c)) \<le> length (cu_tokens c)"
    using skip_from_le [of "cu_pos c" "drop (cu_pos c) (cu_tokens c)"] assms by (simp add: cursor_ok_def)
  have "cursor_ok (snd (eat text c))"
    using assms peek_code_bound [OF assms]
    by (auto simp: eat_def cursor_ok_def Suc_le_eq split: option.splits)
  moreover have "cursor_ok (snd (skip_balanced c))"
    using assms matching_close_range by (auto simp: skip_balanced_def cursor_ok_def Suc_le_eq split: option.splits)
  ultimately show ?thesis
    using sk by (auto simp: cursor_ok_def set_pos_def skip_comments_def next_code_def Let_def nth_opt_def peek_code_0 [OF assms])
qed

theorem cursor_invariant_witness:
  "cursor_ok (snd (next_code (cursor_new [sample_tok ''x'' Identifier])))"
  using cursor_invariant [of "cursor_new [sample_tok ''x'' Identifier]"]
  by (simp add: cursor_ok_def cursor_new_def)

text \<open>
  Skipping a balanced group through the precomputed table is skipping it by a scan.
\<close>

theorem skip_balanced_with_close_table:
  "skip_balanced_with (close_table (cu_tokens c)) c = skip_balanced c"
proof (cases "peek_code 0 c")
  case (Some it)
  obtain i t where it: "it = (i, t)" by fastforce
  have "i < length (cu_tokens c)"
    using Some it nth_mem by (fastforce simp: peek_code_def nth_opt_def in_set_enumerate_eq dest!: in_set_dropD split: if_splits)
  then show ?thesis
    by (simp add: skip_balanced_with_def skip_balanced_def Some it nth_opt_def close_table_nth split: option.splits)
qed (simp add: skip_balanced_with_def skip_balanced_def)

end
