(* ===== verification/Nested_Ends.thy ===== *)
theory Nested_Ends
  imports Prelude
begin

text \<open>
  \<open>NestedEnds\<close> of crates/graph-core/src/scan.rs: the ends of nested lists found by a forward scan whose
  answers are cached. The scan is a partial function, since a step may jump backwards for ever; the
  reference is the relation \<open>ends\<close>, the scan without a cache and with a depth in place of the stack.
\<close>

subsection \<open>The cached scan\<close>

datatype scan_step = Open | Close | Stop | Skip "nat option" | Other

type_synonym memo = "nat \<times> nat \<Rightarrow> nat option option"

definition memo_new :: memo where
  "memo_new = (\<lambda>_. None)"

partial_function (option) find_loop ::
  "memo \<Rightarrow> nat \<Rightarrow> nat \<Rightarrow> (nat \<Rightarrow> scan_step) \<Rightarrow> nat \<Rightarrow> nat list \<Rightarrow> (nat \<times> nat option) list \<Rightarrow>
   (nat option \<times> nat list \<times> (nat \<times> nat option) list) option" where
  "find_loop memo op hi step c stack found =
     (if c \<ge> hi then Some (None, stack, found)
      else case step c of
        Open \<Rightarrow>
          (case (if c = op then None else memo (c, hi)) of
             Some (Some close) \<Rightarrow> find_loop memo op hi step (close + 1) stack found
           | Some None \<Rightarrow> Some (None, stack, found)
           | None \<Rightarrow> find_loop memo op hi step (c + 1) (c # stack) found)
      | Close \<Rightarrow>
          (case stack of
             [] \<Rightarrow> Some (None, [], found)
           | k # stack' \<Rightarrow>
               if stack' = [] then Some (Some c, [], found @ [(k, Some c)])
               else find_loop memo op hi step (c + 1) stack' (found @ [(k, Some c)]))
      | Stop \<Rightarrow> Some (None, stack, found)
      | Skip to \<Rightarrow>
          (case to of
             None \<Rightarrow> Some (None, stack, found)
           | Some k \<Rightarrow> find_loop memo op hi step (k + 1) stack found)
      | Other \<Rightarrow> find_loop memo op hi step (c + 1) stack found)"

definition memo_insert :: "nat \<Rightarrow> (nat \<times> nat option) list \<Rightarrow> memo \<Rightarrow> memo" where
  "memo_insert hi answers memo = fold (\<lambda>(k, r) memo. memo((k, hi) \<mapsto> r)) answers memo"

definition nested_find :: "memo \<Rightarrow> nat \<Rightarrow> nat \<Rightarrow> (nat \<Rightarrow> scan_step) \<Rightarrow> (nat option \<times> memo) option" where
  "nested_find memo op hi step =
     (case memo (op, hi) of
        Some r \<Rightarrow> Some (r, memo)
      | None \<Rightarrow>
          map_option
            (\<lambda>(result, stack, found).
               (result, memo_insert hi (map (\<lambda>k. (k, None)) (rev stack)) (memo_insert hi found memo)))
            (find_loop memo op hi step op [] []))"

subsection \<open>The plain scan\<close>

inductive ends :: "(nat \<Rightarrow> scan_step) \<Rightarrow> nat \<Rightarrow> nat \<Rightarrow> nat \<Rightarrow> nat option \<Rightarrow> bool" for step hi where
  ends_hi: "hi \<le> c \<Longrightarrow> ends step hi c d None"
| ends_open: "c < hi \<Longrightarrow> step c = Open \<Longrightarrow> ends step hi (Suc c) (Suc d) r \<Longrightarrow> ends step hi c d r"
| ends_close_last: "c < hi \<Longrightarrow> step c = Close \<Longrightarrow> ends step hi c (Suc 0) (Some c)"
| ends_close: "c < hi \<Longrightarrow> step c = Close \<Longrightarrow> ends step hi (Suc c) (Suc d) r \<Longrightarrow> ends step hi c (Suc (Suc d)) r"
| ends_close_none: "c < hi \<Longrightarrow> step c = Close \<Longrightarrow> ends step hi c 0 None"
| ends_stop: "c < hi \<Longrightarrow> step c = Stop \<Longrightarrow> ends step hi c d None"
| ends_skip_none: "c < hi \<Longrightarrow> step c = Skip None \<Longrightarrow> ends step hi c d None"
| ends_skip: "c < hi \<Longrightarrow> step c = Skip (Some k) \<Longrightarrow> ends step hi (Suc k) d r \<Longrightarrow> ends step hi c d r"
| ends_other: "c < hi \<Longrightarrow> step c = Other \<Longrightarrow> ends step hi (Suc c) d r \<Longrightarrow> ends step hi c d r"

inductive_cases ends_hiE: "ends step hi c d r"

definition forward :: "(nat \<Rightarrow> scan_step) \<Rightarrow> bool" where
  "forward step \<longleftrightarrow> (\<forall>c k. step c = Skip (Some k) \<longrightarrow> c \<le> k)"

text \<open>An answered opener: an opener of the range whose plain scan gives the answer.\<close>

definition answer_ok :: "(nat \<Rightarrow> scan_step) \<Rightarrow> nat \<Rightarrow> nat \<Rightarrow> nat option \<Rightarrow> bool" where
  "answer_ok step hi k r \<longleftrightarrow> k < hi \<and> step k = Open \<and> ends step hi k 0 r"

definition memo_ok :: "(nat \<Rightarrow> nat \<Rightarrow> scan_step) \<Rightarrow> memo \<Rightarrow> bool" where
  "memo_ok step memo \<longleftrightarrow> (\<forall>k hi r. memo (k, hi) = Some r \<longrightarrow> answer_ok (step hi) hi k r)"

lemma ends_ge: "ends step hi c d (Some e) \<Longrightarrow> forward step \<Longrightarrow> c \<le> e"
  by (induction c d "Some e" rule: ends.induct) (auto simp: forward_def dest: order_trans Suc_leD)

lemma ends_functional: "ends step hi c d r \<Longrightarrow> ends step hi c d r' \<Longrightarrow> r' = r"
proof (induction arbitrary: r' rule: ends.induct)
  case (ends_hi c d)
  from ends_hi(2) show ?case by (rule ends_hiE) (use ends_hi(1) in simp_all)
next
  case (ends_open c d r)
  from ends_open(5) have "ends step hi (Suc c) (Suc d) r'" by (rule ends_hiE) (use ends_open(1,2) in simp_all)
  then show ?case by (rule ends_open(4))
next
  case (ends_close_last c)
  from ends_close_last(3) show ?case by (rule ends_hiE) (use ends_close_last in simp_all)
next
  case (ends_close c d r)
  from ends_close(5) have "ends step hi (Suc c) (Suc d) r'" by (rule ends_hiE) (use ends_close(1,2) in simp_all)
  then show ?case by (rule ends_close(4))
next
  case (ends_close_none c)
  from ends_close_none(3) show ?case by (rule ends_hiE) (use ends_close_none in simp_all)
next
  case (ends_stop c d)
  from ends_stop(3) show ?case by (rule ends_hiE) (use ends_stop in simp_all)
next
  case (ends_skip_none c d)
  from ends_skip_none(3) show ?case by (rule ends_hiE) (use ends_skip_none in simp_all)
next
  case (ends_skip c k d r)
  from ends_skip(5) have "ends step hi (Suc k) d r'" by (rule ends_hiE) (use ends_skip(1,2) in simp_all)
  then show ?case by (rule ends_skip(4))
next
  case (ends_other c d r)
  from ends_other(5) have "ends step hi (Suc c) d r'" by (rule ends_hiE) (use ends_other(1,2) in simp_all)
  then show ?case by (rule ends_other(4))
qed

text \<open>A list that closes is passed by any scan around it; a scan that fails fails all around it.\<close>

lemma ends_past:
  "ends step hi c j (Some e) \<Longrightarrow> ends step hi (Suc e) (Suc d) r \<Longrightarrow> ends step hi c (j + Suc d) r"
proof (induction c j "Some e" rule: ends.induct)
  case (ends_close_last)
  then show ?case by (simp add: ends.ends_close)
next
  case (ends_close c j)
  then show ?case using ends.ends_close [of c hi step "j + Suc d" r] by simp
next
  case (ends_open c j)
  then show ?case by (simp add: ends.ends_open)
qed (simp_all add: ends.ends_skip ends.ends_other)

lemma ends_fail:
  "ends step hi c j None \<Longrightarrow> 0 < j \<or> c < hi \<and> step c = Open \<Longrightarrow> ends step hi c (j + d) None"
proof (induction c j "None :: nat option" rule: ends.induct)
  case (ends_close c j)
  then show ?case using ends.ends_close [of c hi step "j + d" None] by simp
next
  case (ends_open c j)
  then show ?case by (simp add: ends.ends_open)
qed (auto intro: ends.intros)

subsection \<open>The cached scan answers as the plain one\<close>

text \<open>The scan of the \<open>m\<close>-th opener of the stack has come to \<open>c\<close> at depth \<open>m + 1\<close>.\<close>

definition loop_inv ::
  "(nat \<Rightarrow> scan_step) \<Rightarrow> nat \<Rightarrow> nat \<Rightarrow> nat \<Rightarrow> nat list \<Rightarrow> (nat \<times> nat option) list \<Rightarrow> bool" where
  "loop_inv step hi op c stack found \<longleftrightarrow>
     (\<forall>m < length stack. stack ! m < hi \<and> step (stack ! m) = Open \<and>
        (\<forall>r. ends step hi c (Suc m) r \<longrightarrow> ends step hi (stack ! m) 0 r)) \<and>
     (\<forall>(k, r) \<in> set found. answer_ok step hi k r) \<and>
     (if stack = [] then c = op else last stack = op)"

definition loop_post ::
  "(nat \<Rightarrow> scan_step) \<Rightarrow> nat \<Rightarrow> nat \<Rightarrow> (nat option \<times> nat list \<times> (nat \<times> nat option) list) option \<Rightarrow> bool" where
  "loop_post step hi op res \<longleftrightarrow>
     (\<exists>r stack found. res = Some (r, stack, found) \<and> ends step hi op 0 r \<and>
        (\<forall>k \<in> set stack. answer_ok step hi k None) \<and> (\<forall>(k, r) \<in> set found. answer_ok step hi k r))"

lemma loop_inv_advance:
  assumes "loop_inv step hi op c stack found" and "stack \<noteq> []"
    and "\<And>d r. ends step hi c' (Suc d) r \<Longrightarrow> ends step hi c (Suc d) r"
  shows "loop_inv step hi op c' stack found"
  using assms by (simp add: loop_inv_def)

lemma loop_inv_push:
  assumes "loop_inv step hi op c stack found" and "c < hi" and "step c = Open"
  shows "loop_inv step hi op (Suc c) (c # stack) found"
proof -
  have "ends step hi ((c # stack) ! m) 0 r" if "m < length (c # stack)" "ends step hi (Suc c) (Suc m) r" for m r
    using that assms ends_open [of c hi step m r] by (cases m) (auto simp: loop_inv_def)
  then show ?thesis using assms by (auto simp: loop_inv_def nth_Cons' split: if_splits)
qed

lemma loop_inv_pop:
  assumes "loop_inv step hi op c (k # stack) found" and "c < hi" and "step c = Close" and "stack \<noteq> []"
  shows "loop_inv step hi op (Suc c) stack (found @ [(k, Some c)])"
proof -
  have at: "(k # stack) ! m < hi \<and> step ((k # stack) ! m) = Open \<and> (ends step hi c (Suc m) r \<longrightarrow> ends step hi ((k # stack) ! m) 0 r)"
    if "m < Suc (length stack)" for m r
    using assms(1) that by (simp add: loop_inv_def)
  have "answer_ok step hi k (Some c)"
    using at [of 0 "Some c"] ends_close_last [of c hi step] assms(2,3) by (simp add: answer_ok_def)
  moreover have "stack ! m < hi \<and> step (stack ! m) = Open \<and> (ends step hi (Suc c) (Suc m) r \<longrightarrow> ends step hi (stack ! m) 0 r)"
    if "m < length stack" for m r
    using that at [of "Suc m" r] ends_close [of c hi step m r] assms(2,3) by auto
  moreover have "last stack = op" "\<forall>(k, r) \<in> set found. answer_ok step hi k r"
    using assms(1,4) by (simp_all add: loop_inv_def)
  ultimately show ?thesis using assms(4) by (simp add: loop_inv_def)
qed

lemma loop_post_fail:
  assumes "loop_inv step hi op c stack found" and "stack \<noteq> []" and "\<And>d. ends step hi c (Suc d) None"
  shows "loop_post step hi op (Some (None, stack, found))"
proof -
  have ok: "answer_ok step hi (stack ! m) None" if "m < length stack" for m
    using assms(1,3) that by (simp add: loop_inv_def answer_ok_def)
  then have "answer_ok step hi k None" if "k \<in> set stack" for k
    using that by (auto simp: in_set_conv_nth)
  moreover have "ends step hi op 0 None"
    using ok [of "length stack - 1"] assms(1,2) by (simp add: loop_inv_def answer_ok_def last_conv_nth)
  ultimately show ?thesis using assms(1) by (auto simp: loop_post_def loop_inv_def)
qed

lemma find_loop_correct:
  assumes "forward (step hi)" and "memo_ok step memo" and "op < hi" and "step hi op = Open"
    and "loop_inv (step hi) hi op c stack found"
  shows "loop_post (step hi) hi op (find_loop memo op hi (step hi) c stack found)"
  using assms(5)
proof (induction "hi - c" arbitrary: c stack found rule: less_induct)
  case less
  let ?s = "step hi"
  note inv = less(2)
  have go: "loop_post ?s hi op (find_loop memo op hi ?s c' stack' found')"
    if "c < c'" "c < hi" "loop_inv ?s hi op c' stack' found'" for c' stack' found'
    using less(1) [OF _ that(3)] that(1,2) by simp
  show ?case
  proof (cases "hi \<le> c")
    case True
    then have "stack \<noteq> []" using inv assms(3) by (auto simp: loop_inv_def)
    with True inv show ?thesis
      by (subst find_loop.simps) (simp add: loop_post_fail ends_hi)
  next
    case False
    then have c: "c < hi" by simp
    have st: "stack \<noteq> []" if "?s c \<noteq> Open" using inv that assms(4) by (auto simp: loop_inv_def)
    show ?thesis
    proof (cases "?s c")
      case Open
      show ?thesis
      proof (cases "if c = op then None else memo (c, hi)")
        case None
        then show ?thesis
          using c Open go [OF _ c loop_inv_push [OF inv c Open]] by (subst find_loop.simps) simp
      next
        case (Some r)
        then have "c \<noteq> op" "memo (c, hi) = Some r" by (auto split: if_splits)
        then have ne: "stack \<noteq> []" and e: "ends ?s hi c 0 r"
          using inv assms(2) by (auto simp: loop_inv_def memo_ok_def answer_ok_def)
        show ?thesis
        proof (cases r)
          case None
          have "ends ?s hi c (Suc d) None" for d
            using ends_fail [of ?s hi c 0 "Suc d"] e None c Open by simp
          with None Some c Open inv ne show ?thesis
            by (subst find_loop.simps) (simp add: loop_post_fail)
        next
          case (Some close)
          have "loop_inv ?s hi op (Suc close) stack found"
            using ends_past [of ?s hi c 0 close] e Some by (intro loop_inv_advance [OF inv ne]) auto
          moreover have "c < Suc close" using ends_ge [of ?s hi c 0 close] e Some assms(1) by simp
          ultimately show ?thesis
            using \<open>(if c = op then None else memo (c, hi)) = Some r\<close> Some c Open go
            by (subst find_loop.simps) simp
        qed
      qed
    next
      case Close
      then obtain k stack' where stack: "stack = k # stack'" using st by (cases stack) auto
      show ?thesis
      proof (cases "stack' = []")
        case True
        have "ends ?s hi k 0 (Some c)" "k = op"
          using inv ends_close_last [of c hi ?s] c Close by (auto simp: loop_inv_def stack True)
        moreover have "\<forall>(k, r) \<in> set found. answer_ok ?s hi k r" using inv by (simp add: loop_inv_def)
        ultimately show ?thesis
          using c Close True assms(3,4) by (subst find_loop.simps) (auto simp: stack loop_post_def answer_ok_def)
      next
        case False
        then show ?thesis
          using c Close go [OF _ c loop_inv_pop [OF inv [unfolded stack] c Close False]]
          by (subst find_loop.simps) (simp add: stack)
      qed
    next
      case Stop
      with c inv st show ?thesis
        by (subst find_loop.simps) (simp add: loop_post_fail ends_stop)
    next
      case (Skip to)
      show ?thesis
      proof (cases to)
        case None
        with Skip c inv st show ?thesis
          by (subst find_loop.simps) (simp add: loop_post_fail ends_skip_none)
      next
        case (Some k)
        have "c \<le> k" using assms(1) Skip Some by (simp add: forward_def)
        moreover have "loop_inv ?s hi op (Suc k) stack found"
          using st Skip Some c ends_skip [of c hi ?s k] by (intro loop_inv_advance [OF inv]) auto
        ultimately show ?thesis
          using Skip Some c go by (subst find_loop.simps) simp
      qed
    next
      case Other
      have "loop_inv ?s hi op (Suc c) stack found"
        using st Other c ends_other [of c hi ?s] by (intro loop_inv_advance [OF inv]) auto
      then show ?thesis
        using Other c go by (subst find_loop.simps) simp
    qed
  qed
qed

lemma memo_insert_ok:
  "memo_ok step memo \<Longrightarrow> \<forall>(k, r) \<in> set answers. answer_ok (step hi) hi k r \<Longrightarrow> memo_ok step (memo_insert hi answers memo)"
  unfolding memo_insert_def
proof (induction answers arbitrary: memo)
  case (Cons a answers)
  obtain k r where a: "a = (k, r)" by fastforce
  have "memo_ok step (memo((k, hi) \<mapsto> r))"
    using Cons.prems by (auto simp: memo_ok_def a)
  from Cons.IH [OF this] Cons.prems(2) show ?case by (simp add: a del: fun_upd_apply)
qed simp

subsection \<open>Properties\<close>

text \<open>
  C10: looking up an opener through the cache. For steps that never jump backwards and a cache whose
  answers are those of the plain scan, the lookup terminates, answers exactly as the plain scan does,
  and leaves such a cache behind.
\<close>

theorem nested_find_correct:
  assumes "forward (step hi)" and "memo_ok step memo" and "op < hi" and "step hi op = Open"
  shows "\<exists>r memo'. nested_find memo op hi (step hi) = Some (r, memo') \<and> memo_ok step memo' \<and>
    (\<forall>r'. ends (step hi) hi op 0 r' \<longleftrightarrow> r' = r)"
proof (cases "memo (op, hi)")
  case (Some r)
  then have "ends (step hi) hi op 0 r" using assms(2) by (simp add: memo_ok_def answer_ok_def)
  then show ?thesis using Some assms(2) ends_functional by (auto simp: nested_find_def)
next
  case None
  have "loop_inv (step hi) hi op op [] []" by (simp add: loop_inv_def)
  from find_loop_correct [OF assms this] obtain r stack found where
    loop: "find_loop memo op hi (step hi) op [] [] = Some (r, stack, found)" "ends (step hi) hi op 0 r"
      "\<forall>k \<in> set stack. answer_ok (step hi) hi k None" "\<forall>(k, r) \<in> set found. answer_ok (step hi) hi k r"
    by (auto simp: loop_post_def)
  have "memo_ok step (memo_insert hi (map (\<lambda>k. (k, None)) (rev stack)) (memo_insert hi found memo))"
    using loop(3,4) assms(2) by (intro memo_insert_ok) auto
  with loop None show ?thesis using ends_functional by (auto simp: nested_find_def)
qed

text \<open>A list inside a list: the steps of \<open>< < > ;\<close>.\<close>

definition sample_step :: "nat \<Rightarrow> nat \<Rightarrow> scan_step" where
  "sample_step hi c = (if c = 0 \<or> c = 1 then Open else if c = 2 then Close else Stop)"

theorem nested_find_correct_witness:
  "\<exists>memo'. nested_find memo_new 1 4 (sample_step 4) = Some (Some 2, memo')"
proof -
  have "forward (sample_step 4)" by (simp add: forward_def sample_step_def)
  moreover have "memo_ok sample_step memo_new" by (simp add: memo_ok_def memo_new_def)
  moreover have "sample_step 4 1 = Open" by (simp add: sample_step_def)
  moreover have "ends (sample_step 4) 4 1 0 (Some 2)"
    using ends_open [of 1 4 "sample_step 4" 0] ends_close_last [of 2 4 "sample_step 4"]
    by (simp add: sample_step_def numeral_2_eq_2)
  ultimately show ?thesis using nested_find_correct [of sample_step 4 memo_new 1] by auto
qed

end
