(* ===== verification/Traverse.thy ===== *)
theory Traverse
  imports Schema
begin

text \<open>
  The traversals every store shares, crates/graph-store/src/api.rs: \<open>descendants\<close>, \<open>ancestors\<close> and the pages
  of a listing. They are default methods over a backend's \<open>children\<close> and \<open>parent\<close>, which are arguments here.
\<close>

subsection \<open>Descendants and ancestors\<close>

text \<open>
  The stack has its top first, so pushing the reversed children is prepending them. Both loops end because
  a node id seen twice is an error and there are finitely many 64-bit ids.
\<close>

definition below_of :: "(node_id \<Rightarrow> node list result) \<Rightarrow> node \<Rightarrow> node list result" where
  "below_of children n = (if n_kind n \<noteq> Token then children (n_id n) else Inr [])"

lemma unseen_decreases: "x \<notin> seen \<Longrightarrow> card (- insert x seen) < card (- seen)" for x :: u64
  by (rule psubset_card_mono) auto

function descendants_loop ::
  "(node_id \<Rightarrow> node list result) \<Rightarrow> node list \<Rightarrow> node_id set \<Rightarrow> node list \<Rightarrow> node list result" where
  "descendants_loop children stack seen out =
     (case stack of
        [] \<Rightarrow> Inr out
      | n # stack \<Rightarrow>
          if n_id n \<in> seen then
            Inl (Corrupt (''containment cycle at '' @ show_nat (unat (n_id n))))
          else
            bindE (below_of children n)
              (\<lambda>below. descendants_loop children (below @ stack) (insert (n_id n) seen) (out @ [n])))"
  by pat_completeness auto

termination
  by (relation "measure (\<lambda>(children, stack, seen, out). card (- seen))") (simp_all add: unseen_decreases del: Compl_insert)

declare descendants_loop.simps [simp del]

definition descendants :: "(node_id \<Rightarrow> node list result) \<Rightarrow> node_id \<Rightarrow> node list result" where
  "descendants children node = bindE (children node) (\<lambda>ns. descendants_loop children ns {} [])"

function ancestors_loop ::
  "(node_id \<Rightarrow> node option result) \<Rightarrow> node option \<Rightarrow> node_id set \<Rightarrow> node list \<Rightarrow> node list result" where
  "ancestors_loop parent cur seen out =
     (case cur of
        None \<Rightarrow> Inr out
      | Some n \<Rightarrow>
          if n_id n \<in> seen then Inl (Corrupt (''parent cycle at '' @ show_nat (unat (n_id n))))
          else bindE (parent (n_id n)) (\<lambda>cur. ancestors_loop parent cur (insert (n_id n) seen) (out @ [n])))"
  by pat_completeness auto

termination
  by (relation "measure (\<lambda>(parent, cur, seen, out). card (- seen))") (simp_all add: unseen_decreases del: Compl_insert)

declare ancestors_loop.simps [simp del]

definition ancestors :: "(node_id \<Rightarrow> node option result) \<Rightarrow> node_id \<Rightarrow> node list result" where
  "ancestors parent node = bindE (parent node) (\<lambda>cur. ancestors_loop parent cur {} [])"

subsection \<open>Pages\<close>

record 'a page =
  pg_items :: "'a list"
  pg_has_more :: bool

definition page_slice :: "'a list \<Rightarrow> nat \<Rightarrow> nat \<Rightarrow> 'a page result" where
  "page_slice all offset limit =
     (let total = length all
      in if offset \<ge> total then Inr \<lparr>pg_items = [], pg_has_more = False\<rparr>
         else let end' = min (min (offset + limit) (2 ^ 64 - 1)) total;
                  has_more = end' < total
              in Inr \<lparr>pg_items = drop offset (take end' all), pg_has_more = has_more\<rparr>)"

definition children_page :: "(node_id \<Rightarrow> node list result) \<Rightarrow> node_id \<Rightarrow> nat \<Rightarrow> nat \<Rightarrow> node page result" where
  "children_page children node offset limit = bindE (children node) (\<lambda>all. page_slice all offset limit)"

definition descendants_page :: "(node_id \<Rightarrow> node list result) \<Rightarrow> node_id \<Rightarrow> nat \<Rightarrow> nat \<Rightarrow> node page result" where
  "descendants_page children node offset limit = bindE (descendants children node) (\<lambda>all. page_slice all offset limit)"

subsection \<open>Descendants are the preorder listing\<close>

text \<open>
  \<open>forest children ns out\<close>: \<open>out\<close> lists the trees rooted at \<open>ns\<close>, a node before the trees of its children;
  tokens are leaves.
\<close>

inductive forest :: "(node_id \<Rightarrow> node list result) \<Rightarrow> node list \<Rightarrow> node list \<Rightarrow> bool"
  for children :: "node_id \<Rightarrow> node list result" where
  Nil: "forest children [] []"
| Cons: "\<lbrakk>below_of children n = Inr below;
          forest children below sub; forest children ns rest\<rbrakk> \<Longrightarrow> forest children (n # ns) (n # sub @ rest)"

inductive_cases forest_NilE: "forest children [] out"
inductive_cases forest_ConsE: "forest children (n # ns) out"

lemma forest_append:
  "forest children (xs @ ys) out \<longleftrightarrow> (\<exists>a b. out = a @ b \<and> forest children xs a \<and> forest children ys b)"
proof (induction xs arbitrary: out)
  case Nil
  then show ?case by (auto intro: forest.Nil elim: forest_NilE)
next
  case (Cons x xs)
  show ?case
  proof
    assume "forest children ((x # xs) @ ys) out"
    then obtain below sub rest where *: "below_of children x = Inr below"
        "forest children below sub" "forest children (xs @ ys) rest" "out = x # sub @ rest"
      by (auto elim: forest_ConsE)
    then obtain a b where "rest = a @ b" "forest children xs a" "forest children ys b" using Cons.IH by auto
    then show "\<exists>a b. out = a @ b \<and> forest children (x # xs) a \<and> forest children ys b"
      using * forest.Cons [OF *(1,2)] by (metis append_Cons append_assoc)
  next
    assume "\<exists>a b. out = a @ b \<and> forest children (x # xs) a \<and> forest children ys b"
    then obtain b below sub rest where *: "below_of children x = Inr below"
        "forest children below sub" "forest children xs rest" "out = (x # sub @ rest) @ b" "forest children ys b"
      by (auto elim!: forest_ConsE)
    then have "forest children (xs @ ys) (rest @ b)" using Cons.IH by blast
    then show "forest children ((x # xs) @ ys) out" using forest.Cons [OF *(1,2)] *(4) by simp
  qed
qed

lemma forest_step:
  assumes "below_of children n = Inr below"
  shows "forest children (n # ns) out \<longleftrightarrow> (\<exists>new. out = n # new \<and> forest children (below @ ns) new)"
  using assms unfolding forest_append by (auto elim!: forest_ConsE intro: forest.Cons; blast)

lemma descendants_loop_forest:
  "descendants_loop children stack seen out = Inr res \<longleftrightarrow>
     (\<exists>new. res = out @ new \<and> forest children stack new \<and> distinct (map n_id new) \<and> set (map n_id new) \<inter> seen = {})"
proof (induction children stack seen out rule: descendants_loop.induct)
  case (1 children stack seen out)
  show ?case
  proof (cases stack)
    case Nil
    then show ?thesis by (auto simp: descendants_loop.simps intro: forest.Nil elim: forest_NilE)
  next
    case (Cons n ns)
    let ?below = "below_of children n"
    consider "n_id n \<in> seen" | e where "n_id n \<notin> seen" "?below = Inl e" | below where "n_id n \<notin> seen" "?below = Inr below"
      by (cases ?below) auto
    then show ?thesis
    proof cases
      case 1
      then show ?thesis by (auto simp: descendants_loop.simps [of _ "n # ns"] Cons elim!: forest_ConsE)
    next
      case 2
      then show ?thesis by (auto simp: descendants_loop.simps [of _ "n # ns"] Cons elim!: forest_ConsE)
    next
      case (3 below)
      have "descendants_loop children stack seen out =
          descendants_loop children (below @ ns) (insert (n_id n) seen) (out @ [n])"
        unfolding Cons descendants_loop.simps [of _ "n # ns"] list.case 3(2) using 3(1) by simp
      then have "descendants_loop children stack seen out = Inr res \<longleftrightarrow>
          (\<exists>new. res = (out @ [n]) @ new \<and> forest children (below @ ns) new \<and> distinct (map n_id new) \<and>
                 set (map n_id new) \<inter> insert (n_id n) seen = {})"
        using "1.IH" [OF Cons 3] by simp
      also have "\<dots> \<longleftrightarrow> (\<exists>new. res = out @ new \<and> forest children stack new \<and> distinct (map n_id new) \<and>
                 set (map n_id new) \<inter> seen = {})"
        unfolding Cons forest_step [OF 3(2)] using 3(1) by auto
      finally show ?thesis .
    qed
  qed
qed



subsection \<open>Ancestors are the parent chain\<close>

inductive parent_chain :: "(node_id \<Rightarrow> node option result) \<Rightarrow> node option \<Rightarrow> node list \<Rightarrow> bool"
  for parent :: "node_id \<Rightarrow> node option result" where
  Root: "parent_chain parent None []"
| Up: "\<lbrakk>parent (n_id n) = Inr cur; parent_chain parent cur rest\<rbrakk> \<Longrightarrow> parent_chain parent (Some n) (n # rest)"

inductive_simps parent_chain_None [simp]: "parent_chain parent None out"
inductive_simps parent_chain_Some [simp]: "parent_chain parent (Some n) out"

lemma ancestors_loop_chain:
  "ancestors_loop parent cur seen out = Inr res \<longleftrightarrow>
     (\<exists>new. res = out @ new \<and> parent_chain parent cur new \<and> distinct (map n_id new) \<and> set (map n_id new) \<inter> seen = {})"
proof (induction parent cur seen out rule: ancestors_loop.induct)
  case (1 parent cur seen out)
  show ?case
  proof (cases cur)
    case None
    then show ?thesis by (auto simp: ancestors_loop.simps)
  next
    case (Some n)
    show ?thesis
    proof (cases "n_id n \<in> seen \<or> (\<exists>e. parent (n_id n) = Inl e)")
      case True
      then show ?thesis by (auto simp: ancestors_loop.simps [of _ "Some n"] Some)
    next
      case False
      then obtain c where c: "parent (n_id n) = Inr c" "n_id n \<notin> seen" by (cases "parent (n_id n)") auto
      have "ancestors_loop parent cur seen out = ancestors_loop parent c (insert (n_id n) seen) (out @ [n])"
        using c by (simp add: Some ancestors_loop.simps [of _ "Some n"])
      then show ?thesis using "1.IH" [OF Some c(2), of c] c by (auto simp: Some)
    qed
  qed
qed

subsection \<open>Reading page by page\<close>

text \<open>A caller that asks for the next page as long as \<open>has_more\<close> says so.\<close>

partial_function (option) read_pages :: "(nat \<Rightarrow> 'a page result) \<Rightarrow> nat \<Rightarrow> 'a list option" where
  "read_pages page_at offset =
     (case page_at offset of
        Inl e \<Rightarrow> Some []
      | Inr p \<Rightarrow>
          if pg_has_more p then
            Option.bind (read_pages page_at (offset + length (pg_items p))) (\<lambda>rest. Some (pg_items p @ rest))
          else Some (pg_items p))"

declare read_pages.simps [code]

lemma page_slice_eq:
  assumes "length all < 2 ^ 64" and "offset \<le> length all"
  shows "page_slice all offset limit =
    Inr \<lparr>pg_items = take limit (drop offset all), pg_has_more = (offset + limit < length all)\<rparr>"
proof -
  have "min (min (offset + limit) (2 ^ 64 - 1)) (length all) = min (offset + limit) (length all)"
    using assms(1) by linarith
  then show ?thesis using assms(2) by (simp add: page_slice_def Let_def drop_take min_def)
qed

lemma read_pages_all:
  assumes "0 < limit" and "length all < 2 ^ 64"
  shows "offset \<le> length all \<Longrightarrow> read_pages (\<lambda>offset. page_slice all offset limit) offset = Some (drop offset all)"
proof (induction "length all - offset" arbitrary: offset rule: less_induct)
  case less
  note eq = read_pages.simps [of _ offset] page_slice_eq [OF assms(2) less.prems]
  show ?case
  proof (cases "offset + limit < length all")
    case True
    then have IH: "read_pages (\<lambda>offset. page_slice all offset limit) (offset + limit) = Some (drop (offset + limit) all)"
      using less.hyps [of "offset + limit"] assms(1) by simp
    have "take limit (drop offset all) @ drop (offset + limit) all = drop offset all"
      by (metis add.commute append_take_drop_id drop_drop)
    moreover have "min (length all - offset) limit = limit" using True by linarith
    ultimately show ?thesis using True IH unfolding eq by simp
  next
    case False
    then show ?thesis unfolding eq by simp
  qed
qed

subsection \<open>Properties\<close>

text \<open>
  C27: the traversals return on every store, cyclic links included, and what they return is exact.
  \<open>descendants\<close> succeeds with a list exactly when the list is the depth-first listing of the trees under the
  node, every node before its children and siblings in order, and no node occurs twice; \<open>ancestors\<close>
  succeeds exactly with the chain of parents when it has no repetition. A cycle is always an error.
\<close>

theorem traversals_exact:
  "(descendants children node = Inr out \<longleftrightarrow>
      (\<exists>ns. children node = Inr ns \<and> forest children ns out \<and> distinct (map n_id out)))
   \<and> (ancestors parent node = Inr up \<longleftrightarrow>
      (\<exists>cur. parent node = Inr cur \<and> parent_chain parent cur up \<and> distinct (map n_id up)))"
  unfolding descendants_def ancestors_def
  by (cases "children node"; cases "parent node") (simp_all add: descendants_loop_forest ancestors_loop_chain)

text \<open>
  C28: reading page by page ends and loses nothing. With any positive page size, a caller that follows
  \<open>has_more\<close> from offset 0 through the descendants of a node gets to the last page, and the pages joined are
  the full listing.
\<close>

theorem descendants_pages_complete:
  assumes "0 < limit" and "length all < 2 ^ 64" and "descendants children node = Inr all"
  shows "read_pages (\<lambda>offset. descendants_page children node offset limit) 0 = Some all"
  using read_pages_all [OF assms(1,2), of 0] by (simp add: descendants_page_def assms(3))

definition sample_node :: "node_id \<Rightarrow> node" where
  "sample_node i = \<lparr>n_id = i, n_parent = None, n_kind = Symbol, n_name = [], n_language = None, n_symbol_kind = None,
     n_lang_kind = None, n_token_class = None, n_has_errors = False, n_origin = None, n_fingerprint = None,
     n_encoding = None, n_lossy = False, n_span = None\<rparr>"

definition sample_children :: "node_id \<Rightarrow> node list result" where
  "sample_children i = Inr (if i = 1 then [sample_node 2, sample_node 4] else if i = 2 then [sample_node 3] else [])"

theorem descendants_pages_complete_witness:
  "read_pages (\<lambda>offset. descendants_page sample_children 1 offset 2) 0 =
     Some [sample_node 2, sample_node 3, sample_node 4]"
proof (rule descendants_pages_complete)
  show "descendants sample_children 1 = Inr [sample_node 2, sample_node 3, sample_node 4]"
    by (simp add: descendants_def descendants_loop.simps below_of_def sample_children_def sample_node_def)
qed simp_all

end
