(* ===== verification/Encoding.thy ===== *)
theory Encoding
  imports Utf8
begin

text \<open>
  Source decoding, crates/graph-core/src/encoding.rs: the order in which a file's encoding is decided, the
  sniff for UTF-16 without a byte order mark, and the binary test. The decoders and the detector are those
  of the packages encoding_rs and chardetng: parameters, gathered in the record \<open>codecs\<close>.
\<close>

subsection \<open>Encodings and decoders\<close>

datatype encoding =
    UTF_8 | UTF_16LE | UTF_16BE | REPLACEMENT
  | WINDOWS_1250 | WINDOWS_1251 | WINDOWS_1252 | WINDOWS_1253 | WINDOWS_1254 | WINDOWS_1255 | WINDOWS_1256
  | WINDOWS_1257 | WINDOWS_1258 | WINDOWS_874
  | ISO_8859_2 | ISO_8859_3 | ISO_8859_4 | ISO_8859_5 | ISO_8859_6 | ISO_8859_7 | ISO_8859_8 | ISO_8859_8_I
  | ISO_8859_10 | ISO_8859_13 | ISO_8859_14 | ISO_8859_15 | ISO_8859_16
  | KOI8_R | KOI8_U | IBM866 | SHIFT_JIS | EUC_JP | ISO_2022_JP | EUC_KR | GBK | GB18030 | BIG5
  | OtherEncoding string

record codecs =
  cd_for_bom :: "u8 list \<Rightarrow> encoding option"
  cd_decode :: "encoding \<Rightarrow> u8 list \<Rightarrow> uchar list \<times> bool"
  cd_strict :: "encoding \<Rightarrow> u8 list \<Rightarrow> uchar list option"
  cd_guess :: "u8 list \<Rightarrow> encoding"
  cd_for_label :: "string \<Rightarrow> encoding option"
  cd_name :: "encoding \<Rightarrow> string"

definition DECODER_VERSION :: nat where
  "DECODER_VERSION = 1"

definition UTF16_SNIFF_WINDOW :: nat where
  "UTF16_SNIFF_WINDOW = 4096"

record decoded =
  dc_text :: "uchar list"
  dc_encoding :: encoding
  dc_lossy :: bool

datatype encoding_error = UnknownLabel string | Replacement string | UnmappedCodePage nat

definition decode_with :: "codecs \<Rightarrow> encoding \<Rightarrow> u8 list \<Rightarrow> decoded" where
  "decode_with cd encoding bytes =
     (let (text, lossy) = cd_decode cd encoding bytes
      in \<lparr>dc_text = text, dc_encoding = encoding, dc_lossy = lossy\<rparr>)"

definition DETECTABLE :: "encoding list" where
  "DETECTABLE =
     [WINDOWS_1250, WINDOWS_1251, WINDOWS_1252, WINDOWS_1253, WINDOWS_1254, WINDOWS_1255, WINDOWS_1256,
      WINDOWS_1257, WINDOWS_1258, WINDOWS_874, ISO_8859_2, ISO_8859_3, ISO_8859_4, ISO_8859_5, ISO_8859_6,
      ISO_8859_7, ISO_8859_8, ISO_8859_8_I, ISO_8859_10, ISO_8859_13, ISO_8859_14, ISO_8859_15, ISO_8859_16,
      KOI8_R, KOI8_U, IBM866, SHIFT_JIS, EUC_JP, ISO_2022_JP, EUC_KR, GBK, GB18030, BIG5]"

definition is_detectable :: "encoding \<Rightarrow> bool" where
  "is_detectable e \<longleftrightarrow> e \<in> set DETECTABLE"

subsection \<open>Sniffs\<close>

text \<open>Every second element, from the first (\<open>step_by(2)\<close>).\<close>

fun every_second :: "'a list \<Rightarrow> 'a list" where
  "every_second [] = []"
| "every_second [x] = [x]"
| "every_second (x # _ # xs) = x # every_second xs"

definition count_nuls :: "u8 list \<Rightarrow> nat" where
  "count_nuls bs = length (filter (\<lambda>b. b = 0) bs)"

definition clean_text :: "uchar list \<Rightarrow> bool" where
  "clean_text text \<longleftrightarrow> \<not> list_ex (\<lambda>c. c < 0x20 \<and> c \<notin> {9, 10, 12, 13}) text"

definition utf16_candidate :: "codecs \<Rightarrow> u8 list \<Rightarrow> nat \<Rightarrow> nat \<Rightarrow> nat \<Rightarrow> encoding \<Rightarrow> (nat \<times> encoding) option" where
  "utf16_candidate cd bytes units high low encoding =
     (let ascii_heavy = high * 2 \<ge> units;
          cjk = from_utf8 bytes = None \<and> high > 0 \<and> high * 64 \<ge> units
      in if \<not> (ascii_heavy \<or> cjk) \<or> low * 16 \<ge> units then None
         else case cd_strict cd encoding bytes of
           None \<Rightarrow> None
         | Some text \<Rightarrow> if clean_text text then Some (high, encoding) else None)"

definition sniff_utf16 :: "codecs \<Rightarrow> u8 list \<Rightarrow> encoding option" where
  "sniff_utf16 cd bytes =
     (let window = take (min (length bytes) UTF16_SNIFF_WINDOW div 2 * 2) bytes
      in if window = [] then None
         else
           let units = length window div 2;
               even_nuls = count_nuls (every_second window);
               odd_nuls = count_nuls (every_second (drop 1 window));
               be = utf16_candidate cd bytes units even_nuls odd_nuls UTF_16BE;
               le = utf16_candidate cd bytes units odd_nuls even_nuls UTF_16LE
           in case (le, be) of
                (Some l, Some b) \<Rightarrow> Some (if fst b > fst l then snd b else snd l)
              | (Some l, None) \<Rightarrow> Some (snd l)
              | (None, b) \<Rightarrow> map_option snd b)"

fun windows3 :: "'a list \<Rightarrow> ('a \<times> 'a \<times> 'a) list" where
  "windows3 (a # b # c # xs) = (a, b, c) # windows3 (b # c # xs)"
| "windows3 _ = []"

definition looks_like_iso_2022_jp :: "u8 list \<Rightarrow> bool" where
  "looks_like_iso_2022_jp bytes \<longleftrightarrow>
     list_all (\<lambda>b. b < 0x80) bytes \<and>
     list_ex (\<lambda>w. w = (0x1B, 0x24, 0x40) \<or> w = (0x1B, 0x24, 0x42)) (windows3 bytes)"

subsection \<open>Decoding\<close>

definition decode :: "codecs \<Rightarrow> u8 list \<Rightarrow> encoding option \<Rightarrow> decoded" where
  "decode cd bytes hint =
     (case cd_for_bom cd bytes of
        Some encoding \<Rightarrow> decode_with cd encoding bytes
      | None \<Rightarrow>
          case (if hint = Some REPLACEMENT then None else hint) of
            Some encoding \<Rightarrow> decode_with cd encoding bytes
          | None \<Rightarrow>
              case sniff_utf16 cd bytes of
                Some encoding \<Rightarrow> decode_with cd encoding bytes
              | None \<Rightarrow>
                  case (if looks_like_iso_2022_jp bytes then cd_strict cd ISO_2022_JP bytes else None) of
                    Some text \<Rightarrow> \<lparr>dc_text = text, dc_encoding = ISO_2022_JP, dc_lossy = False\<rparr>
                  | None \<Rightarrow>
                      case from_utf8 bytes of
                        Some s \<Rightarrow> \<lparr>dc_text = chars_of s, dc_encoding = UTF_8, dc_lossy = False\<rparr>
                      | None \<Rightarrow>
                          let guess = cd_guess cd bytes
                          in case (if is_detectable guess then cd_strict cd guess bytes else None) of
                               Some text \<Rightarrow> \<lparr>dc_text = text, dc_encoding = guess, dc_lossy = False\<rparr>
                             | None \<Rightarrow> decode_with cd WINDOWS_1252 bytes)"

definition is_binary_with_hint :: "codecs \<Rightarrow> u8 list \<Rightarrow> encoding option \<Rightarrow> bool" where
  "is_binary_with_hint cd bytes hint \<longleftrightarrow>
     0 \<in> set bytes \<and> cd_for_bom cd bytes = None \<and> hint \<notin> {Some UTF_16LE, Some UTF_16BE} \<and>
     sniff_utf16 cd bytes = None"

definition is_binary :: "codecs \<Rightarrow> u8 list \<Rightarrow> bool" where
  "is_binary cd bytes = is_binary_with_hint cd bytes None"

subsection \<open>Hints\<close>

definition trim :: "uchar list \<Rightarrow> uchar list" where
  "trim s = trim_end_where is_whitespace (dropWhile is_whitespace s)"

definition hint_from_label :: "codecs \<Rightarrow> string \<Rightarrow> encoding_error + encoding" where
  "hint_from_label cd label =
     (case cd_for_label cd (str_of (trim (chars_of label))) of
        Some e \<Rightarrow> if e = REPLACEMENT then Inl (Replacement label) else Inr e
      | None \<Rightarrow> Inl (UnknownLabel label))"

definition encoding_for_code_page :: "nat \<Rightarrow> encoding option" where
  "encoding_for_code_page code_page =
     map_of
       [(874, WINDOWS_874), (932, SHIFT_JIS), (936, GBK), (949, EUC_KR), (950, BIG5), (1250, WINDOWS_1250),
        (1251, WINDOWS_1251), (1252, WINDOWS_1252), (1253, WINDOWS_1253), (1254, WINDOWS_1254),
        (1255, WINDOWS_1255), (1256, WINDOWS_1256), (1257, WINDOWS_1257), (1258, WINDOWS_1258)]
       code_page"

text \<open>The system code page is an argument on Windows; elsewhere it does not matter.\<close>

definition resolve_ansi_impl :: "nat option \<Rightarrow> encoding_error + encoding" where
  "resolve_ansi_impl acp =
     (case acp of
        None \<Rightarrow> Inr WINDOWS_1252
      | Some code_page \<Rightarrow>
          (case encoding_for_code_page code_page of
             Some e \<Rightarrow> Inr e
           | None \<Rightarrow> Inl (UnmappedCodePage code_page)))"

subsection \<open>Lemmas\<close>

lemma utf16_candidate_Some:
  "utf16_candidate cd bytes units high low e = Some r \<Longrightarrow>
     r = (high, e) \<and> (\<exists>text. cd_strict cd e bytes = Some text \<and> clean_text text)"
  by (auto simp: utf16_candidate_def Let_def split: if_splits option.splits)

lemma sniff_utf16_Some:
  assumes "sniff_utf16 cd bytes = Some e"
  shows "e \<in> {UTF_16LE, UTF_16BE} \<and> (\<exists>text. cd_strict cd e bytes = Some text \<and> clean_text text)"
  using assms
  by (auto simp: sniff_utf16_def Let_def split: if_splits option.splits dest!: utf16_candidate_Some)

text \<open>
  What the packages document: a decoder without replacement succeeds exactly when the decoder with
  replacement reports no error, with the same text, and windows-1252 maps every byte.
\<close>

definition codecs_ok :: "codecs \<Rightarrow> bool" where
  "codecs_ok cd \<longleftrightarrow>
     (\<forall>e bytes. cd_strict cd e bytes =
        (if snd (cd_decode cd e bytes) then None else Some (fst (cd_decode cd e bytes)))) \<and>
     (\<forall>bytes. \<not> snd (cd_decode cd WINDOWS_1252 bytes))"

lemma codecs_ok_strict:
  "\<lbrakk>codecs_ok cd; cd_strict cd e bytes = Some text\<rbrakk> \<Longrightarrow> cd_decode cd e bytes = (text, False)"
  by (auto simp: codecs_ok_def prod_eq_iff split: if_splits)

subsection \<open>Properties\<close>

text \<open>
  C18: Replacement characters come only from a byte order mark or a hint: without either, the decode of
  any bytes is clean, the text is what a decoder without replacement gives for the reported encoding,
  and bytes that are valid UTF-8 and match neither sniff keep their characters unchanged.
\<close>

theorem decode_clean:
  assumes "codecs_ok cd" "cd_for_bom cd bytes = None" "hint = None \<or> hint = Some REPLACEMENT"
  shows "\<not> dc_lossy (decode cd bytes hint)
    \<and> (dc_encoding (decode cd bytes hint) \<noteq> UTF_8 \<longrightarrow>
         cd_strict cd (dc_encoding (decode cd bytes hint)) bytes = Some (dc_text (decode cd bytes hint)))
    \<and> (dc_encoding (decode cd bytes hint) = UTF_8 \<longrightarrow>
         str_of (dc_text (decode cd bytes hint)) = of_bytes bytes)"
proof -
  have w: "cd_strict cd WINDOWS_1252 bytes = Some (fst (cd_decode cd WINDOWS_1252 bytes))"
      "\<not> snd (cd_decode cd WINDOWS_1252 bytes)"
    using assms(1) by (simp_all add: codecs_ok_def)
  have det: "\<not> is_detectable UTF_8" by (simp add: is_detectable_def DETECTABLE_def)
  show ?thesis
  proof (cases "sniff_utf16 cd bytes")
    case (Some e)
    then obtain tx where "e \<noteq> UTF_8" "cd_strict cd e bytes = Some tx"
      using sniff_utf16_Some [OF Some] by auto
    then show ?thesis using Some assms codecs_ok_strict [OF assms(1)]
      by (auto simp: decode_def decode_with_def)
  next
    case None
    then show ?thesis using assms w det
      by (auto simp: decode_def decode_with_def Let_def split_beta from_utf8_Some split: option.splits if_splits)
  qed
qed

definition ascii_codecs :: codecs where
  "ascii_codecs =
     \<lparr>cd_for_bom = (\<lambda>_. None),
      cd_decode = (\<lambda>_ bs. (map unat bs, False)),
      cd_strict = (\<lambda>_ bs. Some (map unat bs)),
      cd_guess = (\<lambda>_. WINDOWS_1252),
      cd_for_label = (\<lambda>_. None),
      cd_name = (\<lambda>_. ''x'')\<rparr>"

theorem decode_clean_witness: "\<not> dc_lossy (decode ascii_codecs [104, 105] None)"
proof -
  have "codecs_ok ascii_codecs" "cd_for_bom ascii_codecs [104, 105] = None"
    by (simp_all add: codecs_ok_def ascii_codecs_def)
  then show ?thesis using decode_clean by blast
qed

text \<open>
  The binary test and the decoder agree: a file without a byte order mark or hint that holds a NUL
  byte and is not skipped as binary is decoded as UTF-16, to a text with no control character but tab,
  line feed, form feed and carriage return, so no NUL ever reaches the tokenizer from such a file.
\<close>

theorem not_binary_utf16:
  assumes "codecs_ok cd" "cd_for_bom cd bytes = None" "\<not> is_binary cd bytes" "0 \<in> set bytes"
  shows "dc_encoding (decode cd bytes None) \<in> {UTF_16LE, UTF_16BE}
    \<and> clean_text (dc_text (decode cd bytes None)) \<and> 0 \<notin> set (dc_text (decode cd bytes None))"
proof -
  obtain e where e: "sniff_utf16 cd bytes = Some e"
    using assms(2-4) by (auto simp: is_binary_def is_binary_with_hint_def)
  obtain tx where t: "e \<in> {UTF_16LE, UTF_16BE}" "cd_strict cd e bytes = Some tx" "clean_text tx"
    using sniff_utf16_Some [OF e] by blast
  have "dc_encoding (decode cd bytes None) = e" "dc_text (decode cd bytes None) = tx"
    using e assms(2) codecs_ok_strict [OF assms(1) t(2)] by (simp_all add: decode_def decode_with_def)
  moreover have "0 \<notin> set tx" using t(3) by (auto simp: clean_text_def list_ex_iff)
  ultimately show ?thesis using t by simp
qed

theorem not_binary_utf16_witness:
  "dc_encoding (decode (ascii_codecs\<lparr>cd_strict := (\<lambda>_ _. Some [104]), cd_decode := (\<lambda>_ _. ([104], False))\<rparr>) [104, 0] None)
     \<in> {UTF_16LE, UTF_16BE}"
proof -
  let ?cd = "ascii_codecs\<lparr>cd_strict := (\<lambda>_ _. Some [104]), cd_decode := (\<lambda>_ _. ([104], False))\<rparr>"
  have "codecs_ok ?cd" "cd_for_bom ?cd [104, 0] = None" by (simp_all add: codecs_ok_def ascii_codecs_def)
  moreover have "\<not> is_binary ?cd [104, 0]" by code_simp
  ultimately show ?thesis using not_binary_utf16 [of ?cd "[104, 0]"] by simp
qed

end
