(* ===== verification/Lex_Options.thy ===== *)
theory Lex_Options
  imports Schema Utf8
begin

text \<open>
  The switches of the tokenizer, crates/graph-core/src/tokenizer.rs: the options record with the
  source's field names, the default with every switch off, and the named dialects.
\<close>

datatype fixed_layout = Cobol | Rpg

record tokenizer_options =
  rust_literals :: bool
  single_quote_strings :: bool
  csharp_strings :: bool
  markup :: bool
  aspx :: bool
  regex_literals :: bool
  no_line_slash_comments :: bool
  no_block_slash_comments :: bool
  hash_comments :: bool
  hash_comments_line_start_only :: bool
  dash_comments :: bool
  haskell_block_comments :: bool
  ml_block_comments :: bool
  semicolon_comments :: bool
  triple_quote_strings :: bool
  triple_quote_raw :: bool
  doubled_single_quotes :: bool
  prime_idents :: bool
  raw_backtick_strings :: bool
  sql_strings :: bool
  shell_words :: bool
  hyphen_idents :: bool
  fixed_columns :: "fixed_layout option"
  python_string_prefixes :: bool
  r_raw_strings :: bool
  sql_hash_comments :: bool
  rpg_compile_time_data :: bool

definition DEFAULT :: tokenizer_options where
  "DEFAULT =
     \<lparr>rust_literals = False,
      single_quote_strings = False,
      csharp_strings = False,
      markup = False,
      aspx = False,
      regex_literals = False,
      no_line_slash_comments = False,
      no_block_slash_comments = False,
      hash_comments = False,
      hash_comments_line_start_only = False,
      dash_comments = False,
      haskell_block_comments = False,
      ml_block_comments = False,
      semicolon_comments = False,
      triple_quote_strings = False,
      triple_quote_raw = False,
      doubled_single_quotes = False,
      prime_idents = False,
      raw_backtick_strings = False,
      sql_strings = False,
      shell_words = False,
      hyphen_idents = False,
      fixed_columns = None,
      python_string_prefixes = False,
      r_raw_strings = False,
      sql_hash_comments = False,
      rpg_compile_time_data = False\<rparr>"

definition dialect_RUST :: tokenizer_options where
  "dialect_RUST = DEFAULT\<lparr>rust_literals := True\<rparr>"

definition dialect_CSHARP :: tokenizer_options where
  "dialect_CSHARP = DEFAULT\<lparr>csharp_strings := True\<rparr>"

definition dialect_JAVASCRIPT :: tokenizer_options where
  "dialect_JAVASCRIPT = DEFAULT\<lparr>single_quote_strings := True, regex_literals := True\<rparr>"

definition dialect_TYPESCRIPT :: tokenizer_options where
  "dialect_TYPESCRIPT = dialect_JAVASCRIPT"

definition dialect_HTML :: tokenizer_options where
  "dialect_HTML = DEFAULT\<lparr>markup := True\<rparr>"

definition dialect_ASPX :: tokenizer_options where
  "dialect_ASPX = DEFAULT\<lparr>csharp_strings := True, markup := True, aspx := True\<rparr>"

definition dialect_C :: tokenizer_options where
  "dialect_C = DEFAULT"

definition dialect_CPP :: tokenizer_options where
  "dialect_CPP = DEFAULT"

definition dialect_JAVA :: tokenizer_options where
  "dialect_JAVA = DEFAULT\<lparr>triple_quote_strings := True\<rparr>"

definition dialect_GO :: tokenizer_options where
  "dialect_GO = DEFAULT\<lparr>raw_backtick_strings := True\<rparr>"

definition dialect_SCALA :: tokenizer_options where
  "dialect_SCALA = DEFAULT\<lparr>triple_quote_strings := True, triple_quote_raw := True\<rparr>"

definition dialect_PYTHON :: tokenizer_options where
  "dialect_PYTHON = DEFAULT\<lparr>single_quote_strings := True, no_line_slash_comments := True,
     no_block_slash_comments := True, hash_comments := True, triple_quote_strings := True,
     python_string_prefixes := True\<rparr>"

definition dialect_GDSCRIPT :: tokenizer_options where
  "dialect_GDSCRIPT = dialect_PYTHON"

definition dialect_SHELL :: tokenizer_options where
  "dialect_SHELL = DEFAULT\<lparr>no_line_slash_comments := True, no_block_slash_comments := True,
     hash_comments := True, shell_words := True\<rparr>"

definition dialect_R :: tokenizer_options where
  "dialect_R = DEFAULT\<lparr>single_quote_strings := True, no_line_slash_comments := True,
     no_block_slash_comments := True, hash_comments := True, raw_backtick_strings := True, r_raw_strings
     := True\<rparr>"

definition dialect_SQL :: tokenizer_options where
  "dialect_SQL = DEFAULT\<lparr>no_line_slash_comments := True, dash_comments := True, sql_strings :=
     True, sql_hash_comments := True\<rparr>"

definition dialect_HASKELL :: tokenizer_options where
  "dialect_HASKELL = DEFAULT\<lparr>prime_idents := True, no_line_slash_comments := True,
     no_block_slash_comments := True, dash_comments := True, haskell_block_comments := True\<rparr>"

definition dialect_FSHARP :: tokenizer_options where
  "dialect_FSHARP = DEFAULT\<lparr>no_block_slash_comments := True, ml_block_comments := True,
     triple_quote_strings := True, triple_quote_raw := True, prime_idents := True\<rparr>"

definition dialect_ELIXIR :: tokenizer_options where
  "dialect_ELIXIR = DEFAULT\<lparr>single_quote_strings := True, no_line_slash_comments := True,
     no_block_slash_comments := True, hash_comments := True, triple_quote_strings := True\<rparr>"

definition dialect_ASM :: tokenizer_options where
  "dialect_ASM = DEFAULT\<lparr>doubled_single_quotes := True, hash_comments := True,
     hash_comments_line_start_only := True, semicolon_comments := True\<rparr>"

definition dialect_COBOL :: tokenizer_options where
  "dialect_COBOL = DEFAULT\<lparr>doubled_single_quotes := True, no_line_slash_comments := True,
     no_block_slash_comments := True, hyphen_idents := True, fixed_columns := Some Cobol\<rparr>"

definition dialect_RPG :: tokenizer_options where
  "dialect_RPG = DEFAULT\<lparr>doubled_single_quotes := True, no_block_slash_comments := True,
     hyphen_idents := True, fixed_columns := Some Rpg, rpg_compile_time_data := True\<rparr>"

end
