(* ===== verification/Lex_Rules.thy ===== *)
theory Lex_Rules
  imports Lex_Options "HOL-Library.Sublist"
begin

text \<open>
  The length functions of the tokenizer, crates/graph-core/src/tokenizer.rs: how far each literal,
  comment and name form runs. The source text is the list of its scalar values, and a position is a
  character index; the source's byte offsets all lie on character boundaries, so the two count the same
  places, and the byte offsets are computed where a span is made. The scans the source runs over bytes
  compare with ASCII only, which no continuation byte equals. The alphabetic and numeric tables of
  Unicode are parameters.
\<close>

subsection \<open>Characters\<close>

record unicode =
  is_alphabetic :: "uchar \<Rightarrow> bool"
  is_numeric :: "uchar \<Rightarrow> bool"

definition is_alphanumeric :: "unicode \<Rightarrow> uchar \<Rightarrow> bool" where
  "is_alphanumeric ut c \<longleftrightarrow> is_alphabetic ut c \<or> is_numeric ut c"

abbreviation uc :: "char \<Rightarrow> uchar" where
  "uc c \<equiv> of_char c"

abbreviation BOM :: uchar where
  "BOM \<equiv> 0xFEFF"

definition is_ascii_alphabetic :: "uchar \<Rightarrow> bool" where
  "is_ascii_alphabetic c \<longleftrightarrow> 65 \<le> c \<and> c \<le> 90 \<or> 97 \<le> c \<and> c \<le> 122"

definition is_ascii_digit :: "uchar \<Rightarrow> bool" where
  "is_ascii_digit c \<longleftrightarrow> 48 \<le> c \<and> c \<le> 57"

definition is_ascii_alphanumeric :: "uchar \<Rightarrow> bool" where
  "is_ascii_alphanumeric c \<longleftrightarrow> is_ascii_alphabetic c \<or> is_ascii_digit c"

definition lower_uchar :: "uchar \<Rightarrow> uchar" where
  "lower_uchar c = (if 65 \<le> c \<and> c \<le> 90 then c + 32 else c)"

definition upper_uchar :: "uchar \<Rightarrow> uchar" where
  "upper_uchar c = (if 97 \<le> c \<and> c \<le> 122 then c - 32 else c)"

definition is_gap :: "uchar \<Rightarrow> bool" where
  "is_gap c \<longleftrightarrow> is_whitespace c \<or> c = BOM"

definition OPERATOR_CHARS :: "uchar list" where
  "OPERATOR_CHARS = uchars ''+-*/%=<>!&|^~?@''"

subsection \<open>Searching\<close>

definition slice :: "'a list \<Rightarrow> nat \<Rightarrow> nat \<Rightarrow> 'a list" where
  "slice s a b = take (b - a) (drop a s)"

fun find_sub :: "'a list \<Rightarrow> 'a list \<Rightarrow> nat option" where
  "find_sub pat [] = (if pat = [] then Some 0 else None)"
| "find_sub pat (c # cs) =
     (if prefix pat (c # cs) then Some 0 else map_option Suc (find_sub pat cs))"

definition or_len :: "'a list \<Rightarrow> nat option \<Rightarrow> nat" where
  "or_len rest p = (case p of Some n \<Rightarrow> n | None \<Rightarrow> length rest)"

definition starts_with_where :: "('a \<Rightarrow> bool) \<Rightarrow> 'a list \<Rightarrow> bool" where
  "starts_with_where p s \<longleftrightarrow> (case s of [] \<Rightarrow> False | c # _ \<Rightarrow> p c)"

subsection \<open>Comments and quoted forms\<close>

definition line_len :: "uchar list \<Rightarrow> nat" where
  "line_len rest =
     (let line = or_len rest (position (\<lambda>c. c = 10) rest)
      in if suffix [13] (take line rest) \<and> line > 1 then line - 1 else line)"

fun nested_loop :: "uchar list \<Rightarrow> uchar list \<Rightarrow> nat \<Rightarrow> nat \<Rightarrow> uchar list \<Rightarrow> nat option" where
  "nested_loop opn cls depth p [] = None"
| "nested_loop opn cls depth p (c # cs) =
     (if prefix opn (c # cs) then nested_loop opn cls (depth + 1) (p + length opn) (drop (length opn - 1) cs)
      else if prefix cls (c # cs) then
        (if depth - 1 = 0 then Some (p + length cls)
         else nested_loop opn cls (depth - 1) (p + length cls) (drop (length cls - 1) cs))
      else nested_loop opn cls depth (p + 1) cs)"

definition nested_len :: "uchar list \<Rightarrow> string \<Rightarrow> string \<Rightarrow> nat" where
  "nested_len rest opn cls = or_len rest (nested_loop (uchars opn) (uchars cls) 0 0 rest)"

fun triple_loop :: "uchar list \<Rightarrow> bool \<Rightarrow> bool \<Rightarrow> nat \<Rightarrow> uchar list \<Rightarrow> nat option" where
  "triple_loop q raw esc p [] = None"
| "triple_loop q raw esc p (ch # cs) =
     (if esc then triple_loop q raw False (p + 1) cs
      else if ch = 0x5C \<and> \<not> raw then triple_loop q raw True (p + 1) cs
      else if prefix q (ch # cs) then Some (p + 3)
      else triple_loop q raw False (p + 1) cs)"

definition triple_quoted_len :: "uchar list \<Rightarrow> bool \<Rightarrow> nat option" where
  "triple_quoted_len rest raw =
     map_option (\<lambda>q. or_len rest (triple_loop q raw False 3 (drop 3 rest)))
       (find (\<lambda>q. prefix q rest) [[0x22, 0x22, 0x22], [0x27, 0x27, 0x27]])"

fun doubled_loop :: "uchar \<Rightarrow> nat \<Rightarrow> uchar list \<Rightarrow> nat option" where
  "doubled_loop q p [] = None"
| "doubled_loop q p (c # cs) =
     (if c = q then
        (if cs \<noteq> [] \<and> hd cs = q then doubled_loop q (p + 2) (tl cs) else Some (p + 1))
      else doubled_loop q (p + 1) cs)"

definition doubled_len :: "uchar list \<Rightarrow> nat" where
  "doubled_len rest = or_len rest (doubled_loop (hd rest) 1 (tl rest))"

definition sql_bracket_len :: "unicode \<Rightarrow> uchar list \<Rightarrow> nat option" where
  "sql_bracket_len ut rest =
     (case tl rest of
        [] \<Rightarrow> None
      | first # _ \<Rightarrow>
          if \<not> (is_alphabetic ut first \<or> first \<in> set (uchars ''_@# '')) then None
          else
            let body = slice rest 1 (line_len rest)
            in case position (\<lambda>c. c = uc CHR '']'') body of
                 None \<Rightarrow> None
               | Some close \<Rightarrow>
                   if uc CHR ''['' \<in> set (take close body) then None else Some (close + 2))"

fun quoted_loop :: "uchar \<Rightarrow> bool \<Rightarrow> nat \<Rightarrow> uchar list \<Rightarrow> nat option" where
  "quoted_loop q esc p [] = None"
| "quoted_loop q esc p (ch # cs) =
     (if esc then quoted_loop q False (p + 1) cs
      else if ch = 0x5C then quoted_loop q True (p + 1) cs
      else if ch = q then Some (p + 1)
      else quoted_loop q False (p + 1) cs)"

definition quoted_len :: "uchar list \<Rightarrow> uchar \<Rightarrow> nat" where
  "quoted_len rest q = or_len rest (quoted_loop q False 1 (tl rest))"

definition single_quoted_len :: "uchar list \<Rightarrow> nat" where
  "single_quoted_len rest = quoted_len (take (line_len rest) rest) 0x27"

definition is_char_literal :: "uchar list \<Rightarrow> bool" where
  "is_char_literal rest =
     (case tl rest of
        [] \<Rightarrow> False
      | c # cs \<Rightarrow>
          if c = 0x5C then 0x27 \<in> set (take 10 cs)
          else if c \<noteq> 0x27 \<and> c \<noteq> 10 then cs \<noteq> [] \<and> hd cs = 0x27
          else False)"

subsection \<open>Shell\<close>

fun brace_loop :: "nat \<Rightarrow> nat \<Rightarrow> uchar list \<Rightarrow> nat option" where
  "brace_loop depth p [] = None"
| "brace_loop depth p (ch # cs) =
     (if ch = 10 then None
      else if ch = uc CHR ''{'' then brace_loop (depth + 1) (p + 1) cs
      else if ch = uc CHR ''}'' then
        (if depth - 1 = 0 then Some (p + 1) else brace_loop (depth - 1) (p + 1) cs)
      else brace_loop depth (p + 1) cs)"

definition shell_var_len :: "uchar list \<Rightarrow> nat option" where
  "shell_var_len rest =
     (case tl rest of
        [] \<Rightarrow> None
      | c # _ \<Rightarrow>
          if c = uc CHR ''{'' then brace_loop 0 1 (tl rest)
          else if is_ascii_alphabetic c \<or> c = uc CHR ''_'' then
            Some (1 + or_len (tl rest)
              (position (\<lambda>ch. \<not> (is_ascii_alphanumeric ch \<or> ch = uc CHR ''_'')) (tl rest)))
          else if is_ascii_digit c \<or> c \<in> set (uchars ''@*#?$!-'') then Some 2
          else None)"

definition heredoc_word :: "nat \<Rightarrow> uchar list \<Rightarrow> bool \<Rightarrow> (nat \<times> uchar list \<times> bool) option" where
  "heredoc_word p word strip =
     (case word of
        [] \<Rightarrow> None
      | q # _ \<Rightarrow>
          if q = 0x27 \<or> q = 0x22 then
            (case position (\<lambda>c. c = q) (slice word 1 (line_len word)) of
               None \<Rightarrow> None
             | Some close \<Rightarrow>
                 let delim = slice word 1 (1 + close)
                 in if delim = [] then None else Some (p + close + 2, delim, strip))
          else
            let skip = (if q = 0x5C then 1 else 0);
                w = drop skip word
            in if \<not> starts_with_where (\<lambda>c. is_ascii_alphabetic c \<or> c = uc CHR ''_'') w then None
               else
                 let n = or_len w (position (\<lambda>c. \<not> (is_ascii_alphanumeric c \<or> c = uc CHR ''_'')) w)
                 in Some (p + skip + n, take n w, strip))"

definition heredoc_marker :: "uchar list \<Rightarrow> (nat \<times> uchar list \<times> bool) option" where
  "heredoc_marker rest =
     (if \<not> prefix (uchars ''<<'') rest then None
      else if prefix (uchars ''<'') (drop 2 rest) then None
      else
        let strip = prefix (uchars ''-'') (drop 2 rest);
            p = 2 + (if strip then 1 else 0);
            p = p + or_len (drop p rest)
                  (position (\<lambda>c. c \<noteq> uc CHR '' '' \<and> c \<noteq> 9) (drop p rest))
        in heredoc_word p (drop p rest) strip)"

definition SHELL_NEST_MAX :: nat where
  "SHELL_NEST_MAX = 64"

text \<open>
  The two nesting scans. Each takes what is left of the text and the position reached, and the
  position a nested scan returns is turned back into the text after it.
\<close>

function shell_dq_end :: "uchar list \<Rightarrow> nat \<Rightarrow> nat \<Rightarrow> bool \<Rightarrow> (nat \<times> bool) option"
  and shell_subst_end :: "uchar list \<Rightarrow> nat \<Rightarrow> nat \<Rightarrow> nat \<Rightarrow> nat option" where
  "shell_dq_end s p depth subst =
     (if depth > SHELL_NEST_MAX then None
      else case s of
        [] \<Rightarrow> None
      | c # cs \<Rightarrow>
          if c = 0x5C then shell_dq_end (drop 1 cs) (p + 2) depth subst
          else if c = 0x22 then Some (p + 1, subst)
          else if c = uc CHR ''$'' \<and> prefix (uchars ''('') cs then
            (case shell_subst_end (drop 1 cs) (p + 2) (depth + 1) 1 of
               None \<Rightarrow> None
             | Some p' \<Rightarrow> shell_dq_end (drop (p' - (p + 1)) cs) p' depth True)
          else shell_dq_end cs (p + 1) depth subst)"
| "shell_subst_end s p depth parens =
     (if depth > SHELL_NEST_MAX then None
      else case s of
        [] \<Rightarrow> None
      | c # cs \<Rightarrow>
          if c = 0x5C then shell_subst_end (drop 1 cs) (p + 2) depth parens
          else if c = uc CHR ''('' then shell_subst_end cs (p + 1) depth (parens + 1)
          else if c = uc CHR '')'' then
            (if parens - 1 = 0 then Some (p + 1) else shell_subst_end cs (p + 1) depth (parens - 1))
          else if c = 0x22 then
            (case shell_dq_end cs (p + 1) (depth + 1) False of
               None \<Rightarrow> None
             | Some (p', _) \<Rightarrow> shell_subst_end (drop (p' - (p + 1)) cs) p' depth parens)
          else if c = 0x27 \<or> c = uc CHR ''`'' then
            (case position (\<lambda>d. d = c) cs of
               None \<Rightarrow> None
             | Some k \<Rightarrow> shell_subst_end (drop (k + 1) cs) (p + 2 + k) depth parens)
          else shell_subst_end cs (p + 1) depth parens)"
  by pat_completeness auto
termination
  by (relation "measure (\<lambda>x. case x of Inl (s, _) \<Rightarrow> length s | Inr (s, _) \<Rightarrow> length s)") auto

declare shell_dq_end.simps [simp del] shell_subst_end.simps [simp del]

definition shell_dq_len :: "uchar list \<Rightarrow> unit + nat option" where
  "shell_dq_len rest =
     (case shell_dq_end (tl rest) 1 0 False of
        None \<Rightarrow> Inl ()
      | Some (e, subst) \<Rightarrow> Inr (if subst then Some e else None))"

subsection \<open>Names and attribute values\<close>

definition word_char :: "unicode \<Rightarrow> bool \<Rightarrow> uchar \<Rightarrow> bool" where
  "word_char ut prime ch \<longleftrightarrow> is_alphanumeric ut ch \<or> ch = uc CHR ''_'' \<or> prime \<and> ch = 0x27"

fun ident_loop :: "unicode \<Rightarrow> bool \<Rightarrow> bool \<Rightarrow> bool \<Rightarrow> nat \<Rightarrow> uchar list \<Rightarrow> nat option" where
  "ident_loop ut mk hyphen prime p [] = None"
| "ident_loop ut mk hyphen prime p (ch # cs) =
     (if word_char ut prime ch then ident_loop ut mk hyphen prime (p + 1) cs
      else if (mk \<and> (ch = uc CHR ''-'' \<or> ch = uc CHR '':'') \<or> hyphen \<and> ch = uc CHR ''-'') \<and>
              starts_with_where (word_char ut prime) cs
      then ident_loop ut mk hyphen prime (p + 1) cs
      else Some p)"

definition ident_len :: "unicode \<Rightarrow> uchar list \<Rightarrow> bool \<Rightarrow> bool \<Rightarrow> bool \<Rightarrow> nat" where
  "ident_len ut rest mk hyphen prime = or_len rest (ident_loop ut mk hyphen prime 0 rest)"

fun attr_loop :: "uchar \<Rightarrow> bool \<Rightarrow> nat \<Rightarrow> uchar list \<Rightarrow> nat \<times> bool" where
  "attr_loop q asp p [] = (p, False)"
| "attr_loop q asp p (ch # cs) =
     (if ch = q then (p + 1, True)
      else if asp \<and> prefix (uchars ''<%'') (ch # cs) then (p, False)
      else attr_loop q asp (p + 1) cs)"

definition attr_value_len :: "uchar list \<Rightarrow> uchar \<Rightarrow> nat \<Rightarrow> bool \<Rightarrow> nat \<times> bool" where
  "attr_value_len rest q from asp = attr_loop q asp from (drop from rest)"

subsection \<open>Prefixed literals\<close>

definition csharp_literal_len :: "uchar list \<Rightarrow> nat option" where
  "csharp_literal_len rest =
     (case find (\<lambda>p. prefix p rest)
             [uchars ''$@'' @ [0x22], uchars ''@$'' @ [0x22], uchars ''@'' @ [0x22], uchars ''$'' @ [0x22]] of
        None \<Rightarrow> None
      | Some pre \<Rightarrow>
          let opn = length pre - 1
          in if uc CHR ''@'' \<notin> set pre then Some (opn + quoted_len (drop opn rest) 0x22)
             else Some (or_len rest (doubled_loop 0x22 (opn + 1) (drop (opn + 1) rest))))"

definition PREFIXES :: "uchar list list" where
  "PREFIXES = map uchars [''r'', ''u'', ''b'', ''f'', ''t'', ''br'', ''rb'', ''fr'', ''rf'', ''tr'', ''rt'']"

definition python_prefixed_len :: "uchar list \<Rightarrow> bool \<Rightarrow> nat option" where
  "python_prefixed_len rest sq =
     (let p = or_len rest (position (\<lambda>c. \<not> is_ascii_alphabetic c) rest)
      in if map lower_uchar (take p rest) \<notin> set PREFIXES then None
         else
           let q = drop p rest
           in case triple_quoted_len q False of
                Some n \<Rightarrow> Some (p + n)
              | None \<Rightarrow>
                  if prefix [0x22] q then Some (p + quoted_len q 0x22)
                  else if prefix [0x27] q \<and> sq then Some (p + single_quoted_len q)
                  else None)"

definition r_close :: "uchar \<Rightarrow> uchar option" where
  "r_close c =
     (if c = uc CHR ''('' then Some (uc CHR '')'')
      else if c = uc CHR ''['' then Some (uc CHR '']'')
      else if c = uc CHR ''{'' then Some (uc CHR ''}'')
      else None)"

definition r_raw_len :: "uchar list \<Rightarrow> unit + nat option" where
  "r_raw_len b =
     (if b = [] \<or> hd b \<notin> {uc CHR ''r'', uc CHR ''R''} then Inr None
      else case nth_opt b 1 of
        None \<Rightarrow> Inr None
      | Some q \<Rightarrow>
          if q \<noteq> 0x22 \<and> q \<noteq> 0x27 then Inr None
          else
            let dashes = length (takeWhile (\<lambda>c. c = uc CHR ''-'') (drop 2 b))
            in case Option.bind (nth_opt b (2 + dashes)) r_close of
                 None \<Rightarrow> Inr None
               | Some close \<Rightarrow>
                   let term = [close] @ replicate dashes (uc CHR ''-'') @ [q];
                       body = 3 + dashes
                   in case find_sub term (drop body b) of
                        None \<Rightarrow> Inl ()
                      | Some p \<Rightarrow> Inr (Some (body + p + length term)))"

definition prefixed_literal_len :: "uchar list \<Rightarrow> nat option" where
  "prefixed_literal_len rest =
     (let b0 = hd rest;
          p = (if b0 = uc CHR ''b'' \<or> b0 = uc CHR ''c'' then 1 else 0)
      in if nth_opt rest p = Some (uc CHR ''r'') then
           (let p = p + 1;
                hashes = length (takeWhile (\<lambda>c. c = uc CHR ''#'') (drop p rest));
                p = p + hashes
            in if nth_opt rest p \<noteq> Some 0x22 then None
               else
                 let body = p + 1;
                     close = [0x22] @ replicate hashes (uc CHR ''#'')
                 in Some (or_len rest
                      (map_option (\<lambda>q. body + q + length close) (find_sub close (drop body rest)))))
         else if (b0 = uc CHR ''b'' \<or> b0 = uc CHR ''c'') \<and> nth_opt rest 1 = Some 0x22 then
           Some (1 + quoted_len (drop 1 rest) 0x22)
         else if b0 = uc CHR ''b'' \<and> nth_opt rest 1 = Some 0x27 \<and> is_char_literal (drop 1 rest) then
           Some (1 + quoted_len (drop 1 rest) 0x27)
         else None)"

subsection \<open>Regular expressions and server tags\<close>

definition REGEX_KEYWORDS :: "string list" where
  "REGEX_KEYWORDS =
     [''return'', ''typeof'', ''case'', ''do'', ''else'', ''in'', ''of'', ''new'', ''delete'', ''void'', ''throw'',
      ''instanceof'', ''yield'', ''await'']"

definition regex_allowed :: "token_decl option \<Rightarrow> bool" where
  "regex_allowed prev =
     (case prev of
        None \<Rightarrow> True
      | Some p \<Rightarrow>
          (case td_class p of
             Identifier \<Rightarrow> td_text p \<in> set REGEX_KEYWORDS
           | Literal \<Rightarrow> False
           | _ \<Rightarrow> td_text p \<notin> {'')'', '']'', ''}'', ''<'', ''>''}))"

fun regex_loop :: "bool \<Rightarrow> bool \<Rightarrow> nat \<Rightarrow> uchar list \<Rightarrow> nat option" where
  "regex_loop esc cl p [] = None"
| "regex_loop esc cl p (ch # cs) =
     (if ch = 10 \<or> ch = 13 then None
      else if esc then regex_loop False cl (p + 1) cs
      else if ch = 0x5C then regex_loop True cl (p + 1) cs
      else if ch = uc CHR ''['' then regex_loop False True (p + 1) cs
      else if ch = uc CHR '']'' then regex_loop False False (p + 1) cs
      else if ch = uc CHR ''/'' \<and> \<not> cl then
        Some (p + 1 + or_len cs (position (\<lambda>c. \<not> is_ascii_alphabetic c) cs))
      else regex_loop False cl (p + 1) cs)"

definition regex_len :: "uchar list \<Rightarrow> nat option" where
  "regex_len rest =
     (if prefix (uchars ''//'') rest \<or> prefix (uchars ''/*'') rest then None
      else regex_loop False False 1 (tl rest))"

definition aspx_len :: "uchar list \<Rightarrow> (nat \<times> token_class) option" where
  "aspx_len rest =
     (if prefix (uchars ''<%--'') rest then
        Some (or_len rest (map_option (\<lambda>p. p + 8) (find_sub (uchars ''--%>'') (drop 4 rest))), Comment)
      else if prefix (uchars ''%>'') rest then Some (2, Punctuation)
      else if \<not> prefix (uchars ''<%'') rest then None
      else
        let n = (if starts_with_where (\<lambda>c. c \<in> set (uchars ''@=#:$'')) (drop 2 rest) then 3 else 2)
        in Some (n, Punctuation))"

subsection \<open>Compile-time data of RPG\<close>

fun split_inclusive :: "uchar list \<Rightarrow> uchar list list" where
  "split_inclusive [] = []"
| "split_inclusive (c # cs) =
     (if c = 10 then [c] # split_inclusive cs
      else case split_inclusive cs of [] \<Rightarrow> [[c]] | l # ls \<Rightarrow> (c # l) # ls)"

definition strip_bom :: "uchar list \<Rightarrow> uchar list" where
  "strip_bom s = (if prefix [BOM] s then tl s else s)"

definition is_rpg_data_marker :: "uchar list \<Rightarrow> bool \<Rightarrow> bool" where
  "is_rpg_data_marker line free =
     (if \<not> prefix (uchars ''**'') line then False
      else
        let rest = trim_end_where (\<lambda>c. c = 13 \<or> c = 10) (drop 2 line);
            upper = map upper_uchar rest
        in \<not> free \<and> (rest = [] \<or> starts_with_where (\<lambda>c. c = uc CHR '' '' \<or> c = 9) rest) \<or>
           list_ex (\<lambda>k. prefix (uchars k) upper) [''CTDATA'', ''FTRANS'', ''ALTSEQ''])"

definition is_free_rpg :: "uchar list \<Rightarrow> bool" where
  "is_free_rpg src =
     (let first = takeWhile (\<lambda>c. c \<noteq> 10) (strip_bom src);
          first = (if suffix [13] first then butlast first else first);
          first = trim_end_where is_whitespace first
      in map lower_uchar first = uchars ''**free'')"

primrec rpg_data_loop :: "bool \<Rightarrow> nat \<Rightarrow> nat \<Rightarrow> uchar list list \<Rightarrow> nat option" where
  "rpg_data_loop free n off [] = None"
| "rpg_data_loop free n off (line # ls) =
     (let l = (if n = 0 then strip_bom line else line)
      in if is_rpg_data_marker l free \<and> \<not> (n = 0 \<and> free) then Some off
         else rpg_data_loop free (n + 1) (off + length line) ls)"

definition rpg_data_start :: "uchar list \<Rightarrow> nat" where
  "rpg_data_start src = or_len src (rpg_data_loop (is_free_rpg src) 0 0 (split_inclusive src))"

end
