(* ===== verification/Lexer.thy ===== *)
theory Lexer
  imports Lex_Rules
begin

text \<open>
  The lexer of crates/graph-core/src/tokenizer.rs: its state, position tracking, the rules of one token
  in the source's order, the free-form loop, heredoc bodies, the fixed-column layouts, and the entry
  points. The loops are partial functions; Lexer_Tiling proves that they return.
\<close>

subsection \<open>State\<close>

record markup_state =
  ms_tag :: bool
  ms_code :: bool
  ms_pending :: "uchar option"

record lexer =
  lx_src :: "uchar list"
  lx_opts :: tokenizer_options
  lx_out :: "token_decl list"
  lx_i :: nat
  lx_line :: u32
  lx_col :: u32
  lx_m :: markup_state
  lx_heredocs :: "(uchar list \<times> bool) list"
  lx_parens :: "bool list"
  shell_nest_off :: bool
  r_raw_off :: bool

definition markup_default :: markup_state where
  "markup_default = \<lparr>ms_tag = False, ms_code = False, ms_pending = None\<rparr>"

definition lexer_new :: "uchar list \<Rightarrow> tokenizer_options \<Rightarrow> lexer" where
  "lexer_new src opts =
     \<lparr>lx_src = src, lx_opts = opts, lx_out = [], lx_i = 0, lx_line = 1, lx_col = 1,
      lx_m = markup_default, lx_heredocs = [], lx_parens = [],
      shell_nest_off = False, r_raw_off = False\<rparr>"

text \<open>The byte offset of a character position.\<close>

definition byte_len :: "uchar list \<Rightarrow> nat" where
  "byte_len s = sum_list (map len_utf8 s)"

subsection \<open>Position tracking\<close>

definition step_pos :: "uchar \<Rightarrow> u32 \<times> u32 \<Rightarrow> u32 \<times> u32" where
  "step_pos c = (\<lambda>(line, col). if c = 10 then (line + 1, 1) else if c \<noteq> BOM then (line, col + 1) else (line, col))"

definition adv_to :: "nat \<Rightarrow> lexer \<Rightarrow> lexer" where
  "adv_to to lx =
     (let (line, col) = fold step_pos (slice (lx_src lx) (lx_i lx) to) (lx_line lx, lx_col lx)
      in lx\<lparr>lx_line := line, lx_col := col, lx_i := to\<rparr>)"

definition push :: "nat \<Rightarrow> token_class \<Rightarrow> lexer \<Rightarrow> lexer" where
  "push e cl lx =
     (let (start, sl, sc) = (lx_i lx, lx_line lx, lx_col lx);
          lx = adv_to e lx
      in lx\<lparr>lx_out := lx_out lx @
           [\<lparr>td_text = str_of (slice (lx_src lx) start e), td_class = cl,
             td_span = \<lparr>sp_start = of_nat (byte_len (take start (lx_src lx))),
                        sp_end = of_nat (byte_len (take e (lx_src lx))),
                        start_line = sl, start_col = sc, end_line = lx_line lx, end_col = lx_col lx\<rparr>\<rparr>]\<rparr>)"

definition trimmed :: "nat \<Rightarrow> nat \<Rightarrow> token_class \<Rightarrow> lexer \<Rightarrow> lexer" where
  "trimmed from to cl lx =
     (let t = dropWhile is_gap (slice (lx_src lx) from to);
          start = to - length t;
          e = start + length (trim_end_where is_gap t)
      in if e > start then push e cl (adv_to start lx) else lx)"

definition trimmed_comment :: "nat \<Rightarrow> nat \<Rightarrow> lexer \<Rightarrow> lexer" where
  "trimmed_comment from to lx = trimmed from to Comment lx"

definition at_line_start :: "lexer \<Rightarrow> bool" where
  "at_line_start lx = (lx_out lx = [] \<or> end_line (td_span (last (lx_out lx))) < lx_line lx)"

subsection \<open>Context of a comment\<close>

definition prev_char :: "lexer \<Rightarrow> uchar option" where
  "prev_char lx = (if take (lx_i lx) (lx_src lx) = [] then None else Some (last (take (lx_i lx) (lx_src lx))))"

definition SYMBOLS :: "uchar list" where
  "SYMBOLS = uchars (''!#$%&*+./<=>?@'' @ [CHR 0x5C] @ ''^|-~:'')"

definition dash_comment_at :: "uchar list \<Rightarrow> lexer \<Rightarrow> bool" where
  "dash_comment_at rest lx =
     (if \<not> prefix (uchars ''--'') rest then False
      else if \<not> haskell_block_comments (lx_opts lx) then True
      else
        let after = dropWhile (\<lambda>c. c = uc CHR ''-'') rest
        in \<not> starts_with_where (\<lambda>c. c \<in> set SYMBOLS) after \<and>
           \<not> (case prev_char lx of Some c \<Rightarrow> c \<in> set SYMBOLS | None \<Rightarrow> False))"

definition hash_ok :: "lexer \<Rightarrow> bool" where
  "hash_ok lx =
     (if hash_comments_line_start_only (lx_opts lx) \<and> \<not> at_line_start lx then False
      else if shell_words (lx_opts lx) \<and> lx_i lx > 0 then
        (case prev_char lx of Some c \<Rightarrow> is_gap c \<or> c \<in> set (uchars '';&|()'') | None \<Rightarrow> False)
      else True)"

definition hash_at :: "uchar list \<Rightarrow> lexer \<Rightarrow> bool" where
  "hash_at rest lx =
     (hd rest = uc CHR ''#'' \<and>
      (hash_comments (lx_opts lx) \<and> hash_ok lx \<or>
       sql_hash_comments (lx_opts lx) \<and> at_line_start lx \<and>
         (tl rest = [] \<or> is_whitespace (hd (tl rest)))))"

definition to_eol :: "uchar list \<Rightarrow> nat" where
  "to_eol rest = or_len rest (position (\<lambda>c. c = 10) rest)"

text \<open>Markup rules apply outside server-tag code.\<close>

definition in_markup :: "lexer \<Rightarrow> bool" where
  "in_markup lx = (markup (lx_opts lx) \<and> \<not> ms_code (lx_m lx))"

subsection \<open>The rules of one token\<close>

text \<open>
  A rule gives the length and class of the token at the start of the rest of the text, and the state it
  leaves, or nothing when it does not apply. The rules are tried in order.
\<close>

type_synonym lexed = "nat \<times> token_class \<times> lexer"

fun first_some :: "'a option list \<Rightarrow> 'a option" where
  "first_some [] = None"
| "first_some (None # rs) = first_some rs"
| "first_some (Some r # rs) = Some r"

definition as_class :: "token_class \<Rightarrow> lexer \<Rightarrow> nat option \<Rightarrow> lexed option" where
  "as_class cl lx r = map_option (\<lambda>n. (n, cl, lx)) r"

definition when_rule :: "bool \<Rightarrow> 'a option \<Rightarrow> 'a option" where
  "when_rule b r = (if b then r else None)"

definition aspx_rule :: "uchar list \<Rightarrow> lexer \<Rightarrow> lexed option" where
  "aspx_rule rest lx =
     when_rule (aspx (lx_opts lx))
       (map_option
          (\<lambda>(n, cl).
             (n, cl,
              if cl = Punctuation then lx\<lparr>lx_m := (lx_m lx)\<lparr>ms_code := prefix (uchars ''<%'') rest\<rparr>\<rparr> else lx))
          (aspx_len rest))"

definition pending_rule :: "uchar list \<Rightarrow> lexer \<Rightarrow> lexed option" where
  "pending_rule rest lx =
     (case ms_pending (lx_m lx) of
        None \<Rightarrow> None
      | Some q \<Rightarrow>
          when_rule (in_markup lx)
            (let (n, closed) = attr_value_len rest q 0 (aspx (lx_opts lx))
             in Some (n, Literal, if closed then lx\<lparr>lx_m := (lx_m lx)\<lparr>ms_pending := None\<rparr>\<rparr> else lx)))"

definition line_comment_rule :: "uchar list \<Rightarrow> lexer \<Rightarrow> lexed option" where
  "line_comment_rule rest lx =
     when_rule (\<not> in_markup lx \<and> \<not> no_line_slash_comments (lx_opts lx) \<and> prefix (uchars ''//'') rest)
       (let n = to_eol rest;
            n = (if ms_code (lx_m lx) then
                   (case find_sub (uchars ''%>'') (take n rest) of Some k \<Rightarrow> k | None \<Rightarrow> n)
                 else n)
        in Some (n, Comment, lx))"

definition comment_rules :: "uchar list \<Rightarrow> lexer \<Rightarrow> lexed option list" where
  "comment_rules rest lx =
     (let opts = lx_opts lx; mk = in_markup lx; c = hd rest
      in [aspx_rule rest lx,
          pending_rule rest lx,
          when_rule (mk \<and> prefix (uchars ''<!--'') rest)
            (as_class Comment lx
               (Some (or_len rest (map_option (\<lambda>p. p + 5) (find_sub (uchars ''-->'') (drop 2 rest)))))),
          when_rule
            (hash_at rest lx \<or> fixed_columns opts = Some Cobol \<and> prefix (uchars ''*>'') rest \<or>
             dash_comments opts \<and> dash_comment_at rest lx \<or> semicolon_comments opts \<and> c = uc CHR '';'')
            (as_class Comment lx (Some (to_eol rest))),
          when_rule (haskell_block_comments opts \<and> prefix (uchars ''{-'') rest)
            (as_class Comment lx (Some (nested_len rest ''{-'' ''-}''))),
          when_rule (ml_block_comments opts \<and> prefix (uchars ''(*'') rest \<and> \<not> prefix (uchars ''(*)'') rest)
            (as_class Comment lx (Some (nested_len rest ''(*'' ''*)''))),
          line_comment_rule rest lx,
          when_rule (rust_literals opts \<and> prefix (uchars ''/*'') rest)
            (as_class Comment lx (Some (nested_len rest ''/*'' ''*/''))),
          when_rule (prefix (uchars ''/*'') rest \<and> \<not> mk \<and> \<not> no_block_slash_comments opts)
            (as_class Comment lx
               (Some (or_len rest (map_option (\<lambda>p. p + 4) (find_sub (uchars ''*/'') (drop 2 rest))))))])"

definition heredoc_rule :: "uchar list \<Rightarrow> lexer \<Rightarrow> lexed option" where
  "heredoc_rule rest lx =
     when_rule
       (shell_words (lx_opts lx) \<and> hd rest = uc CHR ''<'' \<and> prev_char lx \<noteq> Some (uc CHR ''<'') \<and>
        \<not> (lx_parens lx \<noteq> [] \<and> last (lx_parens lx)))
       (map_option
          (\<lambda>(n, delim, strip). (n, Operator, lx\<lparr>lx_heredocs := lx_heredocs lx @ [(delim, strip)]\<rparr>))
          (heredoc_marker rest))"

definition literal_rules :: "unicode \<Rightarrow> uchar list \<Rightarrow> lexer \<Rightarrow> lexed option list" where
  "literal_rules ut rest lx =
     (let opts = lx_opts lx; mk = in_markup lx; c = hd rest
      in [when_rule (shell_words opts \<and> c = uc CHR ''$'') (as_class Identifier lx (shell_var_len rest)),
          heredoc_rule rest lx,
          when_rule (shell_words opts \<and> prefix (uchars ''$'' @ [0x27]) rest)
            (as_class Literal lx (Some (1 + quoted_len (drop 1 rest) 0x27))),
          when_rule (shell_words opts \<and> c = 0x27 \<and> \<not> mk)
            (as_class Literal lx
               (Some (case position (\<lambda>d. d = 0x27) (drop 1 rest) of Some p \<Rightarrow> p + 2 | None \<Rightarrow> line_len rest))),
          when_rule (triple_quote_strings opts)
            (as_class Literal lx (triple_quoted_len rest (triple_quote_raw opts))),
          when_rule (raw_backtick_strings opts \<and> c = uc CHR ''`'' \<and> \<not> mk)
            (as_class Literal lx
               (Some (or_len rest (map_option (\<lambda>p. p + 2) (position (\<lambda>d. d = uc CHR ''`'') (drop 1 rest)))))),
          when_rule (sql_strings opts \<and> c = 0x27) (as_class Literal lx (Some (doubled_len rest))),
          when_rule (sql_strings opts \<and> c = 0x22) (as_class Identifier lx (Some (doubled_len rest))),
          when_rule (sql_strings opts \<and> c = uc CHR ''['') (as_class Identifier lx (sql_bracket_len ut rest)),
          when_rule (rust_literals opts) (as_class Literal lx (prefixed_literal_len rest)),
          when_rule (csharp_strings opts \<and> \<not> mk) (as_class Literal lx (csharp_literal_len rest)),
          when_rule (python_string_prefixes opts \<and> \<not> mk)
            (as_class Literal lx (python_prefixed_len rest (single_quote_strings opts))),
          when_rule (r_raw_strings opts \<and> \<not> mk \<and> \<not> r_raw_off lx)
            (as_class Literal lx (case r_raw_len rest of Inl _ \<Rightarrow> None | Inr r \<Rightarrow> r))])"

text \<open>A raw string of R that never closes turns its rule off for the rest of the text.\<close>

definition note_r_raw :: "uchar list \<Rightarrow> lexer \<Rightarrow> lexer" where
  "note_r_raw rest lx =
     (if r_raw_strings (lx_opts lx) \<and> \<not> in_markup lx \<and> \<not> r_raw_off lx \<and> r_raw_len rest = Inl ()
      then lx\<lparr>r_raw_off := True\<rparr> else lx)"

definition drop_dots :: "uchar list \<Rightarrow> nat \<Rightarrow> nat" where
  "drop_dots rest n =
     max 1 (length (trim_end_where (\<lambda>c. c = uc CHR ''.'') (take n rest)))"

definition number_len :: "unicode \<Rightarrow> uchar list \<Rightarrow> nat" where
  "number_len ut rest =
     drop_dots rest
       (or_len rest
          (position (\<lambda>ch. \<not> (is_alphanumeric ut ch \<or> ch = uc CHR ''_'' \<or> ch = uc CHR ''.'')) rest))"

definition markup_quote_rule :: "uchar list \<Rightarrow> lexer \<Rightarrow> lexed option" where
  "markup_quote_rule rest lx =
     (let c = hd rest
      in when_rule (in_markup lx \<and> (c = 0x22 \<or> c = 0x27 \<or> c = uc CHR ''`''))
           (if ms_tag (lx_m lx) \<and> c \<noteq> uc CHR ''`'' then
              let (n, closed) = attr_value_len rest c 1 (aspx (lx_opts lx))
              in Some (n, Literal, if closed then lx else lx\<lparr>lx_m := (lx_m lx)\<lparr>ms_pending := Some c\<rparr>\<rparr>)
            else Some (1, Punctuation, lx)))"

definition word_rules :: "unicode \<Rightarrow> uchar list \<Rightarrow> lexer \<Rightarrow> lexed option list" where
  "word_rules ut rest lx =
     (let opts = lx_opts lx; mk = in_markup lx; c = hd rest
      in [when_rule (is_alphabetic ut c \<or> c = uc CHR ''_'')
            (as_class Identifier lx
               (Some (ident_len ut rest (mk \<and> ms_tag (lx_m lx)) (hyphen_idents opts) (prime_idents opts)))),
          when_rule (is_ascii_digit c) (as_class Literal lx (Some (number_len ut rest))),
          markup_quote_rule rest lx,
          when_rule (c = 0x27 \<and> doubled_single_quotes opts)
            (as_class Literal lx (Some (doubled_len (take (line_len rest) rest)))),
          when_rule (c = 0x27 \<and> single_quote_strings opts)
            (as_class Literal lx (Some (single_quoted_len rest))),
          when_rule (shell_words opts \<and> c = 0x22 \<and> \<not> mk \<and> \<not> shell_nest_off lx)
            (as_class Literal lx (case shell_dq_len rest of Inl _ \<Rightarrow> None | Inr r \<Rightarrow> r))])"

text \<open>A nested shell string that never closes turns its rule off for the rest of the text.\<close>

definition note_shell_nest :: "uchar list \<Rightarrow> lexer \<Rightarrow> lexer" where
  "note_shell_nest rest lx =
     (if shell_words (lx_opts lx) \<and> hd rest = 0x22 \<and> \<not> in_markup lx \<and> \<not> shell_nest_off lx \<and>
         shell_dq_len rest = Inl ()
      then lx\<lparr>shell_nest_off := True\<rparr> else lx)"

definition last_token :: "lexer \<Rightarrow> token_decl option" where
  "last_token lx = (if lx_out lx = [] then None else Some (last (lx_out lx)))"

definition final_rules :: "uchar list \<Rightarrow> lexer \<Rightarrow> lexed option list" where
  "final_rules rest lx =
     (let opts = lx_opts lx; c = hd rest
      in [when_rule (c = 0x22 \<or> c = uc CHR ''`'' \<or> c = 0x27 \<and> is_char_literal rest)
            (as_class Literal lx (Some (quoted_len rest c))),
          when_rule (regex_literals opts \<and> c = uc CHR ''/'' \<and> regex_allowed (last_token lx))
            (as_class Literal lx (regex_len rest)),
          when_rule (c \<in> set OPERATOR_CHARS) (as_class Operator lx (Some 1))])"

definition lex_token :: "unicode \<Rightarrow> uchar list \<Rightarrow> lexer \<Rightarrow> lexed" where
  "lex_token ut rest lx =
     (case first_some (comment_rules rest lx @ literal_rules ut rest lx) of
        Some r \<Rightarrow> r
      | None \<Rightarrow>
          let lx = note_r_raw rest lx
          in case first_some (word_rules ut rest lx) of
               Some r \<Rightarrow> r
             | None \<Rightarrow>
                 let lx = note_shell_nest rest lx
                 in case first_some (final_rules rest lx) of
                      Some r \<Rightarrow> r
                    | None \<Rightarrow> (1, Punctuation, lx))"

subsection \<open>Context after a token\<close>

definition update_tag :: "unicode \<Rightarrow> uchar list \<Rightarrow> bool \<Rightarrow> nat \<Rightarrow> lexer \<Rightarrow> lexer" where
  "update_tag ut rest mk len lx =
     (if mk \<and> len = 1 then
        (if hd rest = uc CHR ''<'' then
           lx\<lparr>lx_m := (lx_m lx)\<lparr>ms_tag :=
             starts_with_where (\<lambda>n. is_alphabetic ut n \<or> n \<in> set (uchars ''/!?'')) (drop 1 rest)\<rparr>\<rparr>
         else if hd rest = uc CHR ''>'' then lx\<lparr>lx_m := (lx_m lx)\<lparr>ms_tag := False\<rparr>\<rparr>
         else lx)
      else lx)"

definition update_parens :: "uchar list \<Rightarrow> nat \<Rightarrow> lexer \<Rightarrow> lexer" where
  "update_parens rest len lx =
     (if shell_words (lx_opts lx) \<and> len = 1 then
        (if hd rest = uc CHR ''('' then
           lx\<lparr>lx_parens := lx_parens lx @
             [prefix (uchars ''(('') rest \<or> lx_parens lx \<noteq> [] \<and> last (lx_parens lx)]\<rparr>
         else if hd rest = uc CHR '')'' then lx\<lparr>lx_parens := butlast (lx_parens lx)\<rparr>
         else lx)
      else lx)"

subsection \<open>Heredoc bodies\<close>

function heredoc_end :: "uchar list \<Rightarrow> bool \<Rightarrow> nat \<Rightarrow> uchar list \<Rightarrow> nat option" where
  "heredoc_end delim strip p s =
     (if s = [] then None
      else
        let le = to_eol s;
            line = take le s;
            content = (if suffix [13] line then butlast line else line);
            body = (if strip then dropWhile (\<lambda>c. c = 9) content else content)
        in if body = delim then Some (p + length content)
           else heredoc_end delim strip (p + le + 1) (drop (le + 1) s))"
  by pat_completeness auto
termination
  by (relation "measure (\<lambda>(_, _, _, s). length s)") auto

declare heredoc_end.simps [simp del]

definition heredoc_body :: "nat \<Rightarrow> uchar list \<Rightarrow> bool \<Rightarrow> lexer \<Rightarrow> lexer" where
  "heredoc_body limit delim strip lx =
     (let src = lx_src lx;
          start = lx_i lx;
          e = (case heredoc_end delim strip start (slice src start limit) of Some e \<Rightarrow> e | None \<Rightarrow> limit);
          first = (case position (\<lambda>c. \<not> is_gap c) (slice src start e) of Some q \<Rightarrow> start + q | None \<Rightarrow> e)
      in if first < e then push e Literal (adv_to first lx) else adv_to e lx)"

text \<open>A body is followed by the next one only when nothing but gaps follow it on its line.\<close>

fun heredoc_loop :: "nat \<Rightarrow> (uchar list \<times> bool) list \<Rightarrow> lexer \<Rightarrow> lexer" where
  "heredoc_loop limit [] lx = lx"
| "heredoc_loop limit ((delim, strip) # hs) lx =
     (if lx_i lx \<ge> limit then lx
      else
        let lx = heredoc_body limit delim strip lx
        in case position (\<lambda>c. c = 10) (slice (lx_src lx) (lx_i lx) limit) of
             None \<Rightarrow> lx
           | Some nl \<Rightarrow>
               if list_all is_gap (slice (lx_src lx) (lx_i lx) (lx_i lx + nl)) then
                 heredoc_loop limit hs (adv_to (lx_i lx + nl + 1) lx)
               else lx)"

definition heredoc_bodies :: "nat \<Rightarrow> lexer \<Rightarrow> lexer" where
  "heredoc_bodies limit lx = heredoc_loop limit (lx_heredocs lx) (lx\<lparr>lx_heredocs := []\<rparr>)"

subsection \<open>The free-form loop\<close>

definition run_step :: "unicode \<Rightarrow> nat \<Rightarrow> lexer \<Rightarrow> lexer" where
  "run_step ut limit lx =
     (let i = lx_i lx; c = lx_src lx ! i
      in if is_gap c then
           let lx = adv_to (i + 1) lx
           in if c = 10 \<and> lx_heredocs lx \<noteq> [] then heredoc_bodies limit lx else lx
         else
           let rest = slice (lx_src lx) i limit;
               mk = in_markup lx;
               (len, cl, lx) = lex_token ut rest lx
           in push (i + len) cl (update_parens rest len (update_tag ut rest mk len lx)))"

partial_function (option) run :: "unicode \<Rightarrow> nat \<Rightarrow> lexer \<Rightarrow> lexer option" where
  "run ut limit lx = (if lx_i lx < limit then run ut limit (run_step ut limit lx) else Some lx)"

declare run.simps [code]

subsection \<open>Fixed columns\<close>

text \<open>The position where a column starts, columns counting every character but the BOM.\<close>

definition col_at :: "uchar list \<Rightarrow> nat \<Rightarrow> nat \<Rightarrow> nat \<Rightarrow> nat" where
  "col_at src ls ce n =
     (case nth_opt (filter (\<lambda>(_, c). c \<noteq> BOM) (enumerate 0 (slice src ls ce))) (n - 1) of
        Some (p, _) \<Rightarrow> ls + p
      | None \<Rightarrow> ce)"

definition fixed_code :: "unicode \<Rightarrow> fixed_layout \<Rightarrow> nat \<Rightarrow> nat \<Rightarrow> nat \<Rightarrow> nat \<Rightarrow> lexer \<Rightarrow> lexer option" where
  "fixed_code ut layout ls ce code_end code_start lx =
     (let src = lx_src lx;
          ind_end = col_at src ls ce 8;
          ind = slice src code_start ind_end
      in if ind = uchars ''*'' \<or> layout = Cobol \<and> ind = uchars ''/'' then
           Some (trimmed_comment code_start ce lx)
         else
           let area_end = col_at src ls ce (code_end + 1)
           in Option.bind
                (if layout = Cobol then
                   map_option (\<lambda>lx. (ind_end, lx)) (run ut ind_end (adv_to code_start lx))
                 else Some (code_start, lx))
                (\<lambda>(code_start, lx).
                   map_option (trimmed_comment area_end ce) (run ut area_end (adv_to code_start lx))))"

definition fixed_line :: "unicode \<Rightarrow> fixed_layout \<Rightarrow> lexer \<Rightarrow> lexer option" where
  "fixed_line ut layout lx =
     (let src = lx_src lx;
          (seq, lead, code_end) = (case layout of Cobol \<Rightarrow> (6, False, 72) | Rpg \<Rightarrow> (5, True, 80));
          ls = lx_i lx;
          le = (case position (\<lambda>c. c = 10) (drop ls src) of Some p \<Rightarrow> ls + p | None \<Rightarrow> length src);
          ce = (if suffix [13] (slice src ls le) then le - 1 else le);
          seq_end = col_at src ls ce (seq + 1);
          lx = trimmed_comment ls seq_end lx
      in Option.bind
           (if lead then
              let code_start = col_at src ls ce (seq + 2)
              in map_option (\<lambda>lx. (code_start, lx)) (run ut code_start (adv_to seq_end lx))
            else Some (seq_end, lx))
           (\<lambda>(code_start, lx).
              map_option (adv_to (min (le + 1) (length src)))
                (fixed_code ut layout ls ce code_end code_start lx)))"

partial_function (option) fixed :: "unicode \<Rightarrow> fixed_layout \<Rightarrow> nat \<Rightarrow> lexer \<Rightarrow> lexer option" where
  "fixed ut layout limit lx =
     (if lx_i lx < limit then Option.bind (fixed_line ut layout lx) (fixed ut layout limit) else Some lx)"

declare fixed.simps [code]

subsection \<open>Data sections and the entry points\<close>

primrec data_loop :: "bool \<Rightarrow> nat \<Rightarrow> nat \<Rightarrow> uchar list list \<Rightarrow> lexer \<Rightarrow> nat \<times> lexer" where
  "data_loop free start off [] lx = (start, lx)"
| "data_loop free start off (line # ls) lx =
     (if off > start \<and> is_rpg_data_marker line free then
        data_loop free off (off + length line) ls (trimmed start off Literal lx)
      else data_loop free start (off + length line) ls lx)"

definition data_sections :: "nat \<Rightarrow> lexer \<Rightarrow> lexer" where
  "data_sections from lx =
     (let src = lx_src lx;
          (start, lx) = data_loop (is_free_rpg src) from from (split_inclusive (drop from src)) lx
      in trimmed start (length src) Literal lx)"

definition tokenize_with :: "unicode \<Rightarrow> uchar list \<Rightarrow> tokenizer_options \<Rightarrow> token_decl list option" where
  "tokenize_with ut src opts =
     (let lx = lexer_new src opts;
          e = (if rpg_compile_time_data opts then rpg_data_start src else length src)
      in map_option (\<lambda>lx. lx_out (if e < length src then data_sections e lx else lx))
           (case fixed_columns opts of
              None \<Rightarrow> run ut e lx
            | Some layout \<Rightarrow> if layout = Rpg \<and> is_free_rpg src then run ut e lx else fixed ut layout e lx))"

definition tokenize :: "unicode \<Rightarrow> uchar list \<Rightarrow> token_decl list option" where
  "tokenize ut src = tokenize_with ut src DEFAULT"

end
