(* ===== verification/Lex_Bounds.thy ===== *)
theory Lex_Bounds
  imports Lexer
begin

text \<open>
  Every length function of the tokenizer stays inside the text it is given, and every rule takes at
  least one character: the facts that make the lexer's slices valid and its loops end.
\<close>

subsection \<open>Searching\<close>

definition len_ok :: "'a list \<Rightarrow> nat \<Rightarrow> bool" where
  "len_ok rest n \<longleftrightarrow> 1 \<le> n \<and> n \<le> length rest"

named_theorems len_bounds

lemma position_Some:
  "position P xs = Some k \<Longrightarrow> k < length xs \<and> P (xs ! k) \<and> (\<forall>j < k. \<not> P (xs ! j))"
proof (induction xs arbitrary: k)
  case (Cons x xs)
  show ?case
  proof (cases "P x")
    case True
    then show ?thesis using Cons.prems by auto
  next
    case False
    then obtain k' where k: "k = Suc k'" "position P xs = Some k'" using Cons.prems by auto
    have "\<not> P ((x # xs) ! j)" if "j < k" for j
      using that k False Cons.IH [OF k(2)] by (cases j) auto
    then show ?thesis using k Cons.IH [OF k(2)] by auto
  qed
qed simp

lemma position_None: "position P xs = None \<longleftrightarrow> (\<forall>x \<in> set xs. \<not> P x)"
  by (induction xs) auto

lemma or_len_le: "(\<And>k. p = Some k \<Longrightarrow> k \<le> length rest) \<Longrightarrow> or_len rest p \<le> length rest"
  by (cases p) (auto simp: or_len_def)

lemma or_len_ok:
  assumes "rest \<noteq> []" "\<And>k. p = Some k \<Longrightarrow> len_ok rest k"
  shows "len_ok rest (or_len rest p)"
  using assms by (cases p) (auto simp: or_len_def len_ok_def Suc_le_eq)

lemma find_sub_le: "find_sub pat s = Some k \<Longrightarrow> k + length pat \<le> length s"
proof (induction s arbitrary: k)
  case (Cons c cs)
  then show ?case by (auto split: if_splits dest: prefix_length_le)
qed (auto split: if_splits)

lemma find_sub_ge:
  assumes "find_sub pat s = Some k" "\<not> prefix pat s"
  shows "0 < k"
  using assms by (cases s) (auto split: if_splits)

lemma length_slice [simp]: "length (slice s a b) = min (b - a) (length s - a)"
  by (simp add: slice_def)

lemma position_ok: "\<lbrakk>s \<noteq> []; \<not> P (hd s)\<rbrakk> \<Longrightarrow> len_ok s (or_len s (position P s))"
  by (intro or_len_ok) (cases s; auto simp: len_ok_def split: if_splits dest!: position_Some)+

lemma to_eol_le: "to_eol rest \<le> length rest"
  unfolding to_eol_def by (intro or_len_le) (auto dest: position_Some)

lemma to_eol_ok: "\<lbrakk>rest \<noteq> []; hd rest \<noteq> 10\<rbrakk> \<Longrightarrow> len_ok rest (to_eol rest)"
  unfolding to_eol_def by (rule position_ok)

subsection \<open>Loops\<close>

text \<open>Where a scan that starts at position \<open>p\<close> before the text \<open>s\<close> can stop.\<close>

definition stops :: "nat \<Rightarrow> 'a list \<Rightarrow> nat option \<Rightarrow> bool" where
  "stops p s r \<longleftrightarrow> (\<forall>k. r = Some k \<longrightarrow> p < k \<and> k \<le> p + length s)"

lemma stops_simps [simp]:
  "stops p s None" "stops p s (Some k) \<longleftrightarrow> p < k \<and> k \<le> p + length s"
  by (auto simp: stops_def)

lemma stops_drop:
  assumes "stops p' (drop n s) r" "p' = p + n" "n \<le> length s"
  shows "stops p s r"
  using assms by (auto simp: stops_def)

lemma stops_Cons: "stops (Suc p) cs r \<Longrightarrow> stops p (c # cs) r"
  by (auto simp: stops_def)

lemma quoted_loop_stops: "stops p s (quoted_loop q esc p s)"
  by (induction q esc p s rule: quoted_loop.induct) (auto intro: stops_Cons)

lemma triple_loop_stops: "length q = 3 \<Longrightarrow> stops p s (triple_loop q raw esc p s)"
  by (induction q raw esc p s rule: triple_loop.induct)
    (auto intro: stops_Cons dest: prefix_length_le)

lemma doubled_loop_stops: "stops p s (doubled_loop q p s)"
proof (induction q p s rule: doubled_loop.induct)
  case (2 q p c cs)
  then show ?case by (cases cs) (auto simp: stops_def)
qed simp

lemma brace_loop_stops: "stops p s (brace_loop d p s)"
  by (induction d p s rule: brace_loop.induct) (auto intro: stops_Cons)

lemma position_stops: "or_len s (position P s) \<le> length s"
  by (intro or_len_le) (auto dest: position_Some)

lemma regex_loop_stops: "stops p s (regex_loop esc cl p s)"
proof (induction esc cl p s rule: regex_loop.induct)
  case (2 esc cl p ch cs)
  then show ?case using position_stops [of cs "\<lambda>c. \<not> is_ascii_alphabetic c"] by (auto intro: stops_Cons)
qed simp

lemma nested_loop_stops:
  "\<lbrakk>opn \<noteq> []; cls \<noteq> []\<rbrakk> \<Longrightarrow> stops p s (nested_loop opn cls d p s)"
proof (induction opn cls d p s rule: nested_loop.induct)
  case (2 opn cls d p c cs)
  have drop: "stops p (c # cs) r"
    if "prefix w (c # cs)" "w \<noteq> []" "stops (p + length w) (drop (length w - 1) cs) r" for w r
    using that prefix_length_le [OF that(1)] by (cases w) (auto simp: stops_def)
  show ?case
    using 2 drop prefix_length_le [of cls "c # cs"] by (auto intro: stops_Cons simp: Suc_le_eq)
qed simp

lemma stops_skip: "stops p' (drop n cs) r \<Longrightarrow> p' = p + 1 + n \<Longrightarrow> stops p (c # cs) r"
  by (cases "n \<le> length cs") (auto simp: stops_def)

lemma stops_jump: "stops p' (drop (p' - (p + 1)) cs) r \<Longrightarrow> p < p' \<Longrightarrow> stops p (c # cs) r"
  by (rule stops_skip [of p' "p' - (p + 1)"]) auto

lemma shell_ends_stop:
  "length s = n \<Longrightarrow>
     stops p s (map_option fst (shell_dq_end s p d b)) \<and> stops p s (shell_subst_end s p d k)"
proof (induction n arbitrary: s p d b k rule: less_induct)
  case (less n)
  show ?case
  proof (cases s)
    case Nil
    then show ?thesis by (simp add: shell_dq_end.simps [of "[]"] shell_subst_end.simps [of "[]"])
  next
    case (Cons c cs)
    have dq: "stops p' (drop j cs) (map_option fst (shell_dq_end (drop j cs) p' d' b'))"
      and sb: "stops p' (drop j cs) (shell_subst_end (drop j cs) p' d' k')" for j p' d' b' k'
      using less.IH [of "length (drop j cs)" "drop j cs"] less.prems Cons by auto
    have dq0: "stops p (y # cs) (map_option fst (shell_dq_end cs (p + 1) d' b'))"
      and sb0: "stops p (y # cs) (shell_subst_end cs (p + 1) d' k')"
      and dq1: "stops p (y # cs) (map_option fst (shell_dq_end (drop 1 cs) (p + 2) d' b'))"
      and sb1: "stops p (y # cs) (shell_subst_end (drop 1 cs) (p + 2) d' k')"
      and sb2: "stops p (y # cs) (shell_subst_end (drop (j + 1) cs) (p + 2 + j) d' k')" for y j d' b' k'
      using stops_skip [OF dq [of "p + 1" 0]] stops_skip [OF sb [of "p + 1" 0]]
        stops_skip [OF dq [of "p + 2" 1]] stops_skip [OF sb [of "p + 2" 1]]
        stops_skip [OF sb [of "p + 2 + j" "j + 1"]] by simp_all
    have dqj: "stops p (y # cs) (map_option fst (shell_dq_end (drop (p' - (p + 1)) cs) p' d' b'))"
      if "shell_subst_end (drop 1 cs) (p + 2) (d + 1) 1 = Some p'" for y p' d' b'
      using stops_jump [OF dq] sb [of "p + 2" 1 "d + 1" 1] that by simp
    have sbj: "stops p (y # cs) (shell_subst_end (drop (p' - (p + 1)) cs) p' d' k')"
      if "shell_dq_end cs (p + 1) (d + 1) False = Some (p', x)" for y p' x d' k'
      using stops_jump [OF sb] dq [of "p + 1" 0 "d + 1" False] that by simp
    have "stops p (c # cs) (map_option fst (shell_dq_end (c # cs) p d b))"
      unfolding shell_dq_end.simps [of "c # cs"]
      using dq0 dq1 dqj by (simp only: list.case) (simp split: option.split)
    moreover have "stops p (c # cs) (shell_subst_end (c # cs) p d k)"
      unfolding shell_subst_end.simps [of "c # cs"]
      using sb0 sb1 sb2 sbj by (simp only: list.case) (simp split: option.split)
    ultimately show ?thesis using Cons by simp
  qed
qed

subsection \<open>Lengths\<close>

lemma stops_len_ok:
  assumes "stops p (drop p rest) r" "p \<le> length rest" "rest \<noteq> []"
  shows "len_ok rest (or_len rest r)"
  using assms by (intro or_len_ok) (auto simp: stops_def len_ok_def)

lemma quoted_len_ok [len_bounds]: "rest \<noteq> [] \<Longrightarrow> len_ok rest (quoted_len rest q)"
  unfolding quoted_len_def
  by (intro stops_len_ok [of 1]) (auto simp: drop_Suc quoted_loop_stops Suc_le_eq)

lemma nested_len_ok [len_bounds]:
  "\<lbrakk>rest \<noteq> []; opn \<noteq> []; cls \<noteq> []\<rbrakk> \<Longrightarrow> len_ok rest (nested_len rest opn cls)"
  unfolding nested_len_def
  by (intro stops_len_ok [of 0]) (auto simp: uchars_def intro: nested_loop_stops)

lemma doubled_len_ok [len_bounds]: "rest \<noteq> [] \<Longrightarrow> len_ok rest (doubled_len rest)"
  unfolding doubled_len_def
  by (intro stops_len_ok [of 1]) (auto simp: drop_Suc doubled_loop_stops Suc_le_eq)

lemma triple_quoted_len_ok [len_bounds]:
  assumes "triple_quoted_len rest raw = Some n"
  shows "len_ok rest n"
proof -
  obtain q where q: "find (\<lambda>q. prefix q rest) [[0x22, 0x22, 0x22], [0x27, 0x27, 0x27]] = Some q"
    and n: "n = or_len rest (triple_loop q raw False 3 (drop 3 rest))"
    using assms by (auto simp: triple_quoted_len_def)
  then have q3: "length q = 3" "prefix q rest" by (auto split: if_splits)
  then have "3 \<le> length rest" using prefix_length_le by fastforce
  then show ?thesis unfolding n by (intro stops_len_ok [of 3] triple_loop_stops q3) auto
qed

lemma line_len_le: "line_len rest \<le> length rest"
  unfolding line_len_def Let_def using position_stops [of rest "\<lambda>c. c = 10"] by auto

lemma line_len_ok [len_bounds]: "\<lbrakk>rest \<noteq> []; hd rest \<noteq> 10\<rbrakk> \<Longrightarrow> len_ok rest (line_len rest)"
  using to_eol_ok [of rest] by (auto simp: line_len_def to_eol_def Let_def len_ok_def)

lemma take_line_ne: "\<lbrakk>rest \<noteq> []; hd rest \<noteq> 10\<rbrakk> \<Longrightarrow> take (line_len rest) rest \<noteq> []"
  using line_len_ok [of rest] by (auto simp: len_ok_def)

lemma len_ok_take: "len_ok (take k rest) n \<Longrightarrow> len_ok rest n"
  by (auto simp: len_ok_def)

lemma len_ok_drop: "len_ok (drop p rest) n \<Longrightarrow> len_ok rest (p + n)"
  by (auto simp: len_ok_def)

lemma single_quoted_len_ok [len_bounds]:
  "\<lbrakk>rest \<noteq> []; hd rest \<noteq> 10\<rbrakk> \<Longrightarrow> len_ok rest (single_quoted_len rest)"
  unfolding single_quoted_len_def
  by (rule len_ok_take [of "line_len rest"], rule quoted_len_ok, rule take_line_ne)

lemma sql_bracket_len_ok [len_bounds]: "sql_bracket_len ut rest = Some n \<Longrightarrow> len_ok rest n"
  using line_len_le [of rest]
  by (auto simp: sql_bracket_len_def Let_def len_ok_def dest!: position_Some split: list.splits if_splits option.splits)

lemma stops_ok: "stops p (drop p rest) (Some n) \<Longrightarrow> p \<le> length rest \<Longrightarrow> len_ok rest n"
  by (auto simp: len_ok_def)

lemma shell_var_len_cases:
  assumes "shell_var_len (d # ds) = Some n"
  obtains "ds \<noteq> []" "brace_loop 0 1 ds = Some n"
  | "ds \<noteq> []" "n = 1 + or_len ds (position (\<lambda>ch. \<not> (is_ascii_alphanumeric ch \<or> ch = uc CHR ''_'')) ds)"
  | "ds \<noteq> []" "n = 2"
proof (cases ds)
  case (Cons c cs)
  from assms show thesis
    unfolding shell_var_len_def list.sel Cons list.case option.inject
    by (auto split: if_splits intro: that [unfolded Cons] simp del: position.simps brace_loop.simps)
qed (use assms in \<open>simp add: shell_var_len_def\<close>)

lemma shell_var_len_ok [len_bounds]: "shell_var_len rest = Some n \<Longrightarrow> len_ok rest n"
proof (cases rest)
  case (Cons d ds)
  assume "shell_var_len rest = Some n"
  then have "shell_var_len (d # ds) = Some n" using Cons by simp
  then show ?thesis
  proof (cases rule: shell_var_len_cases)
    case 1
    then show ?thesis using Cons brace_loop_stops [of 1 ds 0] by (simp add: len_ok_def)
  next
    case 2
    then show ?thesis using Cons position_stops [of ds] by (simp add: len_ok_def)
  next
    case 3
    then show ?thesis using Cons by (cases ds) (simp_all add: len_ok_def)
  qed
qed (simp add: shell_var_len_def)

lemma heredoc_word_le:
  assumes "heredoc_word p word strip = Some (n, delim, st)"
  shows "p < n \<and> n \<le> p + length word"
proof (cases word)
  case (Cons q w)
  show ?thesis
  proof (cases "q = 0x27 \<or> q = 0x22")
    case True
    then show ?thesis using assms Cons line_len_le [of word]
      by (auto simp: heredoc_word_def Let_def dest!: position_Some split: option.splits if_splits)
  next
    case False
    let ?k = "if q = 0x5C then 1 else 0"
    let ?w = "drop ?k word"
    let ?P = "\<lambda>c. \<not> (is_ascii_alphanumeric c \<or> c = uc CHR ''_'')"
    have w: "starts_with_where (\<lambda>c. is_ascii_alphabetic c \<or> c = uc CHR ''_'') ?w"
      and n: "n = p + ?k + or_len ?w (position ?P ?w)"
      using assms Cons False by (auto simp: heredoc_word_def Let_def split: if_splits)
    have "len_ok ?w (or_len ?w (position ?P ?w))"
    proof (rule position_ok)
      show "?w \<noteq> []" using w by (cases ?w) (simp_all add: starts_with_where_def)
      show "\<not> ?P (hd ?w)"
        using w by (cases ?w) (simp_all add: starts_with_where_def is_ascii_alphanumeric_def, blast)
    qed
    then show ?thesis unfolding n using Cons by (auto simp: len_ok_def)
  qed
qed (use assms in \<open>simp add: heredoc_word_def\<close>)

lemma heredoc_marker_ok [len_bounds]:
  assumes "heredoc_marker rest = Some (n, delim, strip)"
  shows "len_ok rest n"
proof -
  define p where "p = 2 + (if prefix (uchars ''-'') (drop 2 rest) then 1 else 0 :: nat)"
  define p' where "p' = p + or_len (drop p rest) (position (\<lambda>c. c \<noteq> uc CHR '' '' \<and> c \<noteq> 9) (drop p rest))"
  have pre: "prefix (uchars ''<<'') rest"
    and w: "heredoc_word p' (drop p' rest) (prefix (uchars ''-'') (drop 2 rest)) = Some (n, delim, strip)"
    using assms by (auto simp: heredoc_marker_def Let_def p_def p'_def split: if_splits)
  have "2 \<le> length rest" using prefix_length_le [OF pre] by (simp add: uchars_def)
  then have "p \<le> length rest"
    using prefix_length_le [of "uchars ''-''" "drop 2 rest"] by (auto simp: p_def uchars_def)
  then have "p' \<le> length rest" using position_stops [of "drop p rest"] by (simp add: p'_def le_diff_conv2 add.commute)
  then show ?thesis using heredoc_word_le [OF w] by (auto simp: len_ok_def)
qed

lemma ident_loop_ge: "ident_loop ut mk hy pr p s = Some k \<Longrightarrow> p \<le> k \<and> k \<le> p + length s"
  by (induction ut mk hy pr p s rule: ident_loop.induct) (auto split: if_splits)

lemma ident_len_ok [len_bounds]:
  assumes "rest \<noteq> []" "word_char ut pr (hd rest)"
  shows "len_ok rest (ident_len ut rest mk hy pr)"
  unfolding ident_len_def
proof (rule or_len_ok [OF assms(1)])
  fix k
  assume k: "ident_loop ut mk hy pr 0 rest = Some k"
  obtain c cs where rest: "rest = c # cs" using assms(1) by (cases rest) auto
  then have "ident_loop ut mk hy pr 1 cs = Some k" using assms(2) k by simp
  from ident_loop_ge [OF this] show "len_ok rest k" by (simp add: rest len_ok_def)
qed

lemma attr_loop_bounds: "attr_loop q asp p s = (n, closed) \<Longrightarrow> p \<le> n \<and> n \<le> p + length s"
proof (induction q asp p s rule: attr_loop.induct)
  case (2 q asp p ch cs)
  then show ?case by (fastforce split: if_splits)
qed simp

lemma attr_value_len_1 [len_bounds]:
  "attr_value_len rest q 1 asp = (n, closed) \<Longrightarrow> rest \<noteq> [] \<Longrightarrow> len_ok rest n"
  unfolding attr_value_len_def
  by (drule attr_loop_bounds) (cases rest; simp add: len_ok_def)

lemma attr_value_len_0 [len_bounds]:
  assumes "attr_value_len rest q 0 asp = (n, closed)" "rest \<noteq> []" "\<not> (asp \<and> prefix (uchars ''<%'') rest)"
  shows "len_ok rest n"
proof -
  obtain c cs where rest: "rest = c # cs" using assms(2) by (cases rest) auto
  show ?thesis
  proof (cases "c = q")
    case True
    then show ?thesis using assms rest by (auto simp: attr_value_len_def len_ok_def)
  next
    case False
    then have "attr_loop q asp 1 cs = (n, closed)" using assms rest by (auto simp: attr_value_len_def)
    from attr_loop_bounds [OF this] show ?thesis by (simp add: rest len_ok_def)
  qed
qed

lemma csharp_literal_len_ok [len_bounds]:
  assumes "csharp_literal_len rest = Some n"
  shows "len_ok rest n"
proof -
  let ?ps = "[uchars ''$@'' @ [0x22], uchars ''@$'' @ [0x22], uchars ''@'' @ [0x22], uchars ''$'' @ [0x22]]"
  obtain pre where f: "find (\<lambda>p. prefix p rest) ?ps = Some pre"
    using assms by (auto simp: csharp_literal_len_def split: option.splits)
  then have pre: "prefix pre rest" "2 \<le> length pre" by (auto simp: uchars_def split: if_splits)
  let ?o = "length pre - 1"
  have lens: "?o + 1 \<le> length rest" "1 \<le> ?o" using prefix_length_le [OF pre(1)] pre(2) by auto
  then have "drop ?o rest \<noteq> []" "rest \<noteq> []" by auto
  then have q: "len_ok rest (?o + quoted_len (drop ?o rest) 0x22)"
    by (intro len_ok_drop quoted_len_ok)
  have "len_ok rest (or_len rest (doubled_loop 0x22 (?o + 1) (drop (?o + 1) rest)))"
    using lens(1) \<open>rest \<noteq> []\<close> by (rule stops_len_ok [OF doubled_loop_stops])
  then show ?thesis
    using assms q unfolding csharp_literal_len_def f option.case Let_def by (metis option.inject)
qed

lemma python_prefixed_len_ok [len_bounds]:
  assumes "python_prefixed_len rest sq = Some n"
  shows "len_ok rest n"
proof -
  define p where "p = or_len rest (position (\<lambda>c. \<not> is_ascii_alphabetic c) rest)"
  define q where "q = drop p rest"
  consider k where "triple_quoted_len q False = Some k" "n = p + k"
    | "prefix [0x22] q" "n = p + quoted_len q 0x22"
    | "prefix [0x27] q" "n = p + single_quoted_len q"
    using assms unfolding python_prefixed_len_def Let_def p_def [symmetric] q_def [symmetric]
    by (auto split: if_splits option.splits)
  then show ?thesis
  proof cases
    case 1
    then show ?thesis using triple_quoted_len_ok len_ok_drop q_def by blast
  next
    case 2
    then have "q \<noteq> []" by auto
    then show ?thesis using 2 quoted_len_ok len_ok_drop q_def by blast
  next
    case 3
    then have "q \<noteq> []" "hd q \<noteq> 10" by (auto simp: prefix_def)
    then show ?thesis using 3 single_quoted_len_ok len_ok_drop q_def by blast
  qed
qed

lemma find_sub_ok: "find_sub w (drop b rest) = Some p \<Longrightarrow> b \<le> length rest \<Longrightarrow> w \<noteq> [] \<Longrightarrow> len_ok rest (b + p + length w)"
  using find_sub_le [of w "drop b rest" p] by (cases w) (auto simp: len_ok_def)

lemma r_raw_len_ok [len_bounds]: "r_raw_len b = Inr (Some n) \<Longrightarrow> len_ok b n"
  by (auto simp: r_raw_len_def Let_def bind_eq_Some_conv simp del: find_sub.simps split: if_splits option.splits
      dest!: find_sub_le intro: simp: len_ok_def)

lemma prefixed_literal_len_ok [len_bounds]:
  assumes "prefixed_literal_len rest = Some n" "rest \<noteq> []"
  shows "len_ok rest n"
proof -
  define p where "p = (if hd rest = uc CHR ''b'' \<or> hd rest = uc CHR ''c'' then 1 else 0 :: nat) + 1"
  define h where "h = length (takeWhile (\<lambda>c. c = uc CHR ''#'') (drop p rest))"
  define close :: "uchar list" where "close = [0x22] @ replicate h (uc CHR ''#'')"
  consider "p + h < length rest"
      "n = or_len rest (map_option (\<lambda>q. p + h + 1 + q + length close) (find_sub close (drop (p + h + 1) rest)))"
    | q where "1 < length rest" "n = 1 + quoted_len (drop 1 rest) q"
    using assms(1)
    by (auto simp: prefixed_literal_len_def Let_def p_def h_def close_def simp del: find_sub.simps split: if_splits)
  then show ?thesis
  proof cases
    case 1
    show ?thesis unfolding 1(2)
    proof (rule or_len_ok [OF assms(2)])
      show "len_ok rest k"
        if "map_option (\<lambda>q. p + h + 1 + q + length close) (find_sub close (drop (p + h + 1) rest)) = Some k" for k
        using that find_sub_ok [of close "p + h + 1" rest] 1(1) by (auto simp: close_def)
    qed
  next
    case 2
    then have "drop 1 rest \<noteq> []" by simp
    then show ?thesis unfolding 2(2) by (intro len_ok_drop quoted_len_ok)
  qed
qed

lemma regex_len_ok [len_bounds]: "regex_len rest = Some n \<Longrightarrow> rest \<noteq> [] \<Longrightarrow> len_ok rest n"
  using regex_loop_stops [of 1 "tl rest" False False]
  by (cases rest) (auto simp: regex_len_def len_ok_def split: if_splits)

lemma aspx_len_ok [len_bounds]:
  assumes "aspx_len rest = Some (n, cl)"
  shows "len_ok rest n"
proof -
  have len: "length s \<le> length rest" if "prefix (uchars s) rest" for s
    using prefix_length_le [OF that] by (simp add: uchars_def)
  show ?thesis
  proof (cases "prefix (uchars ''<%--'') rest")
    case True
    then have l: "rest \<noteq> []" "4 \<le> length rest" using len [OF True] by auto
    have n: "n = or_len rest (map_option (\<lambda>p. p + 8) (find_sub (uchars ''--%>'') (drop 4 rest)))"
      using assms True by (simp add: aspx_len_def)
    show ?thesis unfolding n
    proof (rule or_len_ok [OF l(1)])
      fix k
      assume "map_option (\<lambda>p. p + 8) (find_sub (uchars ''--%>'') (drop 4 rest)) = Some k"
      then obtain p where "find_sub (uchars ''--%>'') (drop 4 rest) = Some p" "k = 4 + p + 4" by auto
      then show "len_ok rest k" using find_sub_ok [of "uchars ''--%>''" 4 rest p] l by (simp add: uchars_def)
    qed
  next
    case False
    then have "prefix (uchars ''%>'') rest \<or> prefix (uchars ''<%'') rest"
      using assms by (auto simp: aspx_len_def split: if_splits)
    then have "2 \<le> length rest" using len [of "''%>''"] len [of "''<%''"] by auto
    moreover have "n = 2 \<or> n = 3 \<and> drop 2 rest \<noteq> []"
      using assms False by (auto simp: aspx_len_def Let_def starts_with_where_def split: if_splits)
    ultimately show ?thesis by (auto simp: len_ok_def)
  qed
qed

lemma length_trim_end_where: "length (trim_end_where p s) \<le> length s"
  by (metis trim_end_where_def length_dropWhile_le length_rev)

lemma number_len_ok [len_bounds]:
  assumes "rest \<noteq> []"
  shows "len_ok rest (number_len ut rest)"
proof -
  have "length (trim_end_where p (take n rest)) \<le> length rest" for p n
    using length_trim_end_where [of p "take n rest"] by simp
  then show ?thesis using assms by (simp add: number_len_def drop_dots_def len_ok_def Suc_le_eq)
qed

subsection \<open>Rules\<close>

text \<open>What a rule leaves as it was: everything but the lexing context.\<close>

definition same_place :: "lexer \<Rightarrow> lexer \<Rightarrow> bool" where
  "same_place lx lx' \<longleftrightarrow>
     lx_src lx' = lx_src lx \<and> lx_opts lx' = lx_opts lx \<and> lx_out lx' = lx_out lx \<and> lx_i lx' = lx_i lx \<and>
     lx_line lx' = lx_line lx \<and> lx_col lx' = lx_col lx"

definition rule_ok :: "uchar list \<Rightarrow> lexer \<Rightarrow> lexed option \<Rightarrow> bool" where
  "rule_ok rest lx r \<longleftrightarrow> (case r of None \<Rightarrow> True | Some (n, _, lx') \<Rightarrow> len_ok rest n \<and> same_place lx lx')"

lemma same_place_refl [simp]: "same_place lx lx"
  by (simp add: same_place_def)

lemma same_place_trans: "same_place a b \<Longrightarrow> same_place b c \<Longrightarrow> same_place a c"
  by (simp add: same_place_def)

lemma rule_ok_None [simp]: "rule_ok rest lx None"
  by (simp add: rule_ok_def)

lemma rule_ok_when: "(b \<Longrightarrow> rule_ok rest lx r) \<Longrightarrow> rule_ok rest lx (when_rule b r)"
  by (simp add: when_rule_def)

lemma rule_ok_class: "(\<And>n. r = Some n \<Longrightarrow> len_ok rest n) \<Longrightarrow> rule_ok rest lx (as_class cl lx r)"
  by (cases r) (auto simp: rule_ok_def as_class_def)

lemma rule_ok_class_Some: "len_ok rest n \<Longrightarrow> rule_ok rest lx (as_class cl lx (Some n))"
  by (rule rule_ok_class) simp

lemma rule_ok_Some: "len_ok rest n \<Longrightarrow> same_place lx lx' \<Longrightarrow> rule_ok rest lx (Some (n, cl, lx'))"
  by (simp add: rule_ok_def)

lemma first_some_ok: "\<lbrakk>list_all (rule_ok rest lx) rs; first_some rs = Some r\<rbrakk> \<Longrightarrow> rule_ok rest lx (Some r)"
  by (induction rs rule: first_some.induct) auto

lemma first_some_None: "first_some (r # rs) = None \<Longrightarrow> r = None \<and> first_some rs = None"
  by (cases r) auto

lemma aspx_rule_ok: "rule_ok rest lx (aspx_rule rest lx)"
  unfolding aspx_rule_def
  by (intro rule_ok_when) (auto simp: rule_ok_def same_place_def dest: aspx_len_ok split: option.splits)

lemma pending_rule_ok:
  assumes "rest \<noteq> []" "aspx_rule rest lx = None"
  shows "rule_ok rest lx (pending_rule rest lx)"
proof -
  have "\<not> (aspx (lx_opts lx) \<and> prefix (uchars ''<%'') rest)"
    using assms(2) by (auto simp: aspx_rule_def when_rule_def aspx_len_def Let_def split: if_splits)
  then show ?thesis
    using assms(1) attr_value_len_0 [of rest _ "aspx (lx_opts lx)"]
    by (auto simp: pending_rule_def when_rule_def rule_ok_def same_place_def split: option.splits prod.splits)
qed

lemma find_sub_map_ok:
  assumes "rest \<noteq> []" "prefix pre rest" "w \<noteq> []" "k \<le> length pre" "n = k + length w"
  shows "len_ok rest (or_len rest (map_option (\<lambda>p. p + n) (find_sub w (drop k rest))))"
proof (cases "find_sub w (drop k rest)")
  case None
  then show ?thesis using assms(1) by (simp add: or_len_def len_ok_def Suc_le_eq)
next
  case (Some p)
  have "k \<le> length rest" using prefix_length_le [OF assms(2)] assms(4) by simp
  then show ?thesis using find_sub_ok [OF Some _ assms(3)] assms(5) by (simp add: Some or_len_def ac_simps)
qed

lemma line_comment_rule_ok:
  assumes "rest \<noteq> []" "hd rest \<noteq> 10"
  shows "rule_ok rest lx (line_comment_rule rest lx)"
proof -
  have n: "len_ok rest (to_eol rest)" using to_eol_ok [OF assms] .
  have "len_ok rest k" if k: "find_sub (uchars ''%>'') (take (to_eol rest) rest) = Some k"
    and pre: "prefix (uchars ''//'') rest" for k
  proof -
    have "\<not> prefix (uchars ''%>'') (take (to_eol rest) rest)"
      using pre n by (cases "to_eol rest") (auto simp: uchars_def prefix_def len_ok_def)
    then have "0 < k" using find_sub_ge [OF k] by blast
    then show ?thesis using find_sub_le [OF k] by (auto simp: len_ok_def)
  qed
  then show ?thesis using n
    by (auto simp: line_comment_rule_def when_rule_def rule_ok_def Let_def simp del: find_sub.simps split: option.splits)
qed

lemma comment_rules_ok:
  assumes "rest \<noteq> []" "hd rest \<noteq> 10" "first_some (comment_rules rest lx) = Some r"
  shows "rule_ok rest lx (Some r)"
proof (cases "aspx_rule rest lx")
  case (Some a)
  then show ?thesis using assms(3) aspx_rule_ok [of rest lx] by (simp add: comment_rules_def Let_def)
next
  case None
  let ?rs = "tl (comment_rules rest lx)"
  have "list_all (rule_ok rest lx) ?rs"
    unfolding comment_rules_def Let_def list.sel list.pred_inject
    by (intro conjI TrueI pending_rule_ok [OF assms(1) None] line_comment_rule_ok [OF assms(1,2)]
        rule_ok_when rule_ok_class_Some to_eol_ok [OF assms(1,2)] nested_len_ok [OF assms(1)]
        find_sub_map_ok [OF assms(1)]) (auto simp: uchars_def)
  moreover have "first_some ?rs = Some r" using None assms(3) by (simp add: comment_rules_def Let_def)
  ultimately show ?thesis by (rule first_some_ok)
qed

lemma heredoc_rule_ok: "rule_ok rest lx (heredoc_rule rest lx)"
  unfolding heredoc_rule_def
  by (intro rule_ok_when) (auto simp: rule_ok_def same_place_def dest: heredoc_marker_ok split: option.splits)

lemma shell_quote_ok:
  assumes "rest \<noteq> []" "hd rest \<noteq> 10"
  shows "len_ok rest (case position P (drop 1 rest) of Some p \<Rightarrow> p + 2 | None \<Rightarrow> line_len rest)"
  using line_len_ok [OF assms] by (auto simp: len_ok_def split: option.splits dest!: position_Some)

lemma backtick_ok:
  assumes "rest \<noteq> []"
  shows "len_ok rest (or_len rest (map_option (\<lambda>p. p + 2) (position P (drop 1 rest))))"
  by (rule or_len_ok [OF assms]) (auto simp: len_ok_def dest!: position_Some)

lemma literal_rules_ok:
  assumes "rest \<noteq> []" "hd rest \<noteq> 10"
  shows "list_all (rule_ok rest lx) (literal_rules ut rest lx)"
proof -
  have dollar: "len_ok rest (1 + quoted_len (drop 1 rest) q)" if "prefix (uchars ''$'' @ [0x27]) rest" for q
  proof -
    have "drop 1 rest \<noteq> []" using that by (auto simp: uchars_def prefix_def)
    then show ?thesis by (intro len_ok_drop quoted_len_ok)
  qed
  have raw: "len_ok rest n" if "(case r_raw_len rest of Inl _ \<Rightarrow> None | Inr r \<Rightarrow> r) = Some n" for n
    using that r_raw_len_ok [of rest n] by (auto split: sum.splits)
  show ?thesis
    unfolding literal_rules_def Let_def list.pred_inject
    by (intro conjI TrueI heredoc_rule_ok rule_ok_when rule_ok_class)
      (auto simp: doubled_len_ok [OF assms(1)] backtick_ok [OF assms(1), simplified] shell_quote_ok [OF assms, simplified]
        dollar [simplified] raw prefixed_literal_len_ok [OF _ assms(1)]
        intro: shell_var_len_ok triple_quoted_len_ok sql_bracket_len_ok csharp_literal_len_ok python_prefixed_len_ok)
qed

lemma shell_dq_len_ok [len_bounds]:
  assumes "shell_dq_len rest = Inr (Some n)" "rest \<noteq> []"
  shows "len_ok rest n"
proof -
  obtain b where "shell_dq_end (tl rest) 1 0 False = Some (n, b)"
    using assms(1) by (auto simp: shell_dq_len_def split: option.splits if_splits)
  then show ?thesis
    using shell_ends_stop [of "tl rest" "length (tl rest)" 1 0 False 0] assms(2) by (auto simp: len_ok_def)
qed

lemma markup_quote_rule_ok: "rest \<noteq> [] \<Longrightarrow> rule_ok rest lx (markup_quote_rule rest lx)"
  unfolding markup_quote_rule_def Let_def
  by (intro rule_ok_when)
    (auto simp: rule_ok_def same_place_def len_ok_def Suc_le_eq dest!: attr_value_len_1 [unfolded One_nat_def] split: prod.splits)

lemma word_rules_ok:
  assumes "rest \<noteq> []" "hd rest \<noteq> 10"
  shows "list_all (rule_ok rest lx) (word_rules ut rest lx)"
proof -
  have dq: "len_ok rest n" if "(case shell_dq_len rest of Inl _ \<Rightarrow> None | Inr r \<Rightarrow> r) = Some n" for n
    using that shell_dq_len_ok [OF _ assms(1), of n] by (auto split: sum.splits)
  have id: "len_ok rest (ident_len ut rest mk hy pr)" if "is_alphabetic ut (hd rest) \<or> hd rest = uc CHR ''_''" for mk hy pr
    using that by (intro ident_len_ok [OF assms(1)]) (auto simp: word_char_def is_alphanumeric_def)
  have dbl: "len_ok rest (doubled_len (take (line_len rest) rest))"
    by (rule len_ok_take [of "line_len rest"], rule doubled_len_ok, rule take_line_ne [OF assms])
  show ?thesis
    unfolding word_rules_def Let_def list.pred_inject
    by (intro conjI TrueI rule_ok_when rule_ok_class markup_quote_rule_ok [OF assms(1)])
      (auto simp: dbl number_len_ok [OF assms(1)] single_quoted_len_ok [OF assms] simp del: of_char_Char
        intro: id dq)
qed

lemma len_ok_one: "rest \<noteq> [] \<Longrightarrow> len_ok rest 1"
  by (simp add: len_ok_def Suc_le_eq)

lemma final_rules_ok:
  assumes "rest \<noteq> []"
  shows "list_all (rule_ok rest lx) (final_rules rest lx)"
  unfolding final_rules_def Let_def list.pred_inject
  by (intro conjI TrueI rule_ok_when rule_ok_class)
    (auto simp: quoted_len_ok [OF assms] len_ok_one [OF assms, simplified] intro: regex_len_ok [OF _ assms])

lemma rule_ok_same: "same_place lx lx' \<Longrightarrow> rule_ok rest lx' r \<Longrightarrow> rule_ok rest lx r"
  by (auto simp: rule_ok_def split: option.splits intro: same_place_trans)

lemma first_some_append: "first_some (xs @ ys) = (case first_some xs of None \<Rightarrow> first_some ys | Some r \<Rightarrow> Some r)"
  by (induction xs rule: first_some.induct) auto

lemma note_same [simp]:
  "same_place lx (note_r_raw rest lx)" "same_place lx (note_shell_nest rest lx)"
  by (simp_all add: note_r_raw_def note_shell_nest_def same_place_def)

text \<open>One token: at least one character, at most the rest, and the place unchanged.\<close>

lemma lex_token_ok:
  assumes "rest \<noteq> []" "hd rest \<noteq> 10"
  shows "rule_ok rest lx (Some (lex_token ut rest lx))"
proof -
  let ?l1 = "note_r_raw rest lx"
  let ?l2 = "note_shell_nest rest ?l1"
  have s2: "same_place lx ?l2" using same_place_trans note_same by blast
  have a: "rule_ok rest lx (Some r)" if "first_some (comment_rules rest lx @ literal_rules ut rest lx) = Some r" for r
    using that comment_rules_ok [OF assms] first_some_ok [OF literal_rules_ok [OF assms]]
    by (auto simp: first_some_append split: option.splits)
  have b: "rule_ok rest lx (Some r)" if "first_some (word_rules ut rest ?l1) = Some r" for r
    using first_some_ok [OF word_rules_ok [OF assms] that] rule_ok_same note_same by blast
  have c: "rule_ok rest lx (Some r)" if "first_some (final_rules rest ?l2) = Some r" for r
    using first_some_ok [OF final_rules_ok [OF assms(1)] that] rule_ok_same s2 by blast
  show ?thesis
    using a b c rule_ok_Some [OF len_ok_one [OF assms(1)] s2]
    by (simp add: lex_token_def Let_def split: option.split)
qed

end
