(* ===== verification/Lexer_Tiling.thy ===== *)
theory Lexer_Tiling
  imports Lex_Bounds
begin

text \<open>
  What the tokenizer promises: for every text, dialect and character tables it returns, and its tokens
  tile the text, with exact spans and nothing but white space between them.
\<close>

subsection \<open>Positions and tilings\<close>

text \<open>The line and column after a text, counted from one; a BOM takes no column.\<close>

definition line_no :: "uchar list \<Rightarrow> nat" where
  "line_no p = 1 + length (filter (\<lambda>c. c = 10) p)"

definition col_no :: "uchar list \<Rightarrow> nat" where
  "col_no p = 1 + length (filter (\<lambda>c. c \<noteq> BOM) (rev (takeWhile (\<lambda>c. c \<noteq> 10) (rev p))))"

text \<open>The token for the text \<open>w\<close> that follows the text \<open>p\<close>.\<close>

definition token_at :: "uchar list \<Rightarrow> uchar list \<Rightarrow> token_class \<Rightarrow> token_decl" where
  "token_at p w cl =
     \<lparr>td_text = str_of w, td_class = cl,
      td_span = \<lparr>sp_start = of_nat (byte_len p), sp_end = of_nat (byte_len (p @ w)),
                 start_line = of_nat (line_no p), start_col = of_nat (col_no p),
                 end_line = of_nat (line_no (p @ w)), end_col = of_nat (col_no (p @ w))\<rparr>\<rparr>"

inductive tiled :: "uchar list \<Rightarrow> token_decl list \<Rightarrow> bool" where
  tiled_Nil: "tiled [] []"
| tiled_gap: "tiled p ts \<Longrightarrow> is_gap c \<Longrightarrow> tiled (p @ [c]) ts"
| tiled_token: "tiled p ts \<Longrightarrow> w \<noteq> [] \<Longrightarrow> tiled (p @ w) (ts @ [token_at p w cl])"

lemma tiled_gaps: "\<lbrakk>tiled p ts; list_all is_gap g\<rbrakk> \<Longrightarrow> tiled (p @ g) ts"
proof (induction g rule: rev_induct)
  case (snoc c g)
  then show ?case using tiled_gap [of "p @ g" ts c] by simp
qed simp

lemma pos_snoc:
  "line_no (p @ [c]) = (if c = 10 then line_no p + 1 else line_no p)"
  "col_no (p @ [c]) = (if c = 10 then 1 else if c = BOM then col_no p else col_no p + 1)"
  by (auto simp: line_no_def col_no_def)

lemma fold_step_pos:
  "fold step_pos w (of_nat (line_no p), of_nat (col_no p)) =
     (of_nat (line_no (p @ w)), of_nat (col_no (p @ w)))"
proof (induction w arbitrary: p)
  case (Cons c w)
  have "step_pos c (of_nat (line_no p), of_nat (col_no p)) =
      (of_nat (line_no (p @ [c])), of_nat (col_no (p @ [c])))"
    by (simp add: step_pos_def pos_snoc)
  then show ?case using Cons [of "p @ [c]"] by simp
qed simp

lemma take_slice: "\<lbrakk>a \<le> b; b \<le> length s\<rbrakk> \<Longrightarrow> take b s = take a s @ slice s a b"
  by (simp add: slice_def) (metis le_add_diff_inverse take_add)

lemma slice_ne: "\<lbrakk>a < b; b \<le> length s\<rbrakk> \<Longrightarrow> slice s a b \<noteq> []"
  by (simp add: slice_def)

lemma slice_append: "\<lbrakk>a \<le> b; b \<le> c\<rbrakk> \<Longrightarrow> slice s a c = slice s a b @ slice s b c"
proof -
  assume "a \<le> b" "b \<le> c"
  then have c: "c - a = (b - a) + (c - b)" and b: "b - a + a = b" by auto
  show ?thesis unfolding slice_def c take_add drop_drop b ..
qed

subsection \<open>The invariant of the lexer\<close>

definition lexer_inv :: "lexer \<Rightarrow> bool" where
  "lexer_inv lx \<longleftrightarrow>
     lx_i lx \<le> length (lx_src lx) \<and> tiled (take (lx_i lx) (lx_src lx)) (lx_out lx) \<and>
     lx_line lx = of_nat (line_no (take (lx_i lx) (lx_src lx))) \<and>
     lx_col lx = of_nat (col_no (take (lx_i lx) (lx_src lx)))"

text \<open>Only gaps between the position and \<open>a\<close>.\<close>

definition gaps_to :: "nat \<Rightarrow> lexer \<Rightarrow> bool" where
  "gaps_to a lx \<longleftrightarrow>
     lexer_inv lx \<and> lx_i lx \<le> a \<and> a \<le> length (lx_src lx) \<and>
     list_all is_gap (slice (lx_src lx) (lx_i lx) a)"

lemma lexer_inv_new: "lexer_inv (lexer_new src opts)"
  by (simp add: lexer_inv_def lexer_new_def tiled_Nil line_no_def col_no_def)

lemma lexer_inv_same: "same_place lx lx' \<Longrightarrow> lexer_inv lx' = lexer_inv lx"
  by (simp add: same_place_def lexer_inv_def)

lemma adv_to_fields [simp]:
  "lx_src (adv_to a lx) = lx_src lx" "lx_i (adv_to a lx) = a" "lx_out (adv_to a lx) = lx_out lx"
  "lx_opts (adv_to a lx) = lx_opts lx"
  by (simp_all add: adv_to_def split_beta)

lemma adv_to_pos:
  assumes "lexer_inv lx" "lx_i lx \<le> a" "a \<le> length (lx_src lx)"
  shows "lx_line (adv_to a lx) = of_nat (line_no (take a (lx_src lx)))"
    "lx_col (adv_to a lx) = of_nat (col_no (take a (lx_src lx)))"
  using assms fold_step_pos [of "slice (lx_src lx) (lx_i lx) a" "take (lx_i lx) (lx_src lx)"]
  by (simp_all add: adv_to_def lexer_inv_def take_slice [OF assms(2,3)])

lemma gaps_to_self: "lexer_inv lx \<Longrightarrow> gaps_to (lx_i lx) lx"
  by (simp add: gaps_to_def lexer_inv_def slice_def)

lemma adv_to_inv: "gaps_to a lx \<Longrightarrow> lexer_inv (adv_to a lx)"
  using adv_to_pos [of lx a] tiled_gaps take_slice [of "lx_i lx" a "lx_src lx"]
  by (auto simp: gaps_to_def lexer_inv_def)

lemma push_fields [simp]:
  "lx_src (push e cl lx) = lx_src lx" "lx_i (push e cl lx) = e" "lx_opts (push e cl lx) = lx_opts lx"
  by (simp_all add: push_def Let_def)

lemma push_inv:
  assumes "lexer_inv lx" "lx_i lx < e" "e \<le> length (lx_src lx)"
  shows "lexer_inv (push e cl lx)"
proof -
  let ?s = "lx_src lx"
  have e: "lx_i lx \<le> e" using assms(2) by simp
  have t: "take e ?s = take (lx_i lx) ?s @ slice ?s (lx_i lx) e" by (rule take_slice [OF e assms(3)])
  have out: "lx_out (push e cl lx) = lx_out lx @ [token_at (take (lx_i lx) ?s) (slice ?s (lx_i lx) e) cl]"
    using assms(1) adv_to_pos [OF assms(1) e assms(3)] t
    by (simp add: push_def Let_def token_at_def lexer_inv_def)
  have "tiled (take e ?s) (lx_out (push e cl lx))"
    unfolding out t using assms(1) slice_ne [OF assms(2,3)]
    by (intro tiled_token) (auto simp: lexer_inv_def)
  then show ?thesis using adv_to_pos [OF assms(1) e assms(3)] assms(3)
    by (simp add: lexer_inv_def push_def Let_def)
qed

subsection \<open>Trimmed tokens\<close>

lemma trim_end_gaps:
  obtains g where "s = trim_end_where P s @ g" "list_all P g"
proof -
  have "rev s = takeWhile P (rev s) @ dropWhile P (rev s)" by simp
  then have "s = trim_end_where P s @ rev (takeWhile P (rev s))"
    unfolding trim_end_where_def by (metis rev_append rev_rev_ident)
  moreover have "list_all P (rev (takeWhile P (rev s)))"
    by (auto simp: list_all_iff dest: set_takeWhileD)
  ultimately show thesis using that by blast
qed

lemma slice_split:
  assumes "slice s a b = u @ v" "a \<le> b" "b \<le> length s"
  shows "slice s a (a + length u) = u" "slice s (a + length u) b = v" "a + length u \<le> b"
proof -
  have len: "length u + length v = b - a" using arg_cong [OF assms(1), of length] assms(2,3) by simp
  then show le: "a + length u \<le> b" using assms(2) by simp
  have "slice s a b = slice s a (a + length u) @ slice s (a + length u) b"
    using le by (intro slice_append) auto
  moreover have "length (slice s a (a + length u)) = length u" using le assms(3) by simp
  ultimately show "slice s a (a + length u) = u" "slice s (a + length u) b = v"
    using assms(1) by (metis append_eq_append_conv)+
qed

lemma gaps_to_extend:
  assumes "gaps_to a lx" "a \<le> b" "b \<le> length (lx_src lx)" "list_all is_gap (slice (lx_src lx) a b)"
  shows "gaps_to b lx"
  using assms slice_append [of "lx_i lx" a b "lx_src lx"] by (auto simp: gaps_to_def)

lemma trimmed_gaps:
  assumes "gaps_to from lx" "from \<le> to" "to \<le> length (lx_src lx)"
  shows "gaps_to to (trimmed from to cl lx)"
    and "lx_src (trimmed from to cl lx) = lx_src lx" "lx_opts (trimmed from to cl lx) = lx_opts lx"
proof -
  let ?s = "lx_src lx"
  define t where "t = dropWhile is_gap (slice ?s from to)"
  define u where "u = trim_end_where is_gap t"
  define g where "g = takeWhile is_gap (slice ?s from to)"
  obtain v where v: "t = u @ v" "list_all is_gap v" using trim_end_gaps [of t is_gap] unfolding u_def by blast
  have w: "slice ?s from to = g @ t" by (simp add: g_def t_def)
  have gg: "list_all is_gap g" by (auto simp: g_def list_all_iff dest: set_takeWhileD)
  note gt = slice_split [OF w assms(2,3)]
  define start where "start = from + length g"
  have start: "start = to - length t"
    using arg_cong [OF w, of length] assms(2,3) by (simp add: start_def)
  have st: "slice ?s start to = u @ v" "start \<le> to" using gt v by (simp_all add: start_def)
  note uv = slice_split [OF st(1,2) assms(3)]
  have ready: "gaps_to start lx" unfolding start_def
    by (rule gaps_to_extend [OF assms(1)]) (use gt gg assms in auto)
  have eq: "trimmed from to cl lx = (if length u > 0 then push (start + length u) cl (adv_to start lx) else lx)"
    by (simp add: trimmed_def t_def [symmetric] u_def [symmetric] start [symmetric] Let_def)
  show "lx_src (trimmed from to cl lx) = ?s" "lx_opts (trimmed from to cl lx) = lx_opts lx"
    unfolding eq by simp_all
  show "gaps_to to (trimmed from to cl lx)"
  proof (cases "u = []")
    case True
    then show ?thesis unfolding eq using gaps_to_extend [OF ready st(2) assms(3)] st(1) v by simp
  next
    case False
    let ?p = "push (start + length u) cl (adv_to start lx)"
    have "lexer_inv ?p"
      using adv_to_inv [OF ready] False uv(3) assms(3) by (intro push_inv) auto
    then have "gaps_to to ?p" using uv v assms(3) by (simp add: gaps_to_def)
    then show ?thesis unfolding eq using False by simp
  qed
qed

subsection \<open>Heredoc bodies\<close>

lemma heredoc_end_bounds:
  "heredoc_end delim strip p s = Some e \<Longrightarrow> p \<le> e \<and> e \<le> p + length s"
proof (induction delim strip p s rule: heredoc_end.induct)
  case (1 delim strip p s)
  show ?case
  proof (cases "s = []")
    case True
    then show ?thesis using 1(2) by (simp add: heredoc_end.simps [of _ _ _ "[]"])
  next
    case False
    define le where "le = to_eol s"
    define content where "content = (if suffix [13] (take le s) then butlast (take le s) else take le s)"
    define body where "body = (if strip then dropWhile (\<lambda>c. c = 9) content else content)"
    have eq: "heredoc_end delim strip p s =
        (if body = delim then Some (p + length content)
         else heredoc_end delim strip (p + le + 1) (drop (le + 1) s))"
      unfolding heredoc_end.simps [of delim strip p s] Let_def body_def content_def le_def
      by (simp only: False if_False)
    have le: "le \<le> length s" unfolding le_def by (rule to_eol_le)
    then have len: "length content \<le> length s" by (auto simp: content_def)
    show ?thesis
    proof (cases "body = delim")
      case True
      then show ?thesis using 1(2) len by (simp add: eq)
    next
      case nb: False
      then have r: "heredoc_end delim strip (p + le + 1) (drop (le + 1) s) = Some e" using 1(2) eq by simp
      have ih: "p + le + 1 \<le> e \<and> e \<le> p + le + 1 + length (drop (le + 1) s)"
        using 1(1) [OF False le_def refl content_def
            body_def nb r] by simp
      show ?thesis
      proof (cases "le + 1 \<le> length s")
        case True
        then show ?thesis using ih unfolding length_drop by linarith
      next
        case False
        then have "drop (le + 1) s = []" by simp
        then show ?thesis using r by (simp add: heredoc_end.simps [of _ _ _ "[]"])
      qed
    qed
  qed
qed

lemma position_gaps:
  assumes "position (\<lambda>c. \<not> is_gap c) (slice s a b) = r" "a \<le> b" "b \<le> length s"
    and "f = (case r of Some q \<Rightarrow> a + q | None \<Rightarrow> b)"
  shows "a \<le> f" "f \<le> b" "list_all is_gap (slice s a f)"
proof -
  show "a \<le> f" "f \<le> b"
    using assms by (auto split: option.splits dest!: position_Some)
  show "list_all is_gap (slice s a f)"
  proof (cases r)
    case None
    then show ?thesis using assms by (simp add: position_None list_all_iff)
  next
    case (Some q)
    have q: "q < length (slice s a b)" "\<forall>j < q. is_gap (slice s a b ! j)"
      using position_Some assms(1) Some by blast+
    have "slice s a (a + q) = take q (slice s a b)" using q(1) by (simp add: slice_def min_absorb1)
    then show ?thesis using q Some assms(4) by (auto simp: list_all_length)
  qed
qed

text \<open>What a step of the free-form rules keeps.\<close>

definition kept :: "nat \<Rightarrow> lexer \<Rightarrow> lexer \<Rightarrow> bool" where
  "kept limit lx lx' \<longleftrightarrow>
     lexer_inv lx' \<and> lx_src lx' = lx_src lx \<and> lx_opts lx' = lx_opts lx \<and> lx_i lx \<le> lx_i lx' \<and> lx_i lx' \<le> limit"

lemma kept_refl: "lexer_inv lx \<Longrightarrow> lx_i lx \<le> limit \<Longrightarrow> kept limit lx lx"
  by (simp add: kept_def)

lemma kept_trans: "kept limit a b \<Longrightarrow> kept limit b c \<Longrightarrow> kept limit a c"
  by (simp add: kept_def)

lemma heredoc_body_kept:
  assumes "lexer_inv lx" "lx_i lx \<le> limit" "limit \<le> length (lx_src lx)"
  shows "kept limit lx (heredoc_body limit delim strip lx)"
proof -
  let ?s = "lx_src lx" and ?i = "lx_i lx"
  define e where "e = (case heredoc_end delim strip ?i (slice ?s ?i limit) of Some e \<Rightarrow> e | None \<Rightarrow> limit)"
  define f where "f = (case position (\<lambda>c. \<not> is_gap c) (slice ?s ?i e) of Some q \<Rightarrow> ?i + q | None \<Rightarrow> e)"
  have eq: "heredoc_body limit delim strip lx = (if f < e then push e Literal (adv_to f lx) else adv_to e lx)"
    unfolding heredoc_body_def Let_def f_def e_def ..
  have e: "?i \<le> e" "e \<le> limit" "e \<le> length ?s"
    using heredoc_end_bounds [of delim strip ?i "slice ?s ?i limit"] assms by (auto simp: e_def split: option.splits)
  note g = position_gaps [OF refl e(1,3) f_def]
  have r: "gaps_to f lx" using g e assms(1) by (simp add: gaps_to_def)
  show ?thesis
  proof (cases "f < e")
    case True
    then have "lexer_inv (push e Literal (adv_to f lx))"
      using adv_to_inv [OF r] e by (intro push_inv) auto
    then show ?thesis using True e by (simp add: kept_def eq)
  next
    case False
    then have "f = e" using g by simp
    then show ?thesis using adv_to_inv [OF r] e by (simp add: kept_def eq)
  qed
qed

lemma newline_gap: "is_gap 10"
  by (simp add: is_gap_def is_whitespace_def)

lemma heredoc_newline_kept:
  assumes "lexer_inv lx" "limit \<le> length (lx_src lx)" "lx_i lx \<le> limit"
    and nl: "position (\<lambda>c. c = 10) (slice (lx_src lx) (lx_i lx) limit) = Some n"
    and g: "list_all is_gap (slice (lx_src lx) (lx_i lx) (lx_i lx + n))"
  shows "kept limit lx (adv_to (lx_i lx + n + 1) lx)"
proof -
  let ?s = "lx_src lx" and ?i = "lx_i lx"
  have n: "n < limit - ?i" "slice ?s ?i limit ! n = 10"
    using position_Some [OF nl] assms(2) by auto
  then have "slice ?s (?i + n) (?i + n + 1) = [10]"
    using assms(2) by (simp add: slice_def take_Suc_conv_app_nth hd_drop_conv_nth take_Suc)
  then have "slice ?s ?i (?i + n + 1) = slice ?s ?i (?i + n) @ [10]"
    using slice_append [of ?i "?i + n" "?i + n + 1" ?s] by simp
  then have "gaps_to (?i + n + 1) lx"
    using g n assms newline_gap by (simp add: gaps_to_def)
  from adv_to_inv [OF this] show ?thesis using n by (simp add: kept_def)
qed

lemma heredoc_loop_kept:
  "\<lbrakk>lexer_inv lx; lx_i lx \<le> limit; limit \<le> length (lx_src lx)\<rbrakk> \<Longrightarrow> kept limit lx (heredoc_loop limit hs lx)"
proof (induction limit hs lx rule: heredoc_loop.induct)
  case (1 limit lx)
  then show ?case by (simp add: kept_refl)
next
  case (2 limit delim strip hs lx)
  define lx' where "lx' = heredoc_body limit delim strip lx"
  have k: "kept limit lx lx'" unfolding lx'_def by (rule heredoc_body_kept) (use 2 in auto)
  then have k': "lexer_inv lx'" "lx_src lx' = lx_src lx" "lx_i lx' \<le> limit" by (simp_all add: kept_def)
  show ?case
  proof (cases "lx_i lx \<ge> limit \<or> position (\<lambda>c. c = 10) (slice (lx_src lx') (lx_i lx') limit) = None")
    case True
    then show ?thesis using 2 k by (auto simp: kept_refl Let_def lx'_def)
  next
    case False
    then obtain nl where Some: "position (\<lambda>c. c = 10) (slice (lx_src lx') (lx_i lx') limit) = Some nl"
      and lim: "\<not> lx_i lx \<ge> limit" by auto
    show ?thesis
    proof (cases "list_all is_gap (slice (lx_src lx') (lx_i lx') (lx_i lx' + nl))")
      case True
      let ?n = "adv_to (lx_i lx' + nl + 1) lx'"
      have n: "kept limit lx' ?n"
        using heredoc_newline_kept [of lx' limit nl] k' Some True 2 by simp
      have "kept limit ?n (heredoc_loop limit hs ?n)"
        using 2(1) [OF lim lx'_def Some True] n 2(4) k' by (simp add: kept_def)
      then show ?thesis using kept_trans [OF kept_trans [OF k n]] Some True lim
        by (simp add: Let_def lx'_def [symmetric])
    next
      case False
      then show ?thesis using k Some lim by (simp add: Let_def lx'_def [symmetric])
    qed
  qed
qed

subsection \<open>The free-form loop\<close>

lemma slice_one: "i < length s \<Longrightarrow> slice s i (i + 1) = [s ! i]"
  by (simp add: slice_def take_Suc hd_drop_conv_nth)

lemma hd_slice: "\<lbrakk>i < b; b \<le> length s\<rbrakk> \<Longrightarrow> hd (slice s i b) = s ! i"
  by (simp add: slice_def hd_drop_conv_nth)

lemma update_same [simp]:
  "same_place lx (update_tag ut rest mk len lx)" "same_place lx (update_parens rest len lx)"
  by (simp_all add: update_tag_def update_parens_def same_place_def)

lemma run_step_kept:
  assumes "lexer_inv lx" "lx_i lx < limit" "limit \<le> length (lx_src lx)"
  shows "kept limit lx (run_step ut limit lx) \<and> lx_i lx < lx_i (run_step ut limit lx)"
proof (cases "is_gap (lx_src lx ! lx_i lx)")
  case True
  let ?a = "adv_to (lx_i lx + 1) lx"
  have "gaps_to (lx_i lx + 1) lx"
    using assms True slice_one [of "lx_i lx" "lx_src lx"] by (simp add: gaps_to_def)
  then have inv: "lexer_inv ?a" by (rule adv_to_inv)
  have "same_place ?a (?a\<lparr>lx_heredocs := []\<rparr>)" by (simp add: same_place_def)
  then have "kept limit (?a\<lparr>lx_heredocs := []\<rparr>) (heredoc_bodies limit ?a)"
    unfolding heredoc_bodies_def using inv assms lexer_inv_same by (intro heredoc_loop_kept) auto
  then show ?thesis using inv assms True by (simp add: run_step_def Let_def kept_def)
next
  case False
  let ?i = "lx_i lx" and ?rest = "slice (lx_src lx) (lx_i lx) limit"
  have rest: "?rest \<noteq> []" "hd ?rest \<noteq> 10"
    using assms False newline_gap slice_ne hd_slice [OF assms(2,3)] by (auto simp del: length_slice)
  obtain len cl lx1 where tok: "lex_token ut ?rest lx = (len, cl, lx1)" by (metis prod_cases3)
  have ok: "len_ok ?rest len" "same_place lx lx1"
    using lex_token_ok [OF rest, of lx ut] tok by (simp_all add: rule_ok_def)
  define lx2 where "lx2 = update_parens ?rest len (update_tag ut ?rest (in_markup lx) len lx1)"
  have s2: "same_place lx lx2"
    unfolding lx2_def by (rule same_place_trans [OF same_place_trans [OF ok(2) update_same(1)] update_same(2)])
  have step: "run_step ut limit lx = push (?i + len) cl lx2"
    using False tok by (simp add: run_step_def Let_def lx2_def)
  have len: "0 < len" "?i + len \<le> limit" using ok(1) assms(2) by (auto simp: len_ok_def)
  have "lexer_inv (push (?i + len) cl lx2)"
    using s2 lexer_inv_same [OF s2] assms len by (intro push_inv) (auto simp: same_place_def)
  then show ?thesis using s2 len by (simp add: step kept_def same_place_def)
qed

lemma run_total:
  assumes "lexer_inv lx" "lx_i lx \<le> limit" "limit \<le> length (lx_src lx)"
  shows "\<exists>lx'. run ut limit lx = Some lx' \<and> kept limit lx lx' \<and> lx_i lx' = limit"
  using assms
proof (induction "limit - lx_i lx" arbitrary: lx rule: less_induct)
  case less
  show ?case
  proof (cases "lx_i lx < limit")
    case False
    then have "run ut limit lx = Some lx" by (simp add: run.simps)
    then show ?thesis using less.prems False kept_refl by simp
  next
    case True
    let ?n = "run_step ut limit lx"
    have k: "kept limit lx ?n" "lx_i lx < lx_i ?n"
      using run_step_kept [OF less.prems(1) True less.prems(3)] by auto
    then have "limit - lx_i ?n < limit - lx_i lx" using True by simp
    moreover have "lexer_inv ?n" "lx_i ?n \<le> limit" "limit \<le> length (lx_src ?n)"
      using k less.prems by (simp_all add: kept_def)
    ultimately obtain lx' where "run ut limit ?n = Some lx'" "kept limit ?n lx'" "lx_i lx' = limit"
      using less.hyps by blast
    moreover have "run ut limit lx = run ut limit ?n" using True by (subst run.simps) simp
    ultimately show ?thesis using kept_trans [OF k(1)] by metis
  qed
qed

subsection \<open>Fixed columns\<close>

lemma col_at_bounds:
  assumes "ls \<le> ce" "ce \<le> length src"
  shows "ls \<le> col_at src ls ce n" "col_at src ls ce n \<le> ce"
proof -
  let ?f = "filter (\<lambda>(_, c). c \<noteq> BOM) (enumerate 0 (slice src ls ce))"
  have "p < ce - ls" if "nth_opt ?f (n - 1) = Some (p, c)" for p c
  proof -
    have "(p, c) \<in> set ?f" using that by (metis nth_mem nth_opt_eq_Some_iff)
    then show ?thesis using assms by (auto simp: in_set_enumerate_eq)
  qed
  then show "ls \<le> col_at src ls ce n" "col_at src ls ce n \<le> ce"
    using assms by (auto simp: col_at_def split: option.splits simp del: nth_opt_eq_Some_iff)
qed

lemma sorted_fst_enumerate_filter: "sorted_wrt (\<lambda>a b. fst a < fst b) (filter P (enumerate k xs))"
proof -
  have "sorted_wrt (\<lambda>a b. fst a < fst b) (enumerate k xs)"
    by (simp add: sorted_wrt_iff_nth_less nth_enumerate_eq)
  then show ?thesis by (rule sorted_wrt_filter)
qed

lemma col_at_mono:
  assumes "n \<le> m" "ls \<le> ce" "ce \<le> length src"
  shows "col_at src ls ce n \<le> col_at src ls ce m"
proof -
  let ?f = "filter (\<lambda>(_, c). c \<noteq> BOM) (enumerate 0 (slice src ls ce))"
  show ?thesis
  proof (cases "m - 1 < length ?f")
    case False
    then have "col_at src ls ce m = ce" by (simp add: col_at_def nth_opt_def)
    then show ?thesis using col_at_bounds [OF assms(2,3)] by simp
  next
    case True
    have le: "n - 1 \<le> m - 1" using assms(1) by simp
    have "fst (?f ! (n - 1)) \<le> fst (?f ! (m - 1))"
    proof (cases "n - 1 = m - 1")
      case False
      then have "n - 1 < m - 1" using le by simp
      then show ?thesis
        using sorted_wrt_nth_less [OF sorted_fst_enumerate_filter _ True] by (simp add: less_imp_le)
    qed simp
    then show ?thesis using True le
      by (simp add: col_at_def nth_opt_def split_beta)
  qed
qed

lemma run_from:
  assumes "gaps_to a lx" "a \<le> b" "b \<le> length (lx_src lx)"
  shows "\<exists>lx'. run ut b (adv_to a lx) = Some lx' \<and> gaps_to b lx' \<and> lx_src lx' = lx_src lx"
proof -
  have "lexer_inv (adv_to a lx)" using adv_to_inv [OF assms(1)] .
  then obtain lx' where r: "run ut b (adv_to a lx) = Some lx'" "kept b (adv_to a lx) lx'" "lx_i lx' = b"
    using run_total [of "adv_to a lx" b ut] assms by auto
  then have "gaps_to b lx'" using gaps_to_self [of lx'] by (simp add: kept_def)
  then show ?thesis using r by (simp add: kept_def)
qed

lemma trimmed_comment_gaps:
  assumes "gaps_to from lx" "from \<le> to" "to \<le> length (lx_src lx)"
  shows "gaps_to to (trimmed_comment from to lx)" "lx_src (trimmed_comment from to lx) = lx_src lx"
  using trimmed_gaps [OF assms] by (simp_all add: trimmed_comment_def)

lemma fixed_code_total:
  assumes g: "gaps_to cs lx" and b: "ls \<le> ce" "ce \<le> length (lx_src lx)"
    and cs: "cs \<le> col_at (lx_src lx) ls ce 8" and "7 \<le> code_end"
  shows "\<exists>lx'. fixed_code ut layout ls ce code_end cs lx = Some lx' \<and> gaps_to ce lx' \<and> lx_src lx' = lx_src lx"
proof -
  let ?c = "col_at (lx_src lx) ls ce"
  have le: "?c 8 \<le> ?c (code_end + 1)" "?c (code_end + 1) \<le> ce" "?c 8 \<le> ce"
    using col_at_mono [of 8 "code_end + 1" ls ce] col_at_bounds [OF b] b assms(5) by auto
  let ?ind = "slice (lx_src lx) cs (?c 8)"
  show ?thesis
  proof (cases "?ind = uchars ''*'' \<or> layout = Cobol \<and> ?ind = uchars ''/''")
    case True
    then show ?thesis using trimmed_comment_gaps [OF g _ b(2)] cs le by (simp add: fixed_code_def Let_def)
  next
    case False
    obtain lx1 where r1: "run ut (?c 8) (adv_to cs lx) = Some lx1" "gaps_to (?c 8) lx1" "lx_src lx1 = lx_src lx"
      using run_from [OF g cs] le b by auto
    have "\<exists>lx2. run ut (?c (code_end + 1)) (adv_to a lxa) = Some lx2 \<and>
        gaps_to ce (trimmed_comment (?c (code_end + 1)) ce lx2) \<and>
        lx_src (trimmed_comment (?c (code_end + 1)) ce lx2) = lx_src lx"
      if h: "gaps_to a lxa" "a \<le> ?c 8" "lx_src lxa = lx_src lx" for a lxa
    proof -
      obtain lx2 where r2: "run ut (?c (code_end + 1)) (adv_to a lxa) = Some lx2"
          "gaps_to (?c (code_end + 1)) lx2" "lx_src lx2 = lx_src lx"
        using run_from [OF h(1), of "?c (code_end + 1)"] h le b by auto
      then show ?thesis using trimmed_comment_gaps [OF r2(2) le(2)] b by simp
    qed
    note ends = this [OF r1(2) order_refl r1(3)] this [OF g cs refl]
    show ?thesis
    proof (cases "layout = Cobol")
      case True
      then show ?thesis using False r1 ends(1) by (auto simp: fixed_code_def Let_def)
    next
      case no: False
      then show ?thesis using False ends(2) by (auto simp: fixed_code_def Let_def)
    qed
  qed
qed

text \<open>The end of a line and the end of its code, before the line break.\<close>

definition line_end :: "uchar list \<Rightarrow> nat \<Rightarrow> nat" where
  "line_end src ls = (case position (\<lambda>c. c = 10) (drop ls src) of Some p \<Rightarrow> ls + p | None \<Rightarrow> length src)"

definition code_line_end :: "uchar list \<Rightarrow> nat \<Rightarrow> nat" where
  "code_line_end src ls = (let le = line_end src ls in if suffix [13] (slice src ls le) then le - 1 else le)"

lemma line_end_bounds:
  assumes "ls < length src"
  shows "ls \<le> line_end src ls" "line_end src ls \<le> length src"
    "ls \<le> code_line_end src ls" "code_line_end src ls \<le> line_end src ls"
proof -
  show le: "ls \<le> line_end src ls" "line_end src ls \<le> length src"
    using assms by (auto simp: line_end_def split: option.splits dest!: position_Some)
  have "ls < line_end src ls" if "suffix [13] (slice src ls (line_end src ls))"
    using that le by (cases "ls = line_end src ls") (auto simp: slice_def)
  then show "ls \<le> code_line_end src ls" "code_line_end src ls \<le> line_end src ls"
    using le by (auto simp: code_line_end_def Let_def)
qed

lemma line_break_gaps:
  assumes "ls < length src"
  shows "list_all is_gap (slice src (code_line_end src ls) (min (line_end src ls + 1) (length src)))"
proof -
  let ?le = "line_end src ls" and ?ce = "code_line_end src ls"
  note b = line_end_bounds [OF assms]
  have cr: "list_all is_gap (slice src ?ce ?le)"
  proof (cases "suffix [13] (slice src ls ?le)")
    case True
    then obtain w where w: "slice src ls ?le = w @ [13]" by (auto simp: suffix_def)
    have "slice src (ls + length w) ?le = [13]" "ls + length w + 1 = ?le"
      using slice_split [OF w b(1,2)] arg_cong [OF w, of length] b by auto
    moreover have "?ce = ?le - 1" using True by (simp add: code_line_end_def Let_def)
    ultimately have "slice src ?ce ?le = [13]" by (metis add_diff_cancel_right')
    then show ?thesis by (simp add: is_gap_def is_whitespace_def)
  next
    case False
    then show ?thesis by (simp add: code_line_end_def Let_def slice_def)
  qed
  have "list_all is_gap (slice src ?le (min (?le + 1) (length src)))"
  proof (cases "?le < length src")
    case True
    then obtain p where p: "position (\<lambda>c. c = 10) (drop ls src) = Some p" "?le = ls + p"
      by (auto simp: line_end_def split: option.splits)
    then have "src ! ?le = 10" using position_Some [OF p(1)] assms by auto
    then show ?thesis using True slice_one [OF True] newline_gap by (simp add: min_absorb1 Suc_le_eq)
  qed (simp add: slice_def)
  then show ?thesis
    using cr b slice_append [of ?ce ?le "min (?le + 1) (length src)" src] by simp
qed

lemma fixed_line_total:
  assumes inv: "lexer_inv lx" and i: "lx_i lx < length (lx_src lx)"
  shows "\<exists>lx'. fixed_line ut layout lx = Some lx' \<and> lexer_inv lx' \<and> lx_src lx' = lx_src lx \<and>
    lx_i lx' = min (line_end (lx_src lx) (lx_i lx) + 1) (length (lx_src lx))"
proof -
  let ?s = "lx_src lx" and ?ls = "lx_i lx"
  let ?le = "line_end ?s ?ls" and ?ce = "code_line_end ?s ?ls"
  note b = line_end_bounds [OF i]
  have ce: "?ls \<le> ?ce" "?ce \<le> length ?s" using b by auto
  let ?c = "col_at ?s ?ls ?ce"
  obtain sq :: nat and lead and ne :: nat where lay: "(case layout of Cobol \<Rightarrow> (6, False, 72) | Rpg \<Rightarrow> (5, True, 80)) = (sq, lead, ne)"
    by (metis prod_cases3)
  then have ne: "7 \<le> ne" "\<not> lead \<Longrightarrow> sq + 1 \<le> 8" "sq + 2 \<le> 8" by (cases layout; auto)+
  define lx1 where "lx1 = trimmed_comment ?ls (?c (sq + 1)) lx"
  have g1: "gaps_to (?c (sq + 1)) lx1" "lx_src lx1 = ?s"
    unfolding lx1_def using trimmed_comment_gaps [OF gaps_to_self [OF inv]] col_at_bounds [OF ce] ce(2)
    by (meson le_trans)+
  have mono: "?c (sq + 1) \<le> ?c (sq + 2)" "?c (sq + 2) \<le> ?c 8" "?c (sq + 2) \<le> length ?s"
    using col_at_mono [OF _ ce] col_at_bounds [OF ce, of "sq + 2"] ce ne by auto
  obtain cs lx2 where l: "(if lead then map_option (\<lambda>lx. (?c (sq + 2), lx)) (run ut (?c (sq + 2)) (adv_to (?c (sq + 1)) lx1))
      else Some (?c (sq + 1), lx1)) = Some (cs, lx2)"
    and g2: "gaps_to cs lx2" "lx_src lx2 = ?s" "cs \<le> ?c 8"
    using run_from [OF g1(1) mono(1), of ut] g1 mono by (cases lead) auto
  obtain lx3 where c: "fixed_code ut layout ?ls ?ce ne cs lx2 = Some lx3" "gaps_to ?ce lx3" "lx_src lx3 = ?s"
    using fixed_code_total [OF g2(1) ce(1), of ne ut layout] g2 ce ne by auto
  have "gaps_to (min (?le + 1) (length ?s)) lx3"
    by (rule gaps_to_extend [OF c(2)]) (use c(3) b line_break_gaps [OF i] in auto)
  note a = adv_to_inv [OF this]
  have "fixed_line ut layout lx = Some (adv_to (min (?le + 1) (length ?s)) lx3)"
    using l c(1)
    by (cases lead)
      (auto simp: fixed_line_def lay lx1_def Let_def line_end_def [symmetric]
        code_line_end_def [unfolded Let_def, symmetric])
  then show ?thesis using a c(3) by simp
qed

definition line_start :: "uchar list \<Rightarrow> nat \<Rightarrow> bool" where
  "line_start src k \<longleftrightarrow> k \<le> length src \<and> (k = 0 \<or> k = length src \<or> src ! (k - 1) = 10)"

lemma line_end_limit:
  assumes "line_start src limit" "ls < limit"
  shows "min (line_end src ls + 1) (length src) \<le> limit"
proof (cases "limit = length src")
  case False
  then have nl: "src ! (limit - 1) = 10" "limit \<le> length src" using assms by (auto simp: line_start_def)
  show ?thesis
  proof (cases "position (\<lambda>c. c = 10) (drop ls src)")
    case None
    have "drop ls src ! (limit - 1 - ls) = 10" "limit - 1 - ls < length (drop ls src)"
      using nl assms(2) False by auto
    then have "10 \<in> set (drop ls src)" by (metis nth_mem)
    then show ?thesis using None by (auto simp: position_None)
  next
    case (Some p)
    have "p \<le> limit - 1 - ls"
    proof (rule ccontr)
      assume "\<not> p \<le> limit - 1 - ls"
      then have "drop ls src ! (limit - 1 - ls) \<noteq> 10" using position_Some [OF Some] by auto
      then show False using nl assms(2) by simp
    qed
    then show ?thesis using Some assms(2) by (simp add: line_end_def)
  qed
qed simp

lemma fixed_total:
  assumes "lexer_inv lx" "lx_i lx \<le> limit" "line_start (lx_src lx) limit"
  shows "\<exists>lx'. fixed ut layout limit lx = Some lx' \<and> lexer_inv lx' \<and> lx_src lx' = lx_src lx \<and> lx_i lx' = limit"
  using assms
proof (induction "limit - lx_i lx" arbitrary: lx rule: less_induct)
  case less
  show ?case
  proof (cases "lx_i lx < limit")
    case False
    then show ?thesis using less.prems by (simp add: fixed.simps)
  next
    case True
    then have i: "lx_i lx < length (lx_src lx)" using less.prems(3) by (simp add: line_start_def)
    obtain lx1 where l: "fixed_line ut layout lx = Some lx1" "lexer_inv lx1" "lx_src lx1 = lx_src lx"
        "lx_i lx1 = min (line_end (lx_src lx) (lx_i lx) + 1) (length (lx_src lx))"
      using fixed_line_total [OF less.prems(1) i] by blast
    have b: "lx_i lx < lx_i lx1" "lx_i lx1 \<le> limit"
      using l(4) i line_end_bounds [OF i] line_end_limit [OF less.prems(3) True] by auto
    then have "limit - lx_i lx1 < limit - lx_i lx" using True by simp
    then obtain lx' where "fixed ut layout limit lx1 = Some lx'" "lexer_inv lx'" "lx_src lx' = lx_src lx1" "lx_i lx' = limit"
      using less.hyps [of lx1] l b less.prems(3) by auto
    moreover have "fixed ut layout limit lx = fixed ut layout limit lx1"
      using True l(1) by (subst fixed.simps) simp
    ultimately show ?thesis using l(3) by simp
  qed
qed

subsection \<open>Data sections\<close>

lemma concat_split_inclusive: "concat (split_inclusive s) = s"
proof (induction s)
  case (Cons c cs)
  then show ?case by (cases "split_inclusive cs") auto
qed simp

lemma split_inclusive_ends:
  "split_inclusive s = xs @ l # ls \<Longrightarrow> xs = [] \<or> last (concat xs) = 10 \<and> concat xs \<noteq> []"
proof (induction s arbitrary: xs)
  case (Cons c cs)
  show ?case
  proof (cases xs)
    case (Cons x xs')
    show ?thesis
    proof (cases "c = 10")
      case True
      then have "x = [10]" "split_inclusive cs = xs' @ l # ls" using Cons.prems Cons by auto
      then show ?thesis using Cons.IH [of xs'] Cons by auto
    next
      case False
      then obtain m ms where m: "split_inclusive cs = m # ms" "x = c # m" "ms = xs' @ l # ls"
        using Cons.prems Cons by (cases "split_inclusive cs") auto
      then show ?thesis using Cons.IH [of "m # xs'"] Cons by auto
    qed
  qed simp
qed simp

lemma rpg_data_loop_start:
  "rpg_data_loop free n off ls = Some k \<Longrightarrow> \<exists>xs y ys. ls = xs @ y # ys \<and> k = off + length (concat xs)"
proof (induction ls arbitrary: n off)
  case (Cons l ls)
  show ?case
  proof (cases "is_rpg_data_marker (if n = 0 then strip_bom l else l) free \<and> \<not> (n = 0 \<and> free)")
    case True
    then have "k = off" using Cons.prems by (simp add: Let_def)
    then have "l # ls = [] @ l # ls \<and> k = off + length (concat [])" by simp
    then show ?thesis by blast
  next
    case False
    then have "rpg_data_loop free (n + 1) (off + length l) ls = Some k"
      using Cons.prems by (simp only: rpg_data_loop.simps Let_def if_False)
    from Cons.IH [OF this] obtain xs y ys where "ls = xs @ y # ys" "k = off + length l + length (concat xs)" by blast
    then have "l # ls = (l # xs) @ y # ys \<and> k = off + length (concat (l # xs))" by simp
    then show ?thesis by blast
  qed
qed simp

lemma rpg_data_start_line: "line_start src (rpg_data_start src)"
proof (cases "rpg_data_loop (is_free_rpg src) 0 0 (split_inclusive src)")
  case None
  then show ?thesis by (simp add: rpg_data_start_def or_len_def line_start_def)
next
  case (Some k)
  then obtain xs y ys where s: "split_inclusive src = xs @ y # ys" "k = length (concat xs)"
    using rpg_data_loop_start [OF Some] by auto
  have src: "src = concat xs @ concat (y # ys)" using concat_split_inclusive [of src] s by simp
  have "k = 0 \<or> src ! (k - 1) = 10"
  proof (cases "concat xs = []")
    case False
    then have "last (concat xs) = 10" using split_inclusive_ends [OF s(1)] by auto
    then have "concat xs ! (k - 1) = 10" using False s(2) by (simp add: last_conv_nth)
    then show ?thesis using False s(2) by (subst src) (simp add: nth_append)
  qed (use s in simp)
  moreover have "k \<le> length src" using s(2) arg_cong [OF src, of length] by simp
  ultimately show ?thesis using Some by (auto simp: rpg_data_start_def or_len_def line_start_def)
qed

lemma data_loop_gaps:
  assumes "gaps_to start lx" "start \<le> off" "off + length (concat ls) = length (lx_src lx)"
    and "data_loop free start off ls lx = (start', lx')"
  shows "gaps_to start' lx' \<and> lx_src lx' = lx_src lx \<and> start' \<le> length (lx_src lx)"
  using assms
proof (induction ls arbitrary: start off lx)
  case (Cons l ls)
  show ?case
  proof (cases "off > start \<and> is_rpg_data_marker l free")
    case True
    note t = trimmed_gaps [OF Cons.prems(1) Cons.prems(2), of Literal]
    show ?thesis
      using Cons.IH [of off "trimmed start off Literal lx" "off + length l"] Cons.prems True t by simp
  next
    case False
    then have "data_loop free start (off + length l) ls lx = (start', lx')"
      using Cons.prems(4) by (simp only: data_loop.simps if_False)
    then show ?thesis using Cons.IH [of start lx "off + length l"] Cons.prems by simp
  qed
qed simp

lemma data_sections_gaps:
  assumes "gaps_to from lx"
  shows "gaps_to (length (lx_src lx)) (data_sections from lx)" "lx_src (data_sections from lx) = lx_src lx"
proof -
  let ?s = "lx_src lx"
  obtain st lx1 where d: "data_loop (is_free_rpg ?s) from from (split_inclusive (drop from ?s)) lx = (st, lx1)"
    by (metis surj_pair)
  have "from \<le> length ?s" using assms by (simp add: gaps_to_def)
  then have len: "from + length (concat (split_inclusive (drop from ?s))) = length ?s"
    by (simp add: concat_split_inclusive)
  have g: "gaps_to st lx1" "lx_src lx1 = ?s" "st \<le> length ?s"
    using data_loop_gaps [OF assms order_refl len d] by auto
  show "gaps_to (length ?s) (data_sections from lx)" "lx_src (data_sections from lx) = ?s"
    using trimmed_gaps [OF g(1), of "length ?s" Literal] g d by (simp_all add: data_sections_def Let_def)
qed

lemma gaps_to_end: "gaps_to (length (lx_src lx)) lx \<Longrightarrow> tiled (lx_src lx) (lx_out lx)"
  using adv_to_inv [of "length (lx_src lx)" lx] by (simp add: lexer_inv_def)

subsection \<open>Ordered, exact spans\<close>

lemma byte_len_append [simp]: "byte_len (a @ b) = byte_len a + byte_len b"
  by (simp add: byte_len_def)

lemma byte_len_pos: "w \<noteq> [] \<Longrightarrow> 0 < byte_len w"
  by (cases w) (auto simp: byte_len_def)

lemma length_str_of_byte_len: "length (str_of s) = byte_len s"
  by (simp add: length_str_of byte_len_def)

lemma str_of_append: "str_of (a @ b) = str_of a @ str_of b"
  by (simp add: str_of_def)

text \<open>
  A token list that reads a text back: in order, not empty, without overlap, each text the bytes its
  span names.
\<close>

fun reads_back :: "string \<Rightarrow> nat \<Rightarrow> token_decl list \<Rightarrow> bool" where
  "reads_back bytes k [] \<longleftrightarrow> True"
| "reads_back bytes k (t # ts) \<longleftrightarrow>
     k \<le> unat (sp_start (td_span t)) \<and> unat (sp_start (td_span t)) < unat (sp_end (td_span t)) \<and>
     unat (sp_end (td_span t)) \<le> length bytes \<and>
     td_text t = slice bytes (unat (sp_start (td_span t))) (unat (sp_end (td_span t))) \<and>
     reads_back bytes (unat (sp_end (td_span t))) ts"

lemma reads_back_snoc:
  "reads_back bytes k (ts @ [t]) \<longleftrightarrow>
     reads_back bytes k ts \<and>
     reads_back bytes (if ts = [] then k else unat (sp_end (td_span (last ts)))) [t]"
  by (induction bytes k ts rule: reads_back.induct) auto

lemma tiled_reads_back:
  assumes "tiled p ts" "byte_len (p @ r) < 2 ^ 32"
  shows "reads_back (str_of (p @ r)) 0 ts \<and> (ts \<noteq> [] \<longrightarrow> unat (sp_end (td_span (last ts))) \<le> byte_len p)"
  using assms
proof (induction arbitrary: r rule: tiled.induct)
  case (tiled_gap p ts c)
  show ?case using tiled_gap.IH [of "c # r"] tiled_gap.prems by (auto intro: trans_le_add1)
next
  case (tiled_token p ts w cl)
  have u32: "unat (of_nat n :: u32) = n" if "n < 2 ^ 32" for n
    using that by (simp add: unat_of_nat take_bit_nat_eq_self_iff take_bit_eq_mod)
  have u: "unat (of_nat (byte_len p) :: u32) = byte_len p"
      "unat (of_nat (byte_len (p @ w)) :: u32) = byte_len (p @ w)"
    using tiled_token.prems by (auto intro!: u32 simp del: of_nat_add)
  have ih: "reads_back (str_of (p @ w @ r)) 0 ts" "ts \<noteq> [] \<longrightarrow> unat (sp_end (td_span (last ts))) \<le> byte_len p"
    using tiled_token.IH [of "w @ r"] tiled_token.prems by simp_all
  have bytes: "slice (str_of (p @ w @ r)) (byte_len p) (byte_len (p @ w)) = str_of w"
    by (simp add: slice_def str_of_append length_str_of_byte_len)
  have "byte_len (p @ w) \<le> length (str_of (p @ w @ r))" "byte_len p < byte_len (p @ w)"
    using byte_len_pos [OF tiled_token.hyps(2)] by (simp_all add: length_str_of_byte_len)
  then show ?case using ih bytes u by (simp add: reads_back_snoc token_at_def del: of_nat_add)
qed simp

lemma tokenize_with_total: "\<exists>toks. tokenize_with ut src opts = Some toks \<and> tiled src toks"
proof -
  let ?lx = "lexer_new src opts"
  define e where "e = (if rpg_compile_time_data opts then rpg_data_start src else length src)"
  have e: "line_start src e" "e \<le> length src"
    using rpg_data_start_line [of src] by (auto simp: e_def line_start_def)
  have init: "lexer_inv ?lx" "lx_i ?lx = 0" "lx_src ?lx = src"
    using lexer_inv_new by (simp_all add: lexer_new_def)
  have free: "\<exists>lx. run ut e ?lx = Some lx \<and> lexer_inv lx \<and> lx_src lx = src \<and> lx_i lx = e"
    using run_total [of ?lx e ut] init e by (auto simp: kept_def)
  have cols: "\<exists>lx. fixed ut l e ?lx = Some lx \<and> lexer_inv lx \<and> lx_src lx = src \<and> lx_i lx = e" for l
    using fixed_total [of ?lx e ut l] init e by simp
  have "\<exists>lx. (case fixed_columns opts of None \<Rightarrow> run ut e ?lx
      | Some layout \<Rightarrow> if layout = Rpg \<and> is_free_rpg src then run ut e ?lx else fixed ut layout e ?lx) = Some lx
      \<and> lexer_inv lx \<and> lx_src lx = src \<and> lx_i lx = e"
    using free cols by (simp split: option.split)
  then obtain lx where lx: "lexer_inv lx" "lx_src lx = src" "lx_i lx = e"
    and eq: "(case fixed_columns opts of None \<Rightarrow> run ut e ?lx
      | Some layout \<Rightarrow> if layout = Rpg \<and> is_free_rpg src then run ut e ?lx else fixed ut layout e ?lx) = Some lx"
    by blast
  have g: "gaps_to e lx" using gaps_to_self [OF lx(1)] lx by simp
  have "tiled src (lx_out (if e < length src then data_sections e lx else lx))"
  proof (cases "e < length src")
    case True
    then show ?thesis using gaps_to_end [of "data_sections e lx"] data_sections_gaps [OF g] lx by simp
  next
    case False
    then show ?thesis using gaps_to_end [of lx] g lx e by simp
  qed
  then show ?thesis
    using eq unfolding tokenize_with_def Let_def e_def [symmetric] by simp
qed

subsection \<open>Properties\<close>

lemma tokenize_with_reads_back:
  assumes "length (str_of src) \<le> 2 ^ 32 - 1"
  shows "\<exists>toks. tokenize_with ut src opts = Some toks \<and> reads_back (str_of src) 0 toks"
proof -
  obtain toks where "tokenize_with ut src opts = Some toks" "tiled src toks"
    using tokenize_with_total by blast
  moreover have "byte_len (src @ []) < 2 ^ 32" using assms by (simp add: length_str_of_byte_len)
  ultimately show ?thesis using tiled_reads_back [of src toks "[]"] by auto
qed

text \<open>
  C8: The tokenizer returns for every text, every combination of dialect switches and every alphabetic
  table, and its tokens tile the text: taken in order, each token is a non-empty piece of the text with
  the byte offsets, lines and columns of its place, and what lies between two tokens, before the first
  and after the last is white space or a BOM, so no other character is lost.
\<close>

theorem tokenize_with_tiles: "\<exists>toks. tokenize_with ut src opts = Some toks \<and> tiled src toks"
  by (rule tokenize_with_total)

text \<open>
  C9: On a text whose UTF-8 form is below 4 GiB, the tokens read the text back: spans are
  non-empty, ordered and disjoint, they stay inside the text, and the text of a token is exactly the
  bytes its span names.
\<close>

theorem tokenize_with_spans:
  assumes "length (str_of src) \<le> 2 ^ 32 - 1"
  shows "\<exists>toks. tokenize_with ut src opts = Some toks \<and> reads_back (str_of src) 0 toks"
  using assms by (rule tokenize_with_reads_back)

definition ascii_tables :: unicode where
  "ascii_tables = \<lparr>is_alphabetic = is_ascii_alphabetic, is_numeric = is_ascii_digit\<rparr>"

theorem tokenize_with_spans_witness:
  "\<exists>toks. tokenize_with ascii_tables (uchars ''a + 1'') DEFAULT = Some toks \<and>
     reads_back (str_of (uchars ''a + 1'')) 0 toks"
proof -
  have "length (str_of (uchars ''a + 1'')) \<le> 2 ^ 32 - 1"
    by (simp add: str_of_def uchars_def encode_utf8_def)
  then show ?thesis by (rule tokenize_with_spans)
qed

text \<open>The dots of a range are part of one number token, whatever follows them.\<close>

lemma number_len_range: "number_len ascii_tables (uchars ''1..2'') = 4"
  by code_simp

end
