(* ===== verification/Paths.thy ===== *)
theory Paths
  imports Utf8 "HOL-Library.Sublist"
begin

text \<open>
  File identity and language detection, crates/graph-core/src/language.rs: the normal form of a path,
  the file name and extension, and the language a path or an interpreter line names.
\<close>

subsection \<open>Strings of the standard library\<close>

fun split_char :: "('a \<Rightarrow> bool) \<Rightarrow> 'a list \<Rightarrow> 'a list list" where
  "split_char p [] = [[]]"
| "split_char p (c # cs) =
     (if p c then [] # split_char p cs
      else (case split_char p cs of [] \<Rightarrow> [[c]] | w # ws \<Rightarrow> (c # w) # ws))"

definition str_join :: "'a list \<Rightarrow> 'a list list \<Rightarrow> 'a list" where
  "str_join sep ws = (case ws of [] \<Rightarrow> [] | w # vs \<Rightarrow> w @ concat (map (\<lambda>v. sep @ v) vs))"

definition rsplit_first :: "('a \<Rightarrow> bool) \<Rightarrow> 'a list \<Rightarrow> 'a list" where
  "rsplit_first p s = rev (takeWhile (\<lambda>c. \<not> p c) (rev s))"

text \<open>
  The extension of a single path component: none for the components dot and dot-dot, none without a
  dot and none when the only dot is the first character.
\<close>

definition component_extension :: "string \<Rightarrow> string option" where
  "component_extension name =
     (if name = '''' \<or> name = ''.'' \<or> name = ''..'' then None
      else if CHR ''.'' \<notin> set name then None
      else let after = rsplit_first (\<lambda>c. c = CHR ''.'') name
           in if length after + 1 = length name then None else Some after)"

definition split_whitespace :: "uchar list \<Rightarrow> uchar list list" where
  "split_whitespace s = filter (\<lambda>w. w \<noteq> []) (split_char is_whitespace s)"

definition first_line :: "uchar list \<Rightarrow> uchar list" where
  "first_line s =
     (let line = takeWhile (\<lambda>c. c \<noteq> 10) s
      in if 10 \<in> set s \<and> line \<noteq> [] \<and> last line = 13 then butlast line else line)"

subsection \<open>Names and extensions\<close>

definition is_sep :: "char \<Rightarrow> bool" where
  "is_sep c \<longleftrightarrow> c = CHR ''/'' \<or> c = CHR 0x5C"

definition file_name :: "string \<Rightarrow> string" where
  "file_name path = rsplit_first is_sep path"

definition extension :: "string \<Rightarrow> string option" where
  "extension path = map_option to_ascii_lowercase (component_extension (file_name path))"

definition detect_language :: "string \<Rightarrow> string" where
  "detect_language path =
     (let ext = (case extension path of Some e \<Rightarrow> e | None \<Rightarrow> '''')
      in if ext = ''rs'' then ''rust''
         else if ext = ''py'' then ''python''
         else if ext \<in> {''js'', ''mjs'', ''cjs'', ''jsx''} then ''javascript''
         else if ext \<in> {''ts'', ''tsx''} then ''typescript''
         else if ext = ''go'' then ''go''
         else if ext \<in> {''c'', ''h''} then ''c''
         else if ext \<in> {''cc'', ''cpp'', ''hpp''} then ''cpp''
         else if ext = ''java'' then ''java''
         else if ext = ''rb'' then ''ruby''
         else if ext = ''cs'' then ''csharp''
         else if ext \<in> {''kt'', ''kts''} then ''kotlin''
         else if ext = ''yml'' then ''yaml''
         else if ext \<in> {''sh'', ''bash'', ''zsh''} then ''shell''
         else if ext = '''' then ''unknown''
         else ext)"

subsection \<open>Interpreter lines\<close>

definition shebang_prog :: "uchar list \<Rightarrow> uchar list" where
  "shebang_prog shebang =
     (let parts = split_whitespace shebang;
          prog = rsplit_first (\<lambda>c. c = of_char CHR ''/'') (case parts of [] \<Rightarrow> [] | w # _ \<Rightarrow> w);
          prog = (if prog = uchars ''env'' then
                    (case find (\<lambda>a. \<not> prefix (uchars ''-'') a) (tl parts) of Some a \<Rightarrow> a | None \<Rightarrow> [])
                  else prog)
      in trim_end_where (\<lambda>c. of_char CHR ''0'' \<le> c \<and> c \<le> of_char CHR ''9'' \<or> c = of_char CHR ''.'') prog)"

definition detect_language_from_content :: "string \<Rightarrow> uchar list \<Rightarrow> string" where
  "detect_language_from_content path src =
     (let by_path = detect_language path;
          name = to_ascii_lowercase (file_name path)
      in if name \<in> {''makefile'', ''gnumakefile''} then ''make''
         else if name = ''dockerfile'' then ''dockerfile''
         else if by_path \<noteq> ''unknown'' then by_path
         else
           let first = first_line (dropWhile (\<lambda>c. c = 0xFEFF) src)
           in if \<not> prefix (uchars ''#!'') first then by_path
              else
                let prog = shebang_prog (drop 2 first)
                in if prog = [] then by_path
                   else if prog = uchars ''python'' then ''python''
                   else if prog \<in> {uchars ''node'', uchars ''nodejs''} then ''javascript''
                   else if prog \<in> {uchars ''bash'', uchars ''sh'', uchars ''zsh'', uchars ''dash'',
                                   uchars ''ksh'', uchars ''mksh''} then ''shell''
                   else if prog = uchars ''Rscript'' then ''r''
                   else str_of prog)"

subsection \<open>Normal form of a path\<close>

definition push_component :: "bool \<Rightarrow> string list \<Rightarrow> string \<Rightarrow> string list" where
  "push_component is_abs parts c =
     (if c = '''' \<or> c = ''.'' then parts
      else if c = ''..'' then
        (if parts \<noteq> [] \<and> last parts \<noteq> ''..'' then butlast parts
         else if \<not> is_abs then parts @ [''..''] else parts)
      else parts @ [c])"

definition normalize_path :: "string \<Rightarrow> string" where
  "normalize_path path =
     (let path = map (\<lambda>c. if c = CHR 0x5C then CHR ''/'' else c) path;
          is_abs = prefix ''/'' path;
          parts = fold (\<lambda>c ps. push_component is_abs ps c) (split_char (\<lambda>c. c = CHR ''/'') path) []
      in (if is_abs then ''/'' else '''') @ str_join ''/'' parts)"

subsection \<open>Lemmas\<close>

lemma split_char_ne [simp]: "split_char p s \<noteq> []"
  by (induction s) (auto split: list.splits)

lemma split_char_words: "\<forall>w \<in> set (split_char p s). \<forall>c \<in> set w. \<not> p c \<and> c \<in> set s"
proof (induction s)
  case (Cons c cs)
  then show ?case by (cases "split_char p cs") auto
qed simp

lemma split_char_plain [simp]: "\<forall>c \<in> set w. \<not> p c \<Longrightarrow> split_char p w = [w]"
  by (induction w) auto

lemma split_char_append:
  "p d \<Longrightarrow> split_char p (a @ d # b) = split_char p a @ split_char p b"
proof (induction a)
  case (Cons c cs)
  then show ?case by (cases "split_char p cs") (auto split: list.splits)
qed simp

lemma str_join_simps [simp]:
  "str_join sep [] = []"
  "str_join sep [w] = w"
  "str_join sep (w # v # ws) = w @ sep @ str_join sep (v # ws)"
  by (simp_all add: str_join_def)

lemma split_char_join:
  "\<lbrakk>ws \<noteq> []; \<forall>w \<in> set ws. \<forall>c \<in> set w. \<not> p c; p d\<rbrakk> \<Longrightarrow> split_char p (str_join [d] ws) = ws"
proof (induction ws rule: induct_list012)
  case (3 w v ws)
  then show ?case using split_char_append [of p d w "str_join [d] (v # ws)"] by simp
qed auto

lemma set_str_join: "set (str_join sep ws) \<subseteq> set sep \<union> (\<Union>w \<in> set ws. set w)"
  by (auto simp: str_join_def split: list.splits)

text \<open>
  A list of path components in normal form: no empty and no dot component, and dot-dot only at the
  start of a relative path.
\<close>

definition normal_part :: "string \<Rightarrow> bool" where
  "normal_part w \<longleftrightarrow> w \<noteq> '''' \<and> w \<noteq> ''.'' \<and> CHR ''/'' \<notin> set w \<and> CHR 0x5C \<notin> set w"

definition normal_parts :: "bool \<Rightarrow> string list \<Rightarrow> bool" where
  "normal_parts is_abs ps \<longleftrightarrow>
     list_all normal_part ps \<and>
     ''..'' \<notin> set (if is_abs then ps else dropWhile (\<lambda>w. w = ''..'') ps)"

lemma dropWhile_all:
  "\<lbrakk>x \<notin> set (dropWhile (\<lambda>w. w = x) xs); xs \<noteq> []; last xs = x\<rbrakk> \<Longrightarrow> \<forall>w \<in> set xs. w = x"
  by (metis (mono_tags, lifting) dropWhile_eq_Nil_conv dropWhile_last last_in_set)

lemma dropWhile_snoc: "dropWhile p (xs @ [x]) = (if \<forall>w \<in> set xs. p w then (if p x then [] else [x]) else dropWhile p xs @ [x])"
  by (induction xs) auto

lemma normal_parts_snoc_iff:
  "normal_parts ab (ps @ [c]) \<longleftrightarrow>
     normal_parts ab ps \<and> normal_part c \<and> (c = ''..'' \<longrightarrow> \<not> ab \<and> (\<forall>w \<in> set ps. w = ''..''))"
proof (cases "\<forall>w \<in> set ps. w = ''..''")
  case True
  then have "dropWhile (\<lambda>w. w = ''..'') ps = []" by simp
  then have "''..'' \<notin> set (dropWhile (\<lambda>w. w = ''..'') ps)" by (simp only: set_empty) simp
  with True show ?thesis by (auto simp: normal_parts_def dropWhile_snoc)
next
  case False
  then have "dropWhile (\<lambda>w. w = ''..'') (ps @ [c]) = dropWhile (\<lambda>w. w = ''..'') ps @ [c]"
    by (simp only: dropWhile_snoc if_False)
  with False show ?thesis by (auto simp: normal_parts_def simp del: dropWhile_append2)
qed

lemma normal_parts_Nil [simp]: "normal_parts ab []"
  by (simp add: normal_parts_def)

lemma normal_parts_single [simp]: "normal_parts ab [c] \<longleftrightarrow> normal_part c \<and> (c = ''..'' \<longrightarrow> \<not> ab)"
  using normal_parts_snoc_iff [of ab "[]" c] by simp

lemma normal_parts_butlast: "normal_parts ab ps \<Longrightarrow> normal_parts ab (butlast ps)"
  by (cases ps rule: rev_cases) (simp_all add: normal_parts_snoc_iff)

lemma normal_parts_all_up:
  assumes "normal_parts ab ps" "ps = [] \<or> last ps = ''..''"
  shows "\<forall>w \<in> set ps. w = ''..''"
  using assms by (cases ps rule: rev_cases) (simp_all add: normal_parts_snoc_iff)

lemma push_component_normal:
  assumes "normal_parts ab ps" "CHR ''/'' \<notin> set c" "CHR 0x5C \<notin> set c"
  shows "normal_parts ab (push_component ab ps c)"
proof (cases "c = ''..''")
  case True
  then show ?thesis
    using assms(1) normal_parts_butlast [OF assms(1)] normal_parts_all_up [OF assms(1)]
    by (cases ab; cases "ps = []") (simp_all add: push_component_def normal_parts_snoc_iff normal_part_def)
next
  case False
  then show ?thesis using assms
    by (simp add: push_component_def normal_parts_snoc_iff normal_part_def)
qed

lemma fold_push_normal:
  "\<lbrakk>\<forall>c \<in> set cs. CHR ''/'' \<notin> set c \<and> CHR 0x5C \<notin> set c; normal_parts ab ps\<rbrakk> \<Longrightarrow>
     normal_parts ab (fold (\<lambda>c ps. push_component ab ps c) cs ps)"
  by (induction cs arbitrary: ps) (auto intro: push_component_normal)

lemma push_component_id: "normal_parts ab (ps @ [c]) \<Longrightarrow> push_component ab ps c = ps @ [c]"
  by (cases "ps = []") (simp_all add: normal_parts_snoc_iff normal_part_def push_component_def)

lemma fold_push_id: "normal_parts ab ps \<Longrightarrow> fold (\<lambda>c ps. push_component ab ps c) ps [] = ps"
proof (induction ps rule: rev_induct)
  case (snoc c ps)
  then show ?case using push_component_id [of ab ps c] by (simp add: normal_parts_snoc_iff)
qed simp

text \<open>The components of the normal form, and the form itself.\<close>

definition unify_seps :: "string \<Rightarrow> string" where
  "unify_seps path = map (\<lambda>c. if c = CHR 0x5C then CHR ''/'' else c) path"

definition path_parts :: "string \<Rightarrow> string list" where
  "path_parts path = fold (\<lambda>c ps. push_component (prefix ''/'' path) ps c) (split_char (\<lambda>c. c = CHR ''/'') path) []"

definition rooted :: "bool \<Rightarrow> string list \<Rightarrow> string" where
  "rooted ab ps = (if ab then ''/'' else '''') @ str_join ''/'' ps"

lemma normalize_path_eq:
  "normalize_path p = rooted (prefix ''/'' (unify_seps p)) (path_parts (unify_seps p))"
  by (simp add: normalize_path_def unify_seps_def path_parts_def rooted_def Let_def)

lemma path_parts_normal:
  assumes "CHR 0x5C \<notin> set p"
  shows "normal_parts (prefix ''/'' p) (path_parts p)"
  unfolding path_parts_def
proof (rule fold_push_normal)
  show "\<forall>c \<in> set (split_char (\<lambda>c. c = CHR ''/'') p). CHR ''/'' \<notin> set c \<and> CHR 0x5C \<notin> set c"
    using assms split_char_words [of "\<lambda>c. c = CHR ''/''" p] by blast
qed simp

lemma unify_seps_id: "CHR 0x5C \<notin> set p \<Longrightarrow> unify_seps p = p"
  by (auto simp: unify_seps_def intro: map_idI)

lemma unify_seps_no: "CHR 0x5C \<notin> set (unify_seps p)"
  by (auto simp: unify_seps_def)

lemma prefix_rooted: "normal_parts ab ps \<Longrightarrow> prefix ''/'' (rooted ab ps) = ab"
  by (cases ps rule: remdups_adj.cases)
    (auto simp: rooted_def normal_parts_def normal_part_def prefix_Cons append_eq_Cons_conv prefix_def)

lemma rooted_no_backslash: "normal_parts ab ps \<Longrightarrow> CHR 0x5C \<notin> set (rooted ab ps)"
  using set_str_join [of "''/''" ps] by (auto simp: rooted_def normal_parts_def normal_part_def list_all_iff)

lemma path_parts_rooted:
  assumes "normal_parts ab ps"
  shows "path_parts (rooted ab ps) = ps"
proof -
  have words: "\<forall>w \<in> set ps. \<forall>c \<in> set w. c \<noteq> CHR ''/''"
    using assms by (auto simp: normal_parts_def normal_part_def list_all_iff)
  have id: "fold (\<lambda>c ps. push_component ab ps c) ps [] = ps" using fold_push_id [OF assms] .
  show ?thesis
  proof (cases "ps = []")
    case True
    then show ?thesis by (simp add: path_parts_def rooted_def push_component_def)
  next
    case False
    then have "split_char (\<lambda>c. c = CHR ''/'') (str_join ''/'' ps) = ps"
      using words by (intro split_char_join) auto
    then show ?thesis
      using id prefix_rooted [OF assms] by (cases ab) (simp_all add: path_parts_def rooted_def push_component_def)
  qed
qed

lemma path_parts_skip:
  assumes "CHR ''/'' \<notin> set d" "d \<notin> {'''', ''.'', ''..''}" "\<not> prefix ''/'' p"
  shows "path_parts (d @ ''/../'' @ p) = path_parts p" "\<not> prefix ''/'' (d @ ''/../'' @ p)"
proof -
  show np: "\<not> prefix ''/'' (d @ ''/../'' @ p)" using assms by (cases d) auto
  have "split_char (\<lambda>c. c = CHR ''/'') d = [d]" using assms(1) by (intro split_char_plain) auto
  then have "split_char (\<lambda>c. c = CHR ''/'') (d @ ''/../'' @ p) = [d, ''..''] @ split_char (\<lambda>c. c = CHR ''/'') p"
    using split_char_append [of "\<lambda>c. c = CHR ''/''" "CHR ''/''" d "''../'' @ p"] assms by simp
  with np assms show "path_parts (d @ ''/../'' @ p) = path_parts p"
    by (simp add: path_parts_def push_component_def)
qed

subsection \<open>Properties\<close>

text \<open>
  A normalized path is in normal form: it is the components joined by a slash, none empty, none a
  dot, none with a separator inside, dot-dot only at the start of a relative path and never in an
  absolute one; the result is absolute exactly when the input is; and normalizing again changes nothing.
\<close>

theorem normalize_path_normal:
  "\<exists>ps. normalize_path p = rooted (prefix ''/'' (unify_seps p)) ps
      \<and> normal_parts (prefix ''/'' (unify_seps p)) ps
      \<and> normalize_path (normalize_path p) = normalize_path p"
proof -
  let ?ab = "prefix ''/'' (unify_seps p)" and ?ps = "path_parts (unify_seps p)"
  have n: "normal_parts ?ab ?ps" using path_parts_normal unify_seps_no by blast
  have r: "normalize_path p = rooted ?ab ?ps" by (rule normalize_path_eq)
  have "normalize_path (rooted ?ab ?ps) = rooted ?ab ?ps"
    unfolding normalize_path_eq [of "rooted ?ab ?ps"] unify_seps_id [OF rooted_no_backslash [OF n]]
      prefix_rooted [OF n] path_parts_rooted [OF n] ..
  then show ?thesis using r n by auto
qed

text \<open>
  Different spellings of one file get one identity: a leading dot component, a detour through a
  directory and back, and backslashes for slashes do not change the normalized path.
\<close>

theorem normalize_path_spelling:
  assumes "CHR ''/'' \<notin> set d" "CHR 0x5C \<notin> set d" "d \<notin> {'''', ''.'', ''..''}"
    and "\<not> prefix ''/'' (unify_seps p)"
  shows "normalize_path (d @ ''/../'' @ p) = normalize_path p
    \<and> normalize_path (''./'' @ p) = normalize_path p
    \<and> normalize_path (unify_seps p) = normalize_path p"
proof (intro conjI)
  have u: "unify_seps (d @ ''/../'' @ p) = d @ ''/../'' @ unify_seps p"
    using assms(2) unify_seps_id [of d] by (simp add: unify_seps_def)
  show "normalize_path (d @ ''/../'' @ p) = normalize_path p"
    unfolding normalize_path_eq u
    using path_parts_skip [OF assms(1) assms(3) assms(4)] assms(4) by simp
  have "split_char (\<lambda>c. c = CHR ''/'') (''./'' @ unify_seps p) = ''.'' # split_char (\<lambda>c. c = CHR ''/'') (unify_seps p)"
    by simp
  moreover have "unify_seps (''./'' @ p) = ''./'' @ unify_seps p" by (simp add: unify_seps_def)
  ultimately show "normalize_path (''./'' @ p) = normalize_path p"
    using assms(4) by (simp add: normalize_path_eq path_parts_def push_component_def)
  show "normalize_path (unify_seps p) = normalize_path p"
    by (simp add: normalize_path_eq unify_seps_id unify_seps_no)
qed

theorem normalize_path_spelling_witness:
  "normalize_path (''x'' @ ''/../'' @ ''a.rs'') = normalize_path ''a.rs''"
proof -
  have "CHR ''/'' \<notin> set ''x''" "CHR 0x5C \<notin> set ''x''" "''x'' \<notin> {'''', ''.'', ''..''}"
    "\<not> prefix ''/'' (unify_seps ''a.rs'')" by code_simp+
  from normalize_path_spelling [OF this] show ?thesis by blast
qed

text \<open>
  Detection does not depend on the separator of the client's system: a path with backslashes and
  the same path with slashes name the same language, from the path alone and with the content.
\<close>

theorem detect_language_separators:
  "detect_language (unify_seps p) = detect_language p
     \<and> detect_language_from_content (unify_seps p) src = detect_language_from_content p src"
proof -
  have "file_name (unify_seps p) = file_name p"
  proof (induction p rule: rev_induct)
    case (snoc c p)
    then show ?case by (auto simp: file_name_def rsplit_first_def unify_seps_def is_sep_def)
  qed (simp add: unify_seps_def)
  then show ?thesis by (simp add: detect_language_from_content_def detect_language_def extension_def)
qed

end
