(* ===== verification/Registry.thy ===== *)
theory Registry
  imports Lexer_Tiling Paths
begin

text \<open>
  The extractor registry, crates/graph-core/src/extractor.rs: symbol declarations, the fallback
  extractor over the tokenizer, and the registry that maps languages and file extensions to extractors.
  An extractor is a record of the trait's methods.
\<close>

subsection \<open>Symbols and extractors\<close>

definition symbol_decl_new :: "string \<Rightarrow> symbol_kind \<Rightarrow> string option \<Rightarrow> span \<Rightarrow> symbol_decl" where
  "symbol_decl_new name kind lang_kind sp =
     \<lparr>sd_name = name, sd_kind = kind, sd_lang_kind = lang_kind, sd_span = sp, sd_owner = None\<rparr>"

definition with_owner :: "string \<Rightarrow> symbol_decl \<Rightarrow> symbol_decl" where
  "with_owner owner sd = sd\<lparr>sd_owner := Some owner\<rparr>"

record extractor =
  xt_language :: string
  xt_version :: string
  xt_extensions :: "string list"
  xt_extract :: "uchar list \<Rightarrow> extraction"
  xt_extract_noted :: "uchar list \<Rightarrow> extraction \<times> string option"

definition TOKENIZER_VERSION :: nat where
  "TOKENIZER_VERSION = 1"

definition FALLBACK_EXTRACTOR_VERSION :: string where
  "FALLBACK_EXTRACTOR_VERSION = ''fallback-1''"

definition fallback_version :: string where
  "fallback_version = FALLBACK_EXTRACTOR_VERSION @ ''+tok'' @ show_nat TOKENIZER_VERSION"

text \<open>
  The tokenizer always returns (\<open>tokenize_with_total\<close>), so the other branch of the extraction is never
  taken; \<open>fallback_tokens\<close> states it.
\<close>

definition fallback_extract :: "unicode \<Rightarrow> uchar list \<Rightarrow> extraction" where
  "fallback_extract ut source =
     \<lparr>ex_symbols = [], ex_tokens = (case tokenize ut source of Some toks \<Rightarrow> toks | None \<Rightarrow> []),
      ex_has_errors = False\<rparr>"

definition fallback_extractor :: "unicode \<Rightarrow> string \<Rightarrow> extractor" where
  "fallback_extractor ut language =
     \<lparr>xt_language = language, xt_version = fallback_version, xt_extensions = [],
      xt_extract = fallback_extract ut, xt_extract_noted = (\<lambda>source. (fallback_extract ut source, None))\<rparr>"

subsection \<open>The registry\<close>

record registry =
  rg_extractors :: "string \<Rightarrow> extractor option"
  rg_extensions :: "string \<Rightarrow> string option"

definition registry_default :: registry where
  "registry_default = \<lparr>rg_extractors = (\<lambda>_. None), rg_extensions = (\<lambda>_. None)\<rparr>"

definition claimed_ext :: "string \<Rightarrow> string" where
  "claimed_ext ext = to_ascii_lowercase (if prefix ''.'' ext then tl ext else ext)"

definition claim_ext :: "string \<Rightarrow> string \<Rightarrow> registry \<Rightarrow> registry" where
  "claim_ext lang ext rg =
     (let ext = claimed_ext ext
      in if ext \<noteq> [] \<and> CHR ''.'' \<notin> set ext
         then rg\<lparr>rg_extensions := (rg_extensions rg)(ext \<mapsto> lang)\<rparr> else rg)"

definition register :: "extractor \<Rightarrow> registry \<Rightarrow> registry" where
  "register e rg =
     (let lang = to_ascii_lowercase (xt_language e);
          rg = fold (claim_ext lang) (xt_extensions e) rg
      in rg\<lparr>rg_extractors := (rg_extractors rg)(lang \<mapsto> e)\<rparr>)"

definition registry_get :: "registry \<Rightarrow> string \<Rightarrow> extractor option" where
  "registry_get rg language = rg_extractors rg (to_ascii_lowercase language)"

definition registry_extract :: "unicode \<Rightarrow> registry \<Rightarrow> string \<Rightarrow> uchar list \<Rightarrow> extraction" where
  "registry_extract ut rg language source =
     (case registry_get rg language of
        Some e \<Rightarrow> xt_extract e source
      | None \<Rightarrow> xt_extract (fallback_extractor ut (to_ascii_lowercase language)) source)"

definition registry_extract_noted ::
  "unicode \<Rightarrow> registry \<Rightarrow> string \<Rightarrow> uchar list \<Rightarrow> extraction \<times> string option" where
  "registry_extract_noted ut rg language source =
     (case registry_get rg language of
        Some e \<Rightarrow> xt_extract_noted e source
      | None \<Rightarrow> (registry_extract ut rg language source, None))"

definition registry_version :: "registry \<Rightarrow> string \<Rightarrow> string" where
  "registry_version rg language =
     (case registry_get rg language of Some e \<Rightarrow> xt_version e | None \<Rightarrow> fallback_version)"

definition registry_has :: "registry \<Rightarrow> string \<Rightarrow> bool" where
  "registry_has rg language \<longleftrightarrow> registry_get rg language \<noteq> None"

definition registry_detect_language :: "registry \<Rightarrow> string \<Rightarrow> uchar list \<Rightarrow> string" where
  "registry_detect_language rg path src =
     (case Option.bind (extension path) (rg_extensions rg) of
        Some lang \<Rightarrow> lang
      | None \<Rightarrow> detect_language_from_content path src)"

subsection \<open>Last registration wins\<close>

lemma find_append: "find P (xs @ ys) = (case find P xs of Some x \<Rightarrow> Some x | None \<Rightarrow> find P ys)"
  by (induction xs) auto

lemma find_SomeD: "find P xs = Some x \<Longrightarrow> P x"
  by (auto simp: find_Some_iff)

text \<open>
  A table with case-insensitive keys in which a later entry hides an earlier one, and what looking up
  after any sequence of insertions then gives.
\<close>

locale last_wins =
  fixes put :: "'e \<Rightarrow> 't \<Rightarrow> 't"
    and get :: "'t \<Rightarrow> string \<Rightarrow> 'v option"
    and entry :: "'e \<Rightarrow> string \<Rightarrow> 'v option"
  assumes get_put: "get (put e t) k = (case entry e k of Some v \<Rightarrow> Some v | None \<Rightarrow> get t k)"
begin

lemma get_puts:
  "get (fold put es t) k =
     (case find (\<lambda>e. entry e k \<noteq> None) (rev es) of Some e \<Rightarrow> entry e k | None \<Rightarrow> get t k)"
proof (induction es arbitrary: t)
  case (Cons e es)
  show ?case
  proof (cases "find (\<lambda>e. entry e k \<noteq> None) (rev es)")
    case None
    then show ?thesis using Cons [of "put e t"]
      by (simp add: get_put find_append split: option.splits)
  next
    case (Some e')
    then show ?thesis using Cons [of "put e t"] by (simp add: find_append)
  qed
qed simp

end

definition handles :: "extractor \<Rightarrow> string \<Rightarrow> extractor option" where
  "handles e k = (if eq_ignore_ascii_case (xt_language e) k then Some e else None)"

definition claims :: "extractor \<Rightarrow> string \<Rightarrow> string option" where
  "claims e k =
     (if k \<noteq> [] \<and> CHR ''.'' \<notin> set k \<and> k \<in> claimed_ext ` set (xt_extensions e)
      then Some (to_ascii_lowercase (xt_language e)) else None)"

lemma fold_claim_ext:
  "rg_extensions (fold (claim_ext lang) exts rg) k =
     (if k \<noteq> [] \<and> CHR ''.'' \<notin> set k \<and> k \<in> claimed_ext ` set exts then Some lang else rg_extensions rg k)"
  "rg_extractors (fold (claim_ext lang) exts rg) = rg_extractors rg"
  by (induction exts arbitrary: rg) (auto simp: claim_ext_def Let_def)

interpretation languages: last_wins register registry_get handles
  by unfold_locales
    (auto simp: register_def registry_get_def handles_def eq_ignore_ascii_case_def Let_def fold_claim_ext(2))

interpretation extensions: last_wins register rg_extensions claims
  by unfold_locales (auto simp: register_def claims_def Let_def fold_claim_ext(1))

lemma fallback_tokens: "tokenize ut source = Some (ex_tokens (fallback_extract ut source))"
  using tokenize_with_total [of ut source DEFAULT] by (auto simp: fallback_extract_def tokenize_def)

subsection \<open>Properties\<close>

text \<open>
  C19: The last registration wins. After registering any list of extractors, a language, in any case of
  its letters, is served by the last extractor registered for it, and a file extension is read as the
  language of the last extractor that claims it; only unclaimed extensions fall through to the built-in
  table.
\<close>

theorem registry_last_wins:
  "registry_get (fold register es registry_default) language =
       find (\<lambda>e. eq_ignore_ascii_case (xt_language e) language) (rev es)
   \<and> registry_detect_language (fold register es registry_default) path src =
       (case extension path of
          None \<Rightarrow> detect_language_from_content path src
        | Some x \<Rightarrow>
            (case find (\<lambda>e. claims e x \<noteq> None) (rev es) of
               None \<Rightarrow> detect_language_from_content path src
             | Some e \<Rightarrow> to_ascii_lowercase (xt_language e)))"
proof
  have h: "handles e language \<noteq> None \<longleftrightarrow> eq_ignore_ascii_case (xt_language e) language" for e
    by (simp add: handles_def)
  have c: "claims e x = Some v \<Longrightarrow> v = to_ascii_lowercase (xt_language e)" for e x v
    by (auto simp: claims_def split: if_splits)
  show "registry_get (fold register es registry_default) language =
       find (\<lambda>e. eq_ignore_ascii_case (xt_language e) language) (rev es)"
    unfolding languages.get_puts h
    by (auto simp: registry_get_def registry_default_def handles_def split: option.splits dest: find_SomeD)
  show "registry_detect_language (fold register es registry_default) path src =
       (case extension path of
          None \<Rightarrow> detect_language_from_content path src
        | Some x \<Rightarrow>
            (case find (\<lambda>e. claims e x \<noteq> None) (rev es) of
               None \<Rightarrow> detect_language_from_content path src
             | Some e \<Rightarrow> to_ascii_lowercase (xt_language e)))"
    using c by (auto simp: registry_detect_language_def extensions.get_puts registry_default_def
        split: option.splits dest!: find_SomeD)
qed

end
