(* ===== verification/Pattern.thy ===== *)
theory Pattern
  imports Schema "HOL-Library.Sublist"
begin

text \<open>
  The symbol pattern language of crates/graph-store/src/pattern.rs: the parsed pattern, ASCII folding,
  matching, and the parser with its refusals. The derived page-cache size of
  crates/graph-store/src/cache_size.rs is here too.
\<close>

subsection \<open>Patterns\<close>

definition MIN_NEEDLE_BYTES :: nat where
  "MIN_NEEDLE_BYTES = 2"

definition MAX_NEEDLE_BYTES :: nat where
  "MAX_NEEDLE_BYTES = 256"

datatype symbol_pattern = Exact string | Prefix string | Infix string | Suffix string

definition needs_infix_capability :: "symbol_pattern \<Rightarrow> bool" where
  "needs_infix_capability p = (case p of Infix _ \<Rightarrow> True | Suffix _ \<Rightarrow> True | _ \<Rightarrow> False)"

fun folded :: "symbol_pattern \<Rightarrow> symbol_pattern" where
  "folded (Exact s) = Exact (to_ascii_lowercase s)"
| "folded (Prefix s) = Prefix (to_ascii_lowercase s)"
| "folded (Infix s) = Infix (to_ascii_lowercase s)"
| "folded (Suffix s) = Suffix (to_ascii_lowercase s)"

text \<open>\<open>str::contains\<close>: a search at every position.\<close>

fun str_contains :: "string \<Rightarrow> string \<Rightarrow> bool" where
  "str_contains [] s \<longleftrightarrow> s = []"
| "str_contains (c # cs) s \<longleftrightarrow> prefix s (c # cs) \<or> str_contains cs s"

fun matches :: "symbol_pattern \<Rightarrow> string \<Rightarrow> bool" where
  "matches (Exact s) name \<longleftrightarrow> name = s"
| "matches (Prefix s) name \<longleftrightarrow> prefix s name"
| "matches (Infix s) name \<longleftrightarrow> str_contains name s"
| "matches (Suffix s) name \<longleftrightarrow> suffix s name"

subsection \<open>The parser\<close>

text \<open>\<open>str::strip_prefix\<close> and \<open>str::strip_suffix\<close>.\<close>

definition strip_prefix :: "string \<Rightarrow> string \<Rightarrow> string option" where
  "strip_prefix p s = (if prefix p s then Some (drop (length p) s) else None)"

definition strip_suffix :: "string \<Rightarrow> string \<Rightarrow> string option" where
  "strip_suffix p s = (if suffix p s then Some (take (length s - length p) s) else None)"

abbreviation star :: char where
  "star \<equiv> CHR ''*''"

abbreviation backslash :: char where
  "backslash \<equiv> CHR 0x5C"

definition lead_of :: "string \<Rightarrow> bool \<times> bool \<times> string" where
  "lead_of input =
     (case strip_prefix [backslash, star] input of
        Some r \<Rightarrow> (False, True, r)
      | None \<Rightarrow>
          (case strip_prefix [star] input of
             Some r \<Rightarrow> (True, False, r)
           | None \<Rightarrow> (False, False, input)))"

definition trail_of :: "string \<Rightarrow> bool \<times> bool \<times> string" where
  "trail_of rest =
     (case strip_suffix [backslash, star] rest of
        Some b \<Rightarrow> (False, True, b)
      | None \<Rightarrow>
          (case strip_suffix [star] rest of
             Some b \<Rightarrow> (True, False, b)
           | None \<Rightarrow> (False, False, rest)))"

text \<open>The needle with its escapes removed; \<open>None\<close> for an unescaped star.\<close>

fun unescape :: "string \<Rightarrow> string option" where
  "unescape [] = Some []"
| "unescape (c # cs) =
     (if c = backslash \<and> cs \<noteq> [] \<and> hd cs = star then map_option (\<lambda>n. star # n) (unescape (tl cs))
      else if c = star then None
      else map_option (\<lambda>n. c # n) (unescape cs))"

definition rejected :: "string \<Rightarrow> store_error" where
  "rejected msg = Rejected msg"

definition finish_needle :: "bool \<Rightarrow> string \<Rightarrow> symbol_pattern result" where
  "finish_needle trail_marker needle =
     (let what = (if trail_marker then ''infix'' else ''suffix'')
      in if needle = [] then Inl (rejected (''the '' @ what @ '' needle is empty''))
         else if length needle < MIN_NEEDLE_BYTES then
           Inl (rejected (what @ '' needle needs at least '' @ show_nat MIN_NEEDLE_BYTES @ '' bytes''))
         else if length needle > MAX_NEEDLE_BYTES then
           Inl (rejected (what @ '' needle is longer than '' @ show_nat MAX_NEEDLE_BYTES @ '' bytes''))
         else Inr (if trail_marker then Infix needle else Suffix needle))"

definition parse_symbol_pattern :: "string \<Rightarrow> symbol_pattern result" where
  "parse_symbol_pattern input =
     (if input = [] then Inl (rejected ''empty symbol pattern (use `*` to list all symbols)'')
      else if input = [star] then Inr (Prefix [])
      else if suffix [star, star] input then
        Inl (rejected (''pattern ending in `**` is ambiguous: use `prefix*` for a prefix, `*needle*` for a name containing `needle` (no `*` inside it), or `name'' @ [backslash] @ ''*` for a literal `*`''))
      else
        let (lead_marker, lead_literal, rest) = lead_of input;
            (trail_marker, trail_literal, body) = trail_of rest
        in if \<not> lead_marker then
             let name = (if lead_literal then [star] else []) @ body @ (if trail_literal then [star] else [])
             in Inr (if trail_marker then Prefix name else Exact name)
           else
             case unescape body of
               None \<Rightarrow>
                 Inl (rejected (''unescaped `*` inside an infix or suffix needle (only `*needle*` and `*needle` are supported; write `'' @ [backslash] @ ''*` for a literal `*`)''))
             | Some needle \<Rightarrow> finish_needle trail_marker (needle @ (if trail_literal then [star] else [])))"

subsection \<open>The derived cache size\<close>

definition MIN_DERIVED_CACHE_BYTES :: u64 where
  "MIN_DERIVED_CACHE_BYTES = push_bit 20 64"

definition MAX_DERIVED_CACHE_BYTES :: u64 where
  "MAX_DERIVED_CACHE_BYTES = push_bit 30 4"

definition clamp_u64 :: "u64 \<Rightarrow> u64 \<Rightarrow> u64 \<Rightarrow> u64" where
  "clamp_u64 lo hi v = (if v < lo then lo else if v > hi then hi else v)"

definition derive_cache_bytes :: "u64 \<Rightarrow> u64" where
  "derive_cache_bytes avail_bytes =
     clamp_u64 MIN_DERIVED_CACHE_BYTES MAX_DERIVED_CACHE_BYTES (avail_bytes div 4)"

subsection \<open>Lemmas\<close>

lemma str_contains_iff: "str_contains name s \<longleftrightarrow> (\<exists>a b. name = a @ s @ b)"
proof (induction name)
  case (Cons c cs)
  show ?case
  proof
    assume "str_contains (c # cs) s"
    then consider "prefix s (c # cs)" | "str_contains cs s" by auto
    then show "\<exists>a b. c # cs = a @ s @ b"
    proof cases
      case 1
      then show ?thesis by (metis append_Nil prefixE)
    next
      case 2
      with Cons show ?thesis by (metis append_Cons)
    qed
  next
    assume "\<exists>a b. c # cs = a @ s @ b"
    then obtain a b where "c # cs = a @ s @ b" by blast
    then consider "prefix s (c # cs)" | "\<exists>a b. cs = a @ s @ b"
      by (cases a) (auto simp: prefix_def)
    then show "str_contains (c # cs) s" using Cons by cases auto
  qed
qed simp

lemma lower_append: "to_ascii_lowercase (a @ b) = to_ascii_lowercase a @ to_ascii_lowercase b"
  by (simp add: to_ascii_lowercase_def)

text \<open>The source of a needle: every star escaped.\<close>

definition escape :: "string \<Rightarrow> string" where
  "escape n = concat (map (\<lambda>c. if c = star then [backslash, star] else [c]) n)"

lemma escape_simps [simp]:
  "escape [] = []"
  "escape (c # cs) = (if c = star then [backslash, star] else [c]) @ escape cs"
  "escape (a @ b) = escape a @ escape b"
  by (simp_all add: escape_def)

lemma escape_hd: "escape cs \<noteq> [] \<Longrightarrow> hd (escape cs) \<noteq> star"
  by (cases cs) auto

lemma unescape_escape: "unescape (escape n) = Some n"
proof (induction n)
  case (Cons c cs)
  then show ?case using escape_hd [of cs] by auto
qed simp

lemma suffix_single: "suffix [c] s \<longleftrightarrow> s \<noteq> [] \<and> last s = c"
  by (cases s rule: rev_cases) (auto simp: suffix_to_prefix)

lemma suffix_snoc2: "suffix [a, b] (xs @ [c]) \<longleftrightarrow> b = c \<and> xs \<noteq> [] \<and> last xs = a"
  by (cases xs rule: rev_cases) (auto simp: suffix_to_prefix)

lemma lead_of_simps [simp]:
  "lead_of (star # r) = (True, False, r)"
  "lead_of (backslash # star # r) = (False, True, r)"
  by (simp_all add: lead_of_def strip_prefix_def)

lemma lead_of_plain:
  "\<lbrakk>\<not> prefix [star] s; \<not> prefix [backslash, star] s\<rbrakk> \<Longrightarrow> lead_of s = (False, False, s)"
  by (simp add: lead_of_def strip_prefix_def)

lemma lead_of_cases:
  obtains (marker) r where "s = star # r" "lead_of s = (True, False, r)"
  | (literal) r where "s = backslash # star # r" "lead_of s = (False, True, r)"
  | (plain) "\<not> prefix [star] s" "\<not> prefix [backslash, star] s" "lead_of s = (False, False, s)"
proof (cases "prefix [star] s \<or> prefix [backslash, star] s")
  case True
  then show thesis
  proof
    assume "prefix [star] s"
    then obtain r where "s = star # r" by (auto simp: prefix_def)
    then show thesis using marker by simp
  next
    assume "prefix [backslash, star] s"
    then obtain r where "s = backslash # star # r" by (auto simp: prefix_def)
    then show thesis using literal by simp
  qed
next
  case False
  then show thesis using plain lead_of_plain by blast
qed

lemma trail_of_star:
  "trail_of (xs @ [star]) =
     (if xs \<noteq> [] \<and> last xs = backslash then (False, True, butlast xs) else (True, False, xs))"
  by (auto simp: trail_of_def strip_suffix_def suffix_single suffix_snoc2 butlast_conv_take)

lemma trail_of_escaped [simp]: "trail_of (xs @ [backslash, star]) = (False, True, xs)"
  using trail_of_star [of "xs @ [backslash]"] by simp

lemma trail_of_plain: "s = [] \<or> last s \<noteq> star \<Longrightarrow> trail_of s = (False, False, s)"
  by (cases s rule: rev_cases)
    (auto simp: trail_of_def strip_suffix_def suffix_snoc2 suffix_single)

lemma trail_of_cases:
  obtains (literal) b where "s = b @ [backslash, star]" "trail_of s = (False, True, b)"
  | (marker) b where "s = b @ [star]" "b = [] \<or> last b \<noteq> backslash" "trail_of s = (True, False, b)"
  | (plain) "s = [] \<or> last s \<noteq> star" "trail_of s = (False, False, s)"
proof (cases s rule: rev_cases)
  case Nil
  then show thesis using plain by (simp add: trail_of_plain)
next
  case (snoc ys c)
  show thesis
  proof (cases "c = star")
    case True
    show thesis
    proof (cases "ys \<noteq> [] \<and> last ys = backslash")
      case esc: True
      then have "s = butlast ys @ [backslash, star]"
        using True snoc append_butlast_last_id [of ys] by simp
      then show thesis using literal trail_of_escaped by blast
    next
      case False
      then show thesis using marker snoc True by (auto simp: trail_of_star)
    qed
  next
    case False
    then show thesis using plain snoc by (simp add: trail_of_plain)
  qed
qed

lemma unescape_last:
  "\<lbrakk>unescape b = Some n; b \<noteq> []; last b \<noteq> star\<rbrakk> \<Longrightarrow> n \<noteq> [] \<and> last n = last b"
proof (induction b arbitrary: n rule: unescape.induct)
  case (2 c cs)
  show ?case
  proof (cases "c = backslash \<and> cs \<noteq> [] \<and> hd cs = star")
    case True
    then obtain ds where "cs = star # ds" by (cases cs) auto
    with 2 True show ?thesis by (auto split: if_splits)
  next
    case False
    with 2 show ?thesis by (cases "cs = []") (auto split: if_splits)
  qed
qed simp

lemma finish_needle_Inr:
  "finish_needle t n = Inr p \<longleftrightarrow>
     2 \<le> length n \<and> length n \<le> 256 \<and> p = (if t then Infix n else Suffix n)"
  by (auto simp: finish_needle_def MIN_NEEDLE_BYTES_def MAX_NEEDLE_BYTES_def Let_def rejected_def)

text \<open>The patterns an input can express, and the input that expresses each.\<close>

fun expressible :: "symbol_pattern \<Rightarrow> bool" where
  "expressible (Exact s) \<longleftrightarrow> s \<noteq> [] \<and> (prefix [backslash, star] s \<longrightarrow> length s = 2)"
| "expressible (Prefix s) \<longleftrightarrow>
     \<not> prefix [backslash, star] s \<and> (s = [] \<or> last s \<noteq> star \<and> last s \<noteq> backslash)"
| "expressible (Infix s) \<longleftrightarrow>
     2 \<le> length s \<and> length s \<le> 256 \<and> last s \<noteq> star \<and> last s \<noteq> backslash"
| "expressible (Suffix s) \<longleftrightarrow> 2 \<le> length s \<and> length s \<le> 256"

definition protect_lead :: "string \<Rightarrow> string" where
  "protect_lead s = (if prefix [star] s then backslash # s else s)"

definition protect_trail :: "string \<Rightarrow> string" where
  "protect_trail s = (if suffix [star] s then butlast s @ [backslash, star] else s)"

fun print_pattern :: "symbol_pattern \<Rightarrow> string" where
  "print_pattern (Exact s) = (if s = [star] then [backslash, star] else protect_lead (protect_trail s))"
| "print_pattern (Prefix s) = protect_lead s @ [star]"
| "print_pattern (Infix s) = star # escape s @ [star]"
| "print_pattern (Suffix s) = star # escape s"

lemma escape_last:
  "s \<noteq> [] \<Longrightarrow> escape s \<noteq> [] \<and> last (escape s) = last s"
  by (cases s rule: rev_cases) auto

lemma escape_no_double: "\<not> suffix [star, star] (escape s)"
proof (cases s rule: rev_cases)
  case (snoc ys c)
  then show ?thesis
    using suffix_snoc2 [of star star "escape ys" c] suffix_snoc2 [of star star "escape ys @ [backslash]" star]
    by auto
qed simp

lemma trail_of_protect:
  "trail_of (protect_trail s) =
     (False, suffix [star] s, if suffix [star] s then butlast s else s)"
  by (cases "suffix [star] s") (auto simp: protect_trail_def trail_of_plain suffix_single)

lemma protect_trail_butlast:
  "(if suffix [star] s then butlast s else s) @ (if suffix [star] s then [star] else []) = s"
  by (cases s rule: rev_cases) (auto simp: suffix_single)

lemma protect_trail_no_double:
  "s \<noteq> [] \<Longrightarrow> \<not> suffix [star, star] (ys @ protect_trail s)"
proof (cases s rule: rev_cases)
  case (snoc zs c)
  then show ?thesis
    using suffix_snoc2 [of star star "ys @ zs" c] suffix_snoc2 [of star star "ys @ zs @ [backslash]" star]
    by (auto simp: protect_trail_def suffix_single)
qed simp

lemma protect_trail_Cons: "r \<noteq> [] \<Longrightarrow> protect_trail (c # r) = c # protect_trail r"
  by (simp add: protect_trail_def suffix_single)

lemma protect_trail_plain:
  assumes "s \<noteq> []" "\<not> prefix [star] s" "prefix [backslash, star] s \<longrightarrow> length s = 2"
  shows "\<not> prefix [star] (protect_trail s)" "\<not> prefix [backslash, star] (protect_trail s)"
    "protect_trail s \<noteq> []"
proof -
  obtain c r where s: "s = c # r" "c \<noteq> star" using assms by (cases s) auto
  show "\<not> prefix [star] (protect_trail s)" "protect_trail s \<noteq> []"
    using s by (auto simp: protect_trail_def suffix_single)
  show "\<not> prefix [backslash, star] (protect_trail s)"
  proof (cases r)
    case Nil
    then show ?thesis using s by (simp add: protect_trail_def suffix_single)
  next
    case (Cons d r')
    then show ?thesis using s assms(3)
      by (cases r') (auto simp: protect_trail_def suffix_single)
  qed
qed

lemma parse_Exact:
  assumes "expressible (Exact s)"
  shows "parse_symbol_pattern (print_pattern (Exact s)) = Inr (Exact s)"
proof (cases "prefix [star] s")
  case True
  then obtain r where s: "s = star # r" by (auto simp: prefix_def)
  show ?thesis
  proof (cases "r = []")
    case True
    then show ?thesis using s trail_of_plain [of "[]"]
      by (simp add: parse_symbol_pattern_def suffix_to_prefix)
  next
    case False
    have pr: "print_pattern (Exact s) = backslash # star # protect_trail r"
      using s False by (simp add: protect_lead_def protect_trail_Cons)
    show ?thesis
      unfolding pr parse_symbol_pattern_def
      using protect_trail_no_double [OF False, of "[backslash, star]"] protect_trail_butlast [of r] s
      by (simp add: trail_of_protect Let_def)
  qed
next
  case False
  with assms have plain: "\<not> prefix [star] (protect_trail s)" "\<not> prefix [backslash, star] (protect_trail s)"
    "protect_trail s \<noteq> []"
    using protect_trail_plain [of s] by auto
  have pr: "print_pattern (Exact s) = protect_trail s"
    using plain False by (auto simp: protect_lead_def)
  show ?thesis
    unfolding pr parse_symbol_pattern_def
    using protect_trail_no_double [of s "[]"] assms protect_trail_butlast [of s] plain
    by (auto simp: lead_of_plain trail_of_protect Let_def)
qed

lemma parse_Prefix:
  assumes "expressible (Prefix s)"
  shows "parse_symbol_pattern (print_pattern (Prefix s)) = Inr (Prefix s)"
proof (cases "prefix [star] s")
  case True
  then obtain r where s: "s = star # r" by (auto simp: prefix_def)
  with assms have "r \<noteq> []" by auto
  with s assms show ?thesis
    using suffix_snoc2 [of star star "backslash # star # r" star]
    by (simp add: parse_symbol_pattern_def protect_lead_def trail_of_star)
next
  case False
  show ?thesis
  proof (cases "s = []")
    case True
    then show ?thesis by (simp add: parse_symbol_pattern_def protect_lead_def)
  next
    case ne: False
    then obtain c r where s: "s = c # r" "c \<noteq> star" using False by (cases s) auto
    have "lead_of (s @ [star]) = (False, False, s @ [star])"
      using s assms by (intro lead_of_plain) (cases r; auto)+
    then show ?thesis
      using s ne False assms suffix_snoc2 [of star star s star] trail_of_star [of s]
      by (simp add: parse_symbol_pattern_def protect_lead_def split: if_splits)
  qed
qed

lemma parse_Infix:
  assumes "expressible (Infix s)"
  shows "parse_symbol_pattern (print_pattern (Infix s)) = Inr (Infix s)"
proof -
  have ne: "s \<noteq> []" using assms by auto
  then have "trail_of (escape s @ [star]) = (True, False, escape s)"
    using assms escape_last [OF ne] by (simp add: trail_of_star)
  then show ?thesis
    using assms escape_last [OF ne] suffix_snoc2 [of star star "star # escape s" star]
    by (simp add: parse_symbol_pattern_def unescape_escape finish_needle_Inr)
qed

lemma trail_of_escape:
  "trail_of (escape s) = (False, suffix [star] s, escape (if suffix [star] s then butlast s else s))"
  by (cases s rule: rev_cases) (auto simp: trail_of_plain suffix_single)

lemma parse_Suffix:
  assumes "expressible (Suffix s)"
  shows "parse_symbol_pattern (print_pattern (Suffix s)) = Inr (Suffix s)"
proof -
  have ne: "s \<noteq> []" using assms by auto
  then have ne2: "escape s \<noteq> []" using escape_last by blast
  have "\<not> suffix [star, star] (star # escape s)"
    using escape_no_double [of s] escape_last [OF ne] escape_hd [of s] ne2
    by (cases "escape s") (auto simp: suffix_Cons)
  then show ?thesis
    using assms ne2 protect_trail_butlast [of s]
    by (simp add: parse_symbol_pattern_def trail_of_escape unescape_escape finish_needle_Inr Let_def)
qed

lemma parse_body:
  assumes "parse_symbol_pattern input = Inr p" "input \<noteq> [star]"
  obtains lm ll rest tm te body where "input \<noteq> []" "\<not> suffix [star, star] input"
    "lead_of input = (lm, ll, rest)" "trail_of rest = (tm, te, body)"
    "\<not> lm \<Longrightarrow> p = (if tm then Prefix else Exact)
        ((if ll then [star] else []) @ body @ (if te then [star] else []))"
    "lm \<Longrightarrow> \<exists>n. unescape body = Some n \<and>
        finish_needle tm (n @ (if te then [star] else [])) = Inr p"
proof -
  obtain lm ll rest where l: "lead_of input = (lm, ll, rest)" by (metis prod_cases3)
  obtain tm te body where t: "trail_of rest = (tm, te, body)" by (metis prod_cases3)
  from assms l t show thesis
    by (intro that [of lm ll rest tm te body])
      (auto simp: parse_symbol_pattern_def Let_def split: if_splits option.splits)
qed

lemma image_needle:
  assumes "trail_of rest = (tm, te, body)" "\<not> suffix [star, star] (star # rest)"
    "unescape body = Some n" "finish_needle tm (n @ (if te then [star] else [])) = Inr p"
  shows "expressible p"
proof (cases tm)
  case True
  then obtain b where b: "rest = b @ [star]" "b = [] \<or> last b \<noteq> backslash" "body = b" "\<not> te"
    using assms(1) by (cases rest rule: trail_of_cases) auto
  have n: "2 \<le> length n" "length n \<le> 256" "p = Infix n"
    using assms(4) True b by (simp_all add: finish_needle_Inr)
  have ne: "b \<noteq> []" using n assms(3) b by auto
  then have "last b \<noteq> star"
    using assms(2) b suffix_snoc2 [of star star "star # b" star] by auto
  then show ?thesis
    using n b ne unescape_last [of b n] assms(3) by auto
next
  case False
  then show ?thesis using assms(4) by (auto simp: finish_needle_Inr split: if_splits)
qed

lemma image_plain:
  assumes tr: "trail_of rest = (tm, te, body)"
    and nd: "\<not> suffix [star, star] (lead @ rest)"
    and lead: "lead = [backslash, star] \<and> ll \<or>
      lead = [] \<and> \<not> ll \<and> rest \<noteq> [] \<and> \<not> prefix [star] rest \<and> \<not> prefix [backslash, star] rest"
  shows "expressible ((if tm then Prefix else Exact)
    ((if ll then [star] else []) @ body @ (if te then [star] else [])))"
  using tr
proof (cases rest rule: trail_of_cases)
  case (literal b)
  then show ?thesis using tr lead by (cases b) (auto simp: prefix_Cons)
next
  case (marker b)
  have "b \<noteq> [] \<and> last b \<noteq> star"
    using nd marker lead suffix_snoc2 [of star star "lead @ b" star]
    by (cases "b = []") (auto simp: suffix_single)
  then show ?thesis using tr lead marker by (cases b) (auto simp: prefix_Cons)
next
  case plain
  then show ?thesis using tr lead by auto
qed

lemma lower_sublist:
  "str_contains name s \<Longrightarrow> str_contains (to_ascii_lowercase name) (to_ascii_lowercase s)"
  by (metis str_contains_iff lower_append)

subsection \<open>Properties\<close>

text \<open>
  C15: Every pattern that can be written at all is written by escaping: parsing the printed form of an
  expressible pattern gives the pattern back. Expressible are all suffix needles of 2 to 256 bytes, the
  infix needles of that length and the prefixes that do not end in a star or a backslash, and the
  exact names that are not empty and do not start with an escaped star.
\<close>

theorem parse_print_pattern:
  "expressible p \<Longrightarrow> parse_symbol_pattern (print_pattern p) = Inr p"
  by (cases p) (simp_all only: parse_Exact parse_Prefix parse_Infix parse_Suffix)

theorem parse_print_pattern_witness:
  "parse_symbol_pattern (print_pattern (Infix ''a*b'')) = Inr (Infix ''a*b'')"
  by (rule parse_print_pattern) simp

text \<open>
  C16: The parser gives nothing else: whatever it accepts is an expressible pattern, so an accepted
  infix or suffix needle always has between 2 and 256 bytes.
\<close>

theorem parse_symbol_pattern_image:
  assumes "parse_symbol_pattern input = Inr p"
  shows "expressible p"
proof (cases "input = [star]")
  case True
  then show ?thesis using assms by (auto simp: parse_symbol_pattern_def)
next
  case False
  from assms False show ?thesis
  proof (cases rule: parse_body)
    case (1 lm ll rest tm te body)
    from 1(3) show ?thesis
    proof (cases input rule: lead_of_cases)
      case (marker r)
      then show ?thesis using 1 image_needle [of rest tm te body] by auto
    next
      case (literal r)
      then show ?thesis using 1 image_plain [of rest tm te body "[backslash, star]" ll] by auto
    next
      case plain
      then show ?thesis using 1 image_plain [of rest tm te body "[]" ll] by auto
    qed
  qed
qed

theorem parse_symbol_pattern_image_witness:
  "parse_symbol_pattern ''*ab'' = Inr (Suffix ''ab'') \<and> expressible (Suffix ''ab'')"
proof -
  have "parse_symbol_pattern ''*ab'' = Inr (Suffix ''ab'')" by code_simp
  then show ?thesis using parse_symbol_pattern_image by blast
qed

text \<open>
  Matching is the substring relation the pattern names, and folding is sound for it: a name that
  matches a pattern still matches when both are lowered, which is what lets a case-insensitive store
  filter on lowered keys.
\<close>

theorem folded_matches:
  "matches p name \<Longrightarrow>
     matches (folded p) (to_ascii_lowercase name) \<and>
     (\<forall>s. p = Infix s \<longrightarrow> (\<exists>a b. name = a @ s @ b))"
  by (cases p)
    (auto simp: lower_append prefix_def suffix_def lower_sublist str_contains_iff [symmetric])

theorem folded_matches_witness:
  "matches (folded (Infix ''bC'')) (to_ascii_lowercase ''AbCd'')"
proof -
  have "matches (Infix ''bC'') ''AbCd''" by code_simp
  then show ?thesis using folded_matches by blast
qed

text \<open>
  The derived cache is a quarter of the available memory, held between 64 MiB and 4 GiB, and
  never decreases when more memory is available.
\<close>

theorem derive_cache_bytes_bounds:
  "unat (derive_cache_bytes a) = max (64 * 2 ^ 20) (min (4 * 2 ^ 30) (unat a div 4))
     \<and> (derive_cache_bytes a \<le> derive_cache_bytes b \<or> b < a)"
proof -
  have eq: "unat (derive_cache_bytes c) = max (64 * 2 ^ 20) (min (4 * 2 ^ 30) (unat c div 4))" for c
    by (auto simp: derive_cache_bytes_def clamp_u64_def MIN_DERIVED_CACHE_BYTES_def
        MAX_DERIVED_CACHE_BYTES_def push_bit_eq_mult word_less_nat_alt unat_div)
  show ?thesis unfolding eq word_le_nat_alt word_less_nat_alt
    using div_le_mono [of "unat a" "unat b" 4] by linarith
qed

end
