(* ===== verification/Fingerprint.thy ===== *)
theory Fingerprint
  imports Encoding Registry Pattern
begin

text \<open>
  File fingerprints, crates/graph-store/src/common.rs: how a fingerprint is put together and how the
  extractor version is read back out of one. The SHA-256 of the sha2 package is an argument.
\<close>

subsection \<open>Writing\<close>

definition FINGERPRINT_FORMAT_VERSION :: nat where
  "FINGERPRINT_FORMAT_VERSION = 1"

definition hex_digit :: "nat \<Rightarrow> char" where
  "hex_digit n = char_of (if n < 10 then 48 + n else 87 + n)"

definition hex_byte :: "u8 \<Rightarrow> string" where
  "hex_byte b = [hex_digit (unat b div 16), hex_digit (unat b mod 16)]"

definition fingerprint ::
  "(u8 list \<Rightarrow> u8 list) \<Rightarrow> codecs \<Rightarrow> registry \<Rightarrow> u8 list \<Rightarrow> string \<Rightarrow> encoding \<Rightarrow> bool \<Rightarrow> string" where
  "fingerprint sha256 cd rg bytes lang enc lossy =
     (let hash = concat (map hex_byte (sha256 bytes));
          fp = ''sha256:'' @ hash @ ''|'' @ to_ascii_lowercase lang @ ''|'' @ registry_version rg lang @ ''|'' @
            show_nat FINGERPRINT_FORMAT_VERSION
      in if enc \<noteq> UTF_8 \<or> lossy then
           fp @ ''|enc='' @ cd_name cd enc @ (if lossy then ''+lossy'' else []) @ ''@'' @ show_nat DECODER_VERSION
         else fp)"

subsection \<open>Reading\<close>

text \<open>\<open>str::rsplit_once\<close> on one character, and \<open>rfind\<close>.\<close>

definition rsplit_once :: "char \<Rightarrow> string \<Rightarrow> (string \<times> string) option" where
  "rsplit_once c s =
     (case dropWhile (\<lambda>x. x \<noteq> c) (rev s) of
        [] \<Rightarrow> None | _ # front \<Rightarrow> Some (rev front, rev (takeWhile (\<lambda>x. x \<noteq> c) (rev s))))"

fun rfind :: "string \<Rightarrow> string \<Rightarrow> nat option" where
  "rfind [] pat = (if pat = [] then Some 0 else None)"
| "rfind (c # cs) pat =
     (case rfind cs pat of
        Some i \<Rightarrow> Some (Suc i)
      | None \<Rightarrow> if prefix pat (c # cs) then Some 0 else None)"

definition strip_encoding_suffix :: "string \<Rightarrow> string" where
  "strip_encoding_suffix fp =
     (case rfind fp ''|enc='' of
        None \<Rightarrow> fp
      | Some at \<Rightarrow>
          let tail = drop (at + length ''|enc='') fp
          in (case rsplit_once (CHR ''@'') tail of
                None \<Rightarrow> fp
              | Some (name, version) \<Rightarrow>
                  let name = (case strip_suffix ''+lossy'' name of Some n \<Rightarrow> n | None \<Rightarrow> name);
                      well_formed = name \<noteq> [] \<and> CHR ''|'' \<notin> set name \<and> CHR ''@'' \<notin> set name \<and>
                        version \<noteq> [] \<and> list_all is_digit_char version
                  in if well_formed then take at fp else fp))"

definition fingerprint_extractor_version :: "string \<Rightarrow> string \<Rightarrow> string option" where
  "fingerprint_extractor_version fp lang =
     (let fp = strip_encoding_suffix fp
      in Option.bind (strip_prefix ''sha256:'' fp) (\<lambda>rest.
         Option.bind (split_once (CHR ''|'') rest) (\<lambda>(_, rest).
         Option.bind (strip_prefix (to_ascii_lowercase lang) rest) (\<lambda>rest.
         Option.bind (strip_prefix ''|'' rest) (\<lambda>rest.
         strip_suffix (''|'' @ show_nat FINGERPRINT_FORMAT_VERSION) rest)))))"

subsection \<open>Lemmas on the string operations\<close>

lemma takeWhile_until: "c \<notin> set a \<Longrightarrow> takeWhile (\<lambda>x. x \<noteq> c) (a @ c # b) = a"
  by (induction a) auto

lemma dropWhile_until: "c \<notin> set a \<Longrightarrow> dropWhile (\<lambda>x. x \<noteq> c) (a @ c # b) = c # b"
  by (induction a) auto

lemma split_once_append: "c \<notin> set a \<Longrightarrow> split_once c (a @ c # b) = Some (a, b)"
  by (simp add: split_once_def takeWhile_until dropWhile_until)

lemma rsplit_once_append: "c \<notin> set b \<Longrightarrow> rsplit_once c (a @ c # b) = Some (a, b)"
  by (simp add: rsplit_once_def takeWhile_until dropWhile_until)

lemma rsplit_once_SomeD:
  assumes "rsplit_once c s = Some (a, b)"
  shows "s = a @ c # b"
proof -
  obtain x where x: "dropWhile (\<lambda>x. x \<noteq> c) (rev s) = x # rev a" "b = rev (takeWhile (\<lambda>x. x \<noteq> c) (rev s))"
    using assms by (auto simp: rsplit_once_def split: list.splits)
  have "rev s = takeWhile (\<lambda>x. x \<noteq> c) (rev s) @ x # rev a \<and> \<not> x \<noteq> c"
    by (rule dropWhile_eq_Cons_conv [THEN iffD1, OF x(1)])
  then have xc: "x = c" and r: "rev s = takeWhile (\<lambda>x. x \<noteq> c) (rev s) @ x # rev a" by blast+
  have "rev s = rev b @ c # rev a" unfolding x(2) rev_rev_ident by (rule r [unfolded xc])
  then have "rev (rev s) = rev (rev b @ c # rev a)" by (rule arg_cong)
  then show ?thesis by simp
qed

lemma rfind_absent: "c \<notin> set s \<Longrightarrow> rfind s (c # p) = None"
  by (induction s) (auto simp: prefix_def)

lemma rfind_last:
  assumes "c \<notin> set p" and "c \<notin> set rest"
  shows "rfind (a @ (c # p) @ rest) (c # p) = Some (length a)"
proof (induction a)
  case Nil
  then show ?case using rfind_absent [of c "p @ rest" p] assms by simp
qed simp

lemma rfind_SomeD: "rfind s pat = Some i \<Longrightarrow> s = take i s @ pat @ drop (i + length pat) s"
proof (induction s arbitrary: i)
  case (Cons c s)
  show ?case
  proof (cases "rfind s pat")
    case None
    then show ?thesis using Cons.prems by (auto simp: prefix_def split: if_splits)
  next
    case (Some j)
    then show ?thesis using Cons.IH [OF Some] Cons.prems by auto
  qed
qed (auto split: if_splits)

subsection \<open>Reading back\<close>

lemma show_nat_1 [simp]: "show_nat 1 = ''1''"
  unfolding show_nat.simps [of 1] by code_simp

lemma strip_plain: "strip_encoding_suffix (base @ ''|1'') = base @ ''|1''"
proof -
  have False if at: "rfind (base @ ''|1'') ''|enc='' = Some at"
    and sp: "rsplit_once (CHR ''@'') (drop (at + length ''|enc='') (base @ ''|1'')) = Some (name, version)"
    and v: "version \<noteq> []" "list_all is_digit_char version" for at name version
  proof -
    obtain v' z where vz: "version = v' @ [z]" using v(1) by (metis rev_exhaust)
    have "base @ ''|1'' = take at (base @ ''|1'') @ ''|enc='' @ name @ CHR ''@'' # version"
      unfolding rsplit_once_SomeD [OF sp, symmetric] by (rule rfind_SomeD [OF at])
    then have "base @ [CHR ''|''] = take at (base @ ''|1'') @ ''|enc='' @ name @ CHR ''@'' # v'"
      unfolding vz by (metis append.assoc append_Cons append_Nil butlast_snoc)
    then have "CHR ''|'' = last (CHR ''@'' # v')"
      by (metis append_is_Nil_conv last_append last_snoc list.distinct(1))
    then show False using v(2) by (cases v' rule: rev_cases) (auto simp: vz is_digit_char_def)
  qed
  then show ?thesis
    unfolding strip_encoding_suffix_def Let_def by (auto split: option.split)
qed

text \<open>What the WHATWG names of encoding_rs are like.\<close>

definition names_ok :: "codecs \<Rightarrow> bool" where
  "names_ok cd \<longleftrightarrow>
     (\<forall>e. cd_name cd e \<noteq> [] \<and> CHR ''|'' \<notin> set (cd_name cd e) \<and> CHR ''@'' \<notin> set (cd_name cd e) \<and>
          \<not> suffix ''+lossy'' (cd_name cd e))"

lemma strip_suffix_append [simp]: "strip_suffix p (a @ p) = Some a"
  by (simp add: strip_suffix_def suffix_def)

lemma strip_prefix_append [simp]: "strip_prefix p (p @ a) = Some a"
  by (simp add: strip_prefix_def)

lemma strip_encoded:
  assumes "names_ok cd"
  shows "strip_encoding_suffix (fp @ ''|enc='' @ cd_name cd e @ (if lossy then ''+lossy'' else []) @ ''@1'') = fp"
proof -
  let ?n = "cd_name cd e @ (if lossy then ''+lossy'' else [])"
  have n: "cd_name cd e \<noteq> []" "CHR ''|'' \<notin> set (cd_name cd e)" "CHR ''@'' \<notin> set (cd_name cd e)"
      "\<not> suffix ''+lossy'' (cd_name cd e)"
    using assms by (auto simp: names_ok_def)
  have "rfind (fp @ ''|enc='' @ ?n @ ''@1'') ''|enc='' = Some (length fp)"
    using rfind_last [of "CHR ''|''" "''enc=''" "?n @ ''@1''" fp] n(2) by auto
  moreover have "rsplit_once (CHR ''@'') (?n @ ''@1'') = Some (?n, ''1'')"
    using rsplit_once_append [of "CHR ''@''" "''1''" ?n] by simp
  moreover have "(case strip_suffix ''+lossy'' ?n of Some m \<Rightarrow> m | None \<Rightarrow> ?n) = cd_name cd e"
    using n(4) by (cases lossy) (simp_all add: strip_suffix_def suffix_def)
  ultimately show ?thesis
    using n unfolding strip_encoding_suffix_def Let_def by (simp add: is_digit_char_def)
qed

lemma hex_digit_bar: "n < 16 \<Longrightarrow> hex_digit n \<noteq> CHR ''|''"
  by (auto simp: hex_digit_def char_of_eq_iff take_bit_eq_mod split: if_splits)

lemma hash_bar: "CHR ''|'' \<notin> set (concat (map hex_byte bs))"
proof -
  have "unat b div 16 < 16" "unat b mod 16 < 16" for b :: u8
    using unat_u8_less [of b] by (simp_all add: less_mult_imp_div_less)
  then have "CHR ''|'' \<notin> set (hex_byte b)" for b
    by (metis hex_byte_def hex_digit_bar empty_iff empty_set insert_iff list.simps(15))
  then show ?thesis by auto
qed

lemma version_of_plain:
  assumes "strip_encoding_suffix fp = ''sha256:'' @ hash @ ''|'' @ to_ascii_lowercase lang @ ''|'' @ version @ ''|1''"
    and "CHR ''|'' \<notin> set hash"
  shows "fingerprint_extractor_version fp lang = Some version"
proof -
  have "split_once (CHR ''|'') (hash @ ''|'' @ to_ascii_lowercase lang @ ''|'' @ version @ ''|1'') =
      Some (hash, to_ascii_lowercase lang @ ''|'' @ version @ ''|1'')"
    using split_once_append [OF assms(2)] by simp
  then show ?thesis
    unfolding fingerprint_extractor_version_def Let_def assms(1) strip_prefix_append Option.bind.simps
      prod.case FINGERPRINT_FORMAT_VERSION_def show_nat_1
    using strip_suffix_append [of "''|1''" version] strip_prefix_append [of "''|''"] by simp
qed

subsection \<open>Property\<close>

text \<open>
  C24: the extractor version can always be read back out of a fingerprint, whatever the language name and the
  version contain, field separators and texts that look like an encoding suffix included. The only
  assumption is that names of encodings are non-empty and hold neither separator nor the lossy mark.
\<close>

theorem fingerprint_version_roundtrip:
  assumes "names_ok cd"
  shows "fingerprint_extractor_version (fingerprint sha256 cd rg bytes lang enc lossy) lang = Some (registry_version rg lang)"
proof (rule version_of_plain [OF _ hash_bar])
  let ?fp = "''sha256:'' @ concat (map hex_byte (sha256 bytes)) @ ''|'' @ to_ascii_lowercase lang @ ''|'' @
    registry_version rg lang @ ''|1''"
  have "strip_encoding_suffix ?fp = ?fp"
    using strip_plain [of "''sha256:'' @ concat (map hex_byte (sha256 bytes)) @ ''|'' @ to_ascii_lowercase lang @
      ''|'' @ registry_version rg lang"] by simp
  moreover note strip_encoded [OF assms, of ?fp enc lossy]
  ultimately show "strip_encoding_suffix (fingerprint sha256 cd rg bytes lang enc lossy) = ?fp"
    by (simp add: fingerprint_def Let_def FINGERPRINT_FORMAT_VERSION_def DECODER_VERSION_def show_nat_1 [simplified])
qed

theorem fingerprint_version_roundtrip_witness:
  "fingerprint_extractor_version
     (fingerprint (\<lambda>bs. bs) ascii_codecs registry_default [1, 2] ''a|enc=b@1'' UTF_16LE True) ''a|enc=b@1'' =
     Some fallback_version"
proof -
  have "names_ok ascii_codecs" by (simp add: names_ok_def ascii_codecs_def suffix_def)
  from fingerprint_version_roundtrip [OF this] show ?thesis
    by (simp add: registry_version_def registry_get_def registry_default_def)
qed

end
