(* ===== verification/Spans.thy ===== *)
theory Spans
  imports Schema "HOL-Library.Product_Lexorder"
begin

text \<open>
  Span validation, \<open>validate_spans\<close> of crates/graph-store/src/common.rs: one sweep over symbols and tokens
  in order of their starts with a stack of open symbol ends, and the nesting condition it decides.
\<close>

subsection \<open>The sweep\<close>

text \<open>\<open>sort_by_key\<close> is stable; the stack has its top first.\<close>

definition sort_symbols :: "span list \<Rightarrow> span list" where
  "sort_symbols = sort_key (\<lambda>s. (sp_start s, - int (unat (sp_end s))))"

definition sort_tokens :: "span list \<Rightarrow> span list" where
  "sort_tokens = sort_key sp_start"

definition check_span :: "span \<Rightarrow> u32 list \<Rightarrow> u32 list result" where
  "check_span sp stack =
     (let stack = dropWhile (\<lambda>e. e \<le> sp_start sp) stack
      in if sp_start sp > sp_end sp then
           Inl (InvalidSpan (''start '' @ show_nat (unat (sp_start sp)) @ '' > end '' @ show_nat (unat (sp_end sp))))
         else if stack \<noteq> [] \<and> sp_end sp > hd stack then
           Inl (InvalidSpan (''bytes '' @ show_nat (unat (sp_start sp)) @ ''..'' @ show_nat (unat (sp_end sp)) @
             '' partially overlap an enclosing symbol ending at '' @ show_nat (unat (hd stack))))
         else Inr stack)"

fun validate_loop :: "span list \<Rightarrow> span list \<Rightarrow> u32 list \<Rightarrow> unit result" where
  "validate_loop [] [] stack = Inr ()"
| "validate_loop (s # syms) [] stack =
     bindE (check_span s stack) (\<lambda>stack. validate_loop syms [] (sp_end s # stack))"
| "validate_loop [] (t # toks) stack = bindE (check_span t stack) (\<lambda>stack. validate_loop [] toks stack)"
| "validate_loop (s # syms) (t # toks) stack =
     (if sp_start s \<le> sp_start t then
        bindE (check_span s stack) (\<lambda>stack. validate_loop syms (t # toks) (sp_end s # stack))
      else bindE (check_span t stack) (\<lambda>stack. validate_loop (s # syms) toks stack))"

definition validate_spans :: "extraction \<Rightarrow> unit result" where
  "validate_spans ex =
     validate_loop (sort_symbols (map sd_span (ex_symbols ex))) (sort_tokens (map td_span (ex_tokens ex))) []"

subsection \<open>The condition\<close>

text \<open>
  No span starts after it ends; a token that starts inside a symbol ends inside it; a symbol that starts
  strictly inside another ends inside it.
\<close>

definition well_nested :: "extraction \<Rightarrow> bool" where
  "well_nested ex \<longleftrightarrow>
     (let syms = set (map sd_span (ex_symbols ex)); toks = set (map td_span (ex_tokens ex))
      in (\<forall>x \<in> syms \<union> toks. sp_start x \<le> sp_end x) \<and>
         (\<forall>s \<in> syms. \<forall>t \<in> toks. sp_start s \<le> sp_start t \<and> sp_start t < sp_end s \<longrightarrow> sp_end t \<le> sp_end s) \<and>
         (\<forall>s \<in> syms. \<forall>x \<in> syms. sp_start s < sp_start x \<and> sp_start x < sp_end s \<longrightarrow> sp_end x \<le> sp_end s))"

subsection \<open>The sweep as one list\<close>

fun merge_spans :: "span list \<Rightarrow> span list \<Rightarrow> (bool \<times> span) list" where
  "merge_spans syms [] = map (Pair True) syms"
| "merge_spans [] toks = map (Pair False) toks"
| "merge_spans (s # syms) (t # toks) =
     (if sp_start s \<le> sp_start t then (True, s) # merge_spans syms (t # toks)
      else (False, t) # merge_spans (s # syms) toks)"

fun sweep :: "(bool \<times> span) list \<Rightarrow> u32 list \<Rightarrow> unit result" where
  "sweep [] stack = Inr ()"
| "sweep ((b, x) # ms) stack =
     bindE (check_span x stack) (\<lambda>stack. sweep ms (if b then sp_end x # stack else stack))"

lemma validate_loop_sweep: "validate_loop syms toks stack = sweep (merge_spans syms toks) stack"
proof (induction syms toks stack rule: validate_loop.induct)
  case (2 s syms stack)
  then show ?case by (cases "check_span s stack") (auto simp: bindE_def)
next
  case (3 t toks stack)
  then show ?case by (cases "check_span t stack"; cases toks) (auto simp: bindE_def)
next
  case (4 s syms t toks stack)
  then show ?case by (cases "check_span s stack"; cases "check_span t stack") (auto simp: bindE_def)
qed simp

lemma set_merge_spans: "set (merge_spans syms toks) = Pair True ` set syms \<union> Pair False ` set toks"
  by (induction syms toks rule: merge_spans.induct) auto

definition before :: "bool \<times> span \<Rightarrow> bool \<times> span \<Rightarrow> bool" where
  "before p q \<longleftrightarrow>
     (case (p, q) of ((b, x), (c, y)) \<Rightarrow>
        sp_start x \<le> sp_start y \<and>
        (sp_start x = sp_start y \<longrightarrow> (c \<longrightarrow> b) \<and> (b \<and> c \<longrightarrow> sp_end y \<le> sp_end x)))"

lemmas sorted_by_key = sorted_sort_key [unfolded sorted_map]

lemma sort_symbols_before: "sorted_wrt (\<lambda>x y. before (True, x) (True, y)) (sort_symbols ss)"
  unfolding sort_symbols_def
  by (rule sorted_wrt_mono_rel [OF _ sorted_by_key]) (auto simp: before_def less_eq_prod_def word_le_def word_less_def)

lemma sort_tokens_before: "sorted_wrt (\<lambda>x y. before (False, x) (False, y)) (sort_tokens ss)"
  unfolding sort_tokens_def by (rule sorted_wrt_mono_rel [OF _ sorted_by_key]) (auto simp: before_def)

lemma before_chain:
  "sp_start s \<le> sp_start t \<Longrightarrow> before (True, s) (False, t)"
  "\<lbrakk>sp_start s \<le> sp_start t; before (False, t) (False, u)\<rbrakk> \<Longrightarrow> before (True, s) (False, u)"
  "\<not> sp_start s \<le> sp_start t \<Longrightarrow> before (False, t) (True, s)"
  "\<lbrakk>\<not> sp_start s \<le> sp_start t; before (True, s) (True, u)\<rbrakk> \<Longrightarrow> before (False, t) (True, u)"
  by (auto simp: before_def)

lemma merge_before:
  "\<lbrakk>sorted_wrt (\<lambda>x y. before (True, x) (True, y)) syms; sorted_wrt (\<lambda>x y. before (False, x) (False, y)) toks\<rbrakk> \<Longrightarrow>
     sorted_wrt before (merge_spans syms toks)"
proof (induction syms toks rule: merge_spans.induct)
  case (3 s syms t toks)
  then show ?case by (cases "sp_start s \<le> sp_start t") (auto simp: set_merge_spans intro: before_chain)
qed (auto simp: sorted_wrt_map)

lemma sorted_wrt_pick:
  assumes "sorted_wrt B ms" and "sorted_wrt P ms" and "p \<in> set ms" and "q \<in> set ms" and "\<not> B q p" and "p \<noteq> q"
  shows "P p q"
proof -
  obtain i j where ij: "i < length ms" "ms ! i = p" "j < length ms" "ms ! j = q"
    using assms(3,4) by (meson in_set_conv_nth)
  consider "i < j" | "j < i" using ij assms(6) by (metis linorder_cases)
  then show ?thesis
  proof cases
    case 1
    then show ?thesis using assms(2) ij by (metis sorted_wrt_nth_less)
  next
    case 2
    then show ?thesis using assms(1,5) ij by (metis sorted_wrt_nth_less)
  qed
qed

subsection \<open>What the sweep decides\<close>

definition encloses :: "bool \<times> span \<Rightarrow> bool \<times> span \<Rightarrow> bool" where
  "encloses p q \<longleftrightarrow> (fst p \<and> sp_start (snd q) < sp_end (snd p) \<longrightarrow> sp_end (snd q) \<le> sp_end (snd p))"

lemma sorted_dropWhile:
  assumes "sorted stack"
  shows "set (dropWhile (\<lambda>e. e \<le> v) stack) = {e \<in> set stack. v < e}" "sorted (dropWhile (\<lambda>e. e \<le> v) stack)"
  using assms by (induction stack) auto

lemma sorted_hd: "sorted xs \<Longrightarrow> (xs \<noteq> [] \<and> hd xs < v) \<longleftrightarrow> \<not> (\<forall>e \<in> set xs. v \<le> e)" for v :: u32
  by (cases xs) (auto simp: not_le intro: le_less_trans)

definition fits :: "span \<Rightarrow> u32 list \<Rightarrow> bool" where
  "fits x stack \<longleftrightarrow> sp_start x \<le> sp_end x \<and> (\<forall>e \<in> set stack. sp_start x < e \<longrightarrow> sp_end x \<le> e)"

lemma check_span_fits:
  assumes "sorted stack"
  shows "fits x stack \<Longrightarrow> check_span x stack = Inr (dropWhile (\<lambda>e. e \<le> sp_start x) stack)"
    and "\<not> fits x stack \<Longrightarrow> \<exists>m. check_span x stack = Inl (InvalidSpan m)"
  using sorted_hd [OF sorted_dropWhile(2) [OF assms, of "sp_start x"], of "sp_end x"]
  unfolding check_span_def Let_def sorted_dropWhile(1) [OF assms] fits_def by auto

lemma sweep_ok:
  "\<lbrakk>sorted_wrt (\<lambda>p q. sp_start (snd p) \<le> sp_start (snd q)) ms; sorted stack\<rbrakk> \<Longrightarrow>
     sweep ms stack = Inr () \<longleftrightarrow>
       (\<forall>p \<in> set ms. sp_start (snd p) \<le> sp_end (snd p)) \<and>
       (\<forall>p \<in> set ms. \<forall>e \<in> set stack. sp_start (snd p) < e \<longrightarrow> sp_end (snd p) \<le> e) \<and>
       sorted_wrt encloses ms"
proof (induction ms arbitrary: stack)
  case (Cons p ms)
  obtain b x where p: "p = (b, x)" by (cases p)
  let ?d = "dropWhile (\<lambda>e. e \<le> sp_start x) stack"
  let ?s = "if b then sp_end x # ?d else ?d"
  show ?case
  proof (cases "fits x stack")
    case True
    have later: "sp_start x \<le> sp_start (snd q)" if "q \<in> set ms" for q using Cons.prems(1) that p by auto
    have "sorted ?s" using True [unfolded fits_def] sorted_dropWhile [OF Cons.prems(2), of "sp_start x"] by auto
    then have IH: "sweep ms ?s = Inr () \<longleftrightarrow>
        (\<forall>p \<in> set ms. sp_start (snd p) \<le> sp_end (snd p)) \<and>
        (\<forall>p \<in> set ms. \<forall>e \<in> set ?s. sp_start (snd p) < e \<longrightarrow> sp_end (snd p) \<le> e) \<and> sorted_wrt encloses ms"
      using Cons.IH Cons.prems(1) by simp
    have "(\<forall>q \<in> set ms. \<forall>e \<in> set ?s. sp_start (snd q) < e \<longrightarrow> sp_end (snd q) \<le> e) \<longleftrightarrow>
        (\<forall>q \<in> set ms. encloses p q) \<and> (\<forall>q \<in> set ms. \<forall>e \<in> set stack. sp_start (snd q) < e \<longrightarrow> sp_end (snd q) \<le> e)"
      using later sorted_dropWhile(1) [OF Cons.prems(2), of "sp_start x"]
      by (fastforce simp: encloses_def p split: if_splits)
    moreover have "sweep (p # ms) stack = sweep ms ?s"
      using check_span_fits(1) [OF Cons.prems(2) True] by (simp add: p)
    ultimately show ?thesis using IH True by (auto simp: p fits_def)
  next
    case False
    then obtain m where "check_span x stack = Inl (InvalidSpan m)" using check_span_fits(2) [OF Cons.prems(2)] by blast
    then have "sweep (p # ms) stack \<noteq> Inr ()" by (simp add: p)
    then show ?thesis using False p by (auto simp: fits_def)
  qed
qed simp

lemma check_span_error: "check_span x stack = Inl e \<Longrightarrow> \<exists>m. e = InvalidSpan m"
  by (auto simp: check_span_def Let_def split: if_splits)

lemma sweep_error: "sweep ms stack \<noteq> Inr () \<Longrightarrow> \<exists>m. sweep ms stack = Inl (InvalidSpan m)"
proof (induction ms stack rule: sweep.induct)
  case (2 b x ms stack)
  then show ?case by (cases "check_span x stack") (auto dest: check_span_error)
qed simp

lemma well_nested_sweep:
  fixes ex :: extraction
  defines "syms \<equiv> map sd_span (ex_symbols ex)" and "toks \<equiv> map td_span (ex_tokens ex)"
  defines "ms \<equiv> merge_spans (sort_symbols syms) (sort_tokens toks)"
  shows "well_nested ex \<longleftrightarrow> (\<forall>p \<in> set ms. sp_start (snd p) \<le> sp_end (snd p)) \<and> sorted_wrt encloses ms"
proof -
  have set_ms: "set ms = Pair True ` set syms \<union> Pair False ` set toks"
    by (simp add: ms_def set_merge_spans sort_symbols_def sort_tokens_def)
  have order: "sorted_wrt before ms"
    unfolding ms_def by (intro merge_before sort_symbols_before sort_tokens_before)
  have "sorted_wrt encloses ms"
    if "\<forall>s \<in> set syms. \<forall>t \<in> set toks. sp_start s \<le> sp_start t \<and> sp_start t < sp_end s \<longrightarrow> sp_end t \<le> sp_end s"
      "\<forall>s \<in> set syms. \<forall>x \<in> set syms. sp_start s < sp_start x \<and> sp_start x < sp_end s \<longrightarrow> sp_end x \<le> sp_end s"
  proof (rule sorted_wrt_mono_rel [OF _ order])
    fix p q assume "p \<in> set ms" "q \<in> set ms" and b: "before p q"
    then consider s t where "p = (True, s)" "q = (False, t)" "s \<in> set syms" "t \<in> set toks"
      | s x where "p = (True, s)" "q = (True, x)" "s \<in> set syms" "x \<in> set syms" | "\<not> fst p"
      unfolding set_ms by auto
    then show "encloses p q"
      by cases (use that b in \<open>auto simp: before_def encloses_def dest: le_neq_trans\<close>)
  qed
  moreover have "sp_end t \<le> sp_end s"
    if "sorted_wrt encloses ms" "s \<in> set syms" "t \<in> set toks" "sp_start s \<le> sp_start t" "sp_start t < sp_end s" for s t
    using sorted_wrt_pick [OF order that(1), of "(True, s)" "(False, t)"] that(2-)
    by (auto simp: set_ms before_def encloses_def)
  moreover have "sp_end x \<le> sp_end s"
    if "sorted_wrt encloses ms" "s \<in> set syms" "x \<in> set syms" "sp_start s < sp_start x" "sp_start x < sp_end s" for s x
    using sorted_wrt_pick [OF order that(1), of "(True, s)" "(True, x)"] that(2-)
    by (cases "s = x"; auto simp: set_ms before_def encloses_def not_le)
  ultimately have enc: "sorted_wrt encloses ms \<longleftrightarrow>
      (\<forall>s \<in> set syms. \<forall>t \<in> set toks. sp_start s \<le> sp_start t \<and> sp_start t < sp_end s \<longrightarrow> sp_end t \<le> sp_end s) \<and>
      (\<forall>s \<in> set syms. \<forall>x \<in> set syms. sp_start s < sp_start x \<and> sp_start x < sp_end s \<longrightarrow> sp_end x \<le> sp_end s)"
    by blast
  have "(\<forall>p \<in> set ms. sp_start (snd p) \<le> sp_end (snd p)) \<longleftrightarrow> (\<forall>x \<in> set syms \<union> set toks. sp_start x \<le> sp_end x)"
    by (simp add: set_ms ball_Un)
  then show ?thesis
    unfolding well_nested_def Let_def syms_def [symmetric] toks_def [symmetric] enc by simp
qed

lemma validate_spans_sweep:
  "validate_spans ex = Inr () \<longleftrightarrow> well_nested ex"
  unfolding validate_spans_def validate_loop_sweep well_nested_sweep
proof (subst sweep_ok)
  show "sorted_wrt (\<lambda>p q. sp_start (snd p) \<le> sp_start (snd q))
      (merge_spans (sort_symbols (map sd_span (ex_symbols ex))) (sort_tokens (map td_span (ex_tokens ex))))"
    by (rule sorted_wrt_mono_rel [OF _ merge_before [OF sort_symbols_before sort_tokens_before]])
      (auto simp: before_def)
qed auto

text \<open>
  C17: span validation decides nesting. For every extraction, in whatever order it lists its symbols and
  tokens, \<open>validate_spans\<close> accepts exactly when no span starts after its end, every token that starts inside a
  symbol ends inside it and every symbol that starts strictly inside another ends inside it; any other
  extraction is refused with an \<open>InvalidSpan\<close> error. So the single sweep with its stack of open ends agrees
  with the comparison of all pairs.
\<close>

theorem validate_spans_decides:
  "if well_nested ex then validate_spans ex = Inr () else \<exists>m. validate_spans ex = Inl (InvalidSpan m)"
  using validate_spans_sweep [of ex] sweep_error unfolding validate_spans_def validate_loop_sweep by auto

end
