(* ===== verification/Tables.thy ===== *)
theory Tables
  imports Schema "HOL-Library.Sublist"
begin

text \<open>
  The entity tables of a store, crates/graph-store/src/common.rs: the keys of the name table, the lookup of
  a repository and of a file, and the readers of stored fingerprints. A table is a map; a read transaction
  may find a table missing. The JSON form of a node is the serde_json package's: a parameter.
\<close>

subsection \<open>Keys and tables\<close>

fun node_kind_debug :: "node_kind \<Rightarrow> string" where
  "node_kind_debug Org = ''Org''"
| "node_kind_debug Repo = ''Repo''"
| "node_kind_debug File = ''File''"
| "node_kind_debug Symbol = ''Symbol''"
| "node_kind_debug Token = ''Token''"

abbreviation NUL :: char where
  "NUL \<equiv> CHR 0x00"

definition name_key :: "node_id option \<Rightarrow> node_kind \<Rightarrow> string \<Rightarrow> string" where
  "name_key parent kind name =
     show_nat (unat (case parent of None \<Rightarrow> 0 | Some p \<Rightarrow> p)) @ [NUL] @ node_kind_debug kind @ [NUL] @ name"

record json =
  js_to_vec :: "node \<Rightarrow> u8 list"
  js_from_slice :: "u8 list \<Rightarrow> string + node"

definition enc :: "json \<Rightarrow> node \<Rightarrow> u8 list" where
  "enc js n = js_to_vec js n"

definition dec :: "json \<Rightarrow> u8 list \<Rightarrow> node result" where
  "dec js b = (case js_from_slice js b of Inl e \<Rightarrow> Inl (Corrupt e) | Inr n \<Rightarrow> Inr n)"

text \<open>\<open>None\<close> is a table that does not exist yet. The children of a node come in the order of their ids.\<close>

record db =
  db_names :: "(string \<rightharpoonup> node_id) option"
  db_nodes :: "(node_id \<rightharpoonup> u8 list) option"
  db_children :: "(node_id \<Rightarrow> node_id list) option"

text \<open>Opening a table in a write transaction creates it.\<close>

definition open_names :: "db \<Rightarrow> string \<rightharpoonup> node_id" where
  "open_names d = (case db_names d of None \<Rightarrow> Map.empty | Some t \<Rightarrow> t)"

definition open_nodes :: "db \<Rightarrow> node_id \<rightharpoonup> u8 list" where
  "open_nodes d = (case db_nodes d of None \<Rightarrow> Map.empty | Some t \<Rightarrow> t)"

subsection \<open>Reading\<close>

definition repo_id_in :: "(string \<rightharpoonup> node_id) \<Rightarrow> string \<Rightarrow> string \<Rightarrow> node_id option" where
  "repo_id_in names org repo =
     (case names (name_key None Org org) of
        None \<Rightarrow> None
      | Some org_id \<Rightarrow> names (name_key (Some org_id) Repo repo))"

definition stored_fingerprint_matches :: "json \<Rightarrow> db \<Rightarrow> string \<Rightarrow> string \<Rightarrow> string \<Rightarrow> string \<Rightarrow> bool result" where
  "stored_fingerprint_matches js rt org repo path fp =
     (case (db_names rt, db_nodes rt) of
        (Some names, Some nodes) \<Rightarrow>
          (case repo_id_in names org repo of
             None \<Rightarrow> Inr False
           | Some repo_id \<Rightarrow>
               (case names (name_key (Some repo_id) File path) of
                  None \<Rightarrow> Inr False
                | Some file_id \<Rightarrow>
                    (case nodes file_id of
                       None \<Rightarrow> Inr False
                     | Some raw \<Rightarrow> bindE (dec js raw) (\<lambda>f. Inr (n_fingerprint f = Some fp)))))
      | _ \<Rightarrow> Inr False)"

fun fingerprints_loop :: "json \<Rightarrow> (node_id \<rightharpoonup> u8 list) \<Rightarrow> node_id list \<Rightarrow> (string \<rightharpoonup> string) \<Rightarrow> (string \<rightharpoonup> string) result" where
  "fingerprints_loop js nodes [] out = Inr out"
| "fingerprints_loop js nodes (fid # fids) out =
     (case nodes fid of
        None \<Rightarrow> fingerprints_loop js nodes fids out
      | Some raw \<Rightarrow>
          bindE (dec js raw) (\<lambda>f.
            fingerprints_loop js nodes fids
              (case n_fingerprint f of Some fp \<Rightarrow> out(n_name f \<mapsto> fp) | None \<Rightarrow> out)))"

definition stored_fingerprints :: "json \<Rightarrow> db \<Rightarrow> string \<Rightarrow> string \<Rightarrow> (string \<rightharpoonup> string) result" where
  "stored_fingerprints js rt org repo =
     (case (db_names rt, db_nodes rt, db_children rt) of
        (Some names, Some nodes, Some children) \<Rightarrow>
          (case repo_id_in names org repo of
             None \<Rightarrow> Inr Map.empty
           | Some repo_id \<Rightarrow> fingerprints_loop js nodes (children repo_id) Map.empty)
      | _ \<Rightarrow> Inr Map.empty)"

subsection \<open>Name keys\<close>

definition read_nat :: "string \<Rightarrow> nat" where
  "read_nat s = foldl (\<lambda>a c. 10 * a + (of_char c - 48)) 0 s"

lemma digit_char: "n < 10 \<Longrightarrow> (of_char (char_of (48 + n) :: char) :: nat) = 48 + n"
  by (simp add: take_bit_eq_mod)

lemma read_show_nat: "read_nat (show_nat n) = n"
proof (induction n rule: show_nat.induct)
  case (1 n)
  show ?case
  proof (cases "n < 10")
    case True
    then show ?thesis by (subst show_nat.simps) (simp add: read_nat_def digit_char)
  next
    case False
    have "read_nat (show_nat n) = 10 * read_nat (show_nat (n div 10)) + n mod 10"
      using False by (subst show_nat.simps) (simp add: read_nat_def digit_char)
    then show ?thesis using 1 [OF False] by simp
  qed
qed

lemma show_nat_inject [simp]: "show_nat m = show_nat n \<longleftrightarrow> m = n"
  by (metis read_show_nat)

lemma show_nat_no_NUL: "NUL \<notin> set (show_nat n)"
proof (induction n rule: show_nat.induct)
  case (1 n)
  have "char_of (48 + k) \<noteq> NUL" if "k < 10" for k :: nat
    using that by (auto simp: char_of_eq_iff take_bit_eq_mod)
  then show ?case using 1 by (subst show_nat.simps) (simp add: eq_commute [of NUL])
qed

lemma node_kind_no_NUL: "NUL \<notin> set (node_kind_debug k)"
  by (cases k) auto

lemma node_kind_debug_inject: "node_kind_debug k = node_kind_debug k' \<longleftrightarrow> k = k'"
  by (cases k; cases k') auto

lemma append_until: "\<lbrakk>x \<notin> set a; x \<notin> set b\<rbrakk> \<Longrightarrow> a @ x # c = b @ x # d \<longleftrightarrow> a = b \<and> c = d"
proof (induction a arbitrary: b)
  case Nil
  then show ?case by (cases b) auto
next
  case (Cons y a)
  then show ?case by (cases b) auto
qed

lemma name_key_eq_iff:
  "name_key p k n = name_key p' k' n' \<longleftrightarrow> (case p of None \<Rightarrow> 0 | Some i \<Rightarrow> i) = (case p' of None \<Rightarrow> 0 | Some i \<Rightarrow> i) \<and> k = k' \<and> n = n'"
  unfolding name_key_def
  using append_until [OF show_nat_no_NUL show_nat_no_NUL] append_until [OF node_kind_no_NUL node_kind_no_NUL]
  by (simp add: node_kind_debug_inject word_unat_eq_iff)

end
