(* ===== verification/Prepare.thy ===== *)
theory Prepare
  imports Fingerprint Spans Tables
begin

text \<open>
  Indexing one file, crates/graph-store/src/common.rs with the types of lib.rs and api.rs: the pure half
  \<open>prepare_file\<close> (size, binary test, decoding, language, fingerprint, extraction, span validation) and the
  committing half \<open>commit_prepared\<close>, which asks the stored copy again and hands the extraction to the backend.
\<close>

subsection \<open>Options, files, results\<close>

record index_options =
  io_reindex :: bool
  io_encoding :: "encoding option"
  io_strict_encoding :: bool

record batch_file =
  bf_path :: string
  bf_bytes :: "u8 list"
  bf_language :: "string option"
  bf_origin :: "string option"
  bf_encoding :: "encoding option"
  bf_strict_encoding :: bool

record ingest_stats =
  is_file_id :: node_id
  is_symbols :: nat
  is_tokens :: nat
  is_replaced :: bool
  is_unchanged :: bool
  is_has_errors :: bool
  is_path :: string
  is_language :: string
  is_encoding :: "string option"
  is_lossy :: bool
  is_span_warning :: "string option"

definition ingest_stats_default :: ingest_stats where
  "ingest_stats_default =
     \<lparr>is_file_id = 0, is_symbols = 0, is_tokens = 0, is_replaced = False, is_unchanged = False,
      is_has_errors = False, is_path = [], is_language = [], is_encoding = None, is_lossy = False,
      is_span_warning = None\<rparr>"

datatype prepared =
    Unchanged "uchar list"
  | Extracted extraction
  | RejectedWork store_error
  | Remote "u8 list"

text \<open>The backend's own share of the work, \<open>v2\<close>, is a type parameter.\<close>

record 'v prepared_file =
  pf_org :: string
  pf_repo :: string
  pf_path :: string
  pf_language :: string
  pf_fingerprint :: string
  pf_bytes_len :: nat
  pf_origin :: "string option"
  pf_work :: prepared
  pf_v2 :: "'v option"
  pf_encoding :: "encoding option"
  pf_lossy :: bool
  pf_hint :: "encoding option"
  pf_strict_encoding :: bool
  pf_span_warning :: "string option"

definition MAX_SOURCE_BYTES :: nat where
  "MAX_SOURCE_BYTES = 2 ^ 32 - 1"

definition REMOTE_PREPARED_REJECTION :: string where
  "REMOTE_PREPARED_REJECTION = ''remote-prepared file cannot be committed to an embedded store''"

definition quoted :: "string \<Rightarrow> string" where
  "quoted s = ''`'' @ s @ ''`''"

subsection \<open>Preparing\<close>

definition strict_refusal :: "codecs \<Rightarrow> string \<Rightarrow> encoding \<Rightarrow> store_error" where
  "strict_refusal cd path e =
     (if e = UTF_8 then NotUtf8 (quoted path) else StrictEncoding path (cd_name cd e))"

definition extract_checked ::
  "unicode \<Rightarrow> registry \<Rightarrow> string \<Rightarrow> string \<Rightarrow> uchar list \<Rightarrow> prepared \<times> string option" where
  "extract_checked ut rg path lang src =
     (let (ex, note) = registry_extract_noted ut rg lang src
      in (case validate_spans ex of
            Inl (InvalidSpan why) \<Rightarrow>
              let tokens_only = ex\<lparr>ex_symbols := []\<rparr>
              in (case validate_spans tokens_only of
                    Inl (InvalidSpan token_why) \<Rightarrow>
                      (RejectedWork (InvalidSpan (quoted path @ '': '' @ token_why)), None)
                  | _ \<Rightarrow>
                      let note = (case note of None \<Rightarrow> [] | Some n \<Rightarrow> ''; it also noted: '' @ n);
                          warning = ''extractor '' @ quoted (registry_version rg lang) @
                            '' produced an invalid span ('' @ why @ '')'' @ note @
                            ''; stored tokens only, no symbols''
                      in (Extracted tokens_only, Some warning))
          | _ \<Rightarrow>
              (Extracted ex,
               map_option (\<lambda>n. ''extractor '' @ quoted (registry_version rg lang) @ '' '' @ n @
                 ''; stored tokens only, no symbols'') note)))"

definition prepared_new :: "string \<Rightarrow> string \<Rightarrow> batch_file \<Rightarrow> 'v prepared_file" where
  "prepared_new org repo f =
     \<lparr>pf_org = org, pf_repo = repo, pf_path = normalize_path (bf_path f), pf_language = [], pf_fingerprint = [],
      pf_bytes_len = length (bf_bytes f), pf_origin = bf_origin f, pf_work = RejectedWork (Rejected []),
      pf_v2 = None, pf_encoding = None, pf_lossy = False, pf_hint = None, pf_strict_encoding = False,
      pf_span_warning = None\<rparr>"

definition prepare_file ::
  "(u8 list \<Rightarrow> u8 list) \<Rightarrow> codecs \<Rightarrow> unicode \<Rightarrow> registry \<Rightarrow> string \<Rightarrow> string \<Rightarrow> batch_file \<Rightarrow> index_options \<Rightarrow>
     (string \<Rightarrow> string \<Rightarrow> string \<Rightarrow> bool result) \<Rightarrow> 'v prepared_file result" where
  "prepare_file sha256 cd ut rg org repo f opts unchanged =
     (let p = prepared_new org repo f
      in if length (bf_bytes f) > MAX_SOURCE_BYTES then
           Inr (p\<lparr>pf_work := RejectedWork (TooLarge (quoted (bf_path f)))\<rparr>)
         else
           let hint = (case bf_encoding f of Some e \<Rightarrow> Some e | None \<Rightarrow> io_encoding opts);
               strict = (bf_strict_encoding f \<or> io_strict_encoding opts)
           in if is_binary_with_hint cd (bf_bytes f) hint then
                Inr (p\<lparr>pf_work := RejectedWork (Binary (quoted (bf_path f)))\<rparr>)
              else
                let decoded = Encoding.decode cd (bf_bytes f) hint
                in if strict \<and> dc_lossy decoded then
                     Inr (p\<lparr>pf_work := RejectedWork (strict_refusal cd (bf_path f) (dc_encoding decoded))\<rparr>)
                   else
                     let src = dc_text decoded;
                         lang = (case bf_language f of
                                   None \<Rightarrow> registry_detect_language rg (pf_path p) src
                                 | Some l \<Rightarrow> to_ascii_lowercase l);
                         fp = fingerprint sha256 cd rg (bf_bytes f) lang (dc_encoding decoded) (dc_lossy decoded);
                         p = p\<lparr>pf_language := lang, pf_fingerprint := fp,
                               pf_encoding := (if dc_encoding decoded \<noteq> UTF_8 then Some (dc_encoding decoded) else None),
                               pf_lossy := dc_lossy decoded\<rparr>
                     in bindE (if io_reindex opts then Inr False else unchanged (pf_path p) lang fp) (\<lambda>same.
                          if same then Inr (p\<lparr>pf_work := Unchanged src\<rparr>)
                          else let (work, warning) = extract_checked ut rg (pf_path p) lang src
                               in Inr (p\<lparr>pf_span_warning := warning, pf_work := work\<rparr>)))"

subsection \<open>Committing\<close>

definition check_unchanged ::
  "json \<Rightarrow> db \<Rightarrow> string \<Rightarrow> string \<Rightarrow> string \<Rightarrow> string \<Rightarrow> string \<Rightarrow> string option \<Rightarrow>
     ((ingest_stats \<times> bool) option \<times> db) result" where
  "check_unchanged js wt org repo path lang fp origin =
     (let names = open_names wt;
          nodes = open_nodes wt;
          wt = wt\<lparr>db_names := Some names, db_nodes := Some nodes\<rparr>
      in (case names (name_key None Org org) of
            None \<Rightarrow> Inr (None, wt)
          | Some org_id \<Rightarrow>
         (case names (name_key (Some org_id) Repo repo) of
            None \<Rightarrow> Inr (None, wt)
          | Some repo_id \<Rightarrow>
         (case names (name_key (Some repo_id) File path) of
            None \<Rightarrow> Inr (None, wt)
          | Some file_id \<Rightarrow>
         (case nodes file_id of
            None \<Rightarrow> Inr (None, wt)
          | Some raw \<Rightarrow>
              bindE (dec js raw) (\<lambda>f.
                if n_fingerprint f \<noteq> Some fp then Inr (None, wt)
                else
                  let dirty = (n_origin f \<noteq> origin);
                      stats = ingest_stats_default\<lparr>is_file_id := file_id, is_unchanged := True,
                        is_has_errors := n_has_errors f, is_path := path, is_language := lang,
                        is_encoding := n_encoding f, is_lossy := n_lossy f\<rparr>;
                      wt = (if dirty
                            then wt\<lparr>db_nodes := Some (nodes(file_id \<mapsto> enc js (f\<lparr>n_origin := origin\<rparr>)))\<rparr>
                            else wt)
                  in Inr (Some (stats, dirty), wt)))))))"

text \<open>
  The outer result is the transaction's, the inner one the file's. \<open>ingest\<close> is the backend's; it may change
  the prepared file (it takes its \<open>v2\<close> share out).
\<close>

definition commit_work ::
  "unicode \<Rightarrow> db \<Rightarrow> registry \<Rightarrow> prepared \<Rightarrow> 'v prepared_file \<Rightarrow>
     ('v prepared_file \<Rightarrow> extraction \<Rightarrow> db \<Rightarrow> (ingest_stats \<times> 'v prepared_file \<times> db) result) \<Rightarrow>
     (ingest_stats result \<times> db) result" where
  "commit_work ut wt rg work p ingest =
     (let (work, p) =
        (case work of
           Unchanged src \<Rightarrow>
             let (work, warning) = extract_checked ut rg (pf_path p) (pf_language p) src
             in (work, p\<lparr>pf_span_warning := warning\<rparr>)
         | w \<Rightarrow> (w, p))
      in (case work of
            Extracted ex \<Rightarrow>
              bindE (ingest p ex wt) (\<lambda>(stats, p, wt).
                Inr (Inr (stats\<lparr>is_span_warning := pf_span_warning p\<rparr>), wt))
          | RejectedWork e \<Rightarrow> Inr (Inl e, wt)
          | _ \<Rightarrow> Inl (Corrupt ''unreachable'')))"

definition commit_prepared ::
  "json \<Rightarrow> unicode \<Rightarrow> db \<Rightarrow> registry \<Rightarrow> string \<Rightarrow> string \<Rightarrow> 'v prepared_file \<Rightarrow> index_options \<Rightarrow>
     ('v prepared_file \<Rightarrow> extraction \<Rightarrow> db \<Rightarrow> (ingest_stats \<times> 'v prepared_file \<times> db) result) \<Rightarrow>
     (ingest_stats result \<times> db) result" where
  "commit_prepared js ut wt rg org repo p opts ingest =
     (if pf_org p \<noteq> org \<or> pf_repo p \<noteq> repo then
        Inl (Rejected (quoted (pf_path p) @ '' was prepared for '' @ pf_org p @ ''/'' @ pf_repo p @ '', not '' @
          org @ ''/'' @ repo))
      else
        let work = pf_work p;
            p = p\<lparr>pf_work := RejectedWork (Rejected [])\<rparr>
        in (case work of
              RejectedWork e \<Rightarrow> Inr (Inl e, wt)
            | Remote _ \<Rightarrow> Inr (Inl (Rejected REMOTE_PREPARED_REJECTION), wt)
            | _ \<Rightarrow>
                bindE (if io_reindex opts then Inr (None, wt)
                       else check_unchanged js wt org repo (pf_path p) (pf_language p) (pf_fingerprint p) (pf_origin p))
                  (\<lambda>(found, wt).
                    case found of
                      Some (stats, _) \<Rightarrow> Inr (Inr stats, wt)
                    | None \<Rightarrow> commit_work ut wt rg work p ingest)))"

subsection \<open>Extraction with checked spans\<close>

lemma validate_spans_cases:
  "validate_spans ex = Inr () \<and> well_nested ex \<or> (\<exists>m. validate_spans ex = Inl (InvalidSpan m)) \<and> \<not> well_nested ex"
  using validate_spans_sweep [of ex] sweep_error
  unfolding validate_spans_def validate_loop_sweep by auto

lemma extract_checked_cases:
  assumes "registry_extract_noted ut rg lang src = (full, note)"
  obtains (whole) warning where "well_nested full" "extract_checked ut rg path lang src = (Extracted full, warning)"
  | (tokens) warning where "\<not> well_nested full" "well_nested (full\<lparr>ex_symbols := []\<rparr>)"
      "extract_checked ut rg path lang src = (Extracted (full\<lparr>ex_symbols := []\<rparr>), Some warning)"
  | (refused) m where "\<not> well_nested (full\<lparr>ex_symbols := []\<rparr>)"
      "extract_checked ut rg path lang src = (RejectedWork (InvalidSpan m), None)"
proof (cases "well_nested full")
  case True
  then show ?thesis using validate_spans_cases [of full] whole assms by (auto simp: extract_checked_def)
next
  case False
  then obtain why where why: "validate_spans full = Inl (InvalidSpan why)" using validate_spans_cases by blast
  show ?thesis
  proof (cases "well_nested (full\<lparr>ex_symbols := []\<rparr>)")
    case True
    then show ?thesis using validate_spans_cases [of "full\<lparr>ex_symbols := []\<rparr>"] tokens False why assms
      by (auto simp: extract_checked_def Let_def)
  next
    case bad: False
    then show ?thesis using validate_spans_cases [of "full\<lparr>ex_symbols := []\<rparr>"] refused why assms
      by (auto simp: extract_checked_def Let_def)
  qed
qed

lemma extract_checked_kind:
  obtains ex w where "extract_checked ut rg path lang src = (Extracted ex, w)"
  | m w where "extract_checked ut rg path lang src = (RejectedWork (InvalidSpan m), w)"
  by (cases "registry_extract_noted ut rg lang src") (erule extract_checked_cases; blast)

lemma reads_back_spans: "reads_back bytes k ts \<Longrightarrow> t \<in> set ts \<Longrightarrow> sp_start (td_span t) \<le> sp_end (td_span t)"
  by (induction bytes k ts rule: reads_back.induct) (auto simp: word_le_nat_alt)

lemma extract_checked_fallback:
  assumes "\<not> registry_has rg lang" and "length (str_of src) \<le> MAX_SOURCE_BYTES"
  shows "extract_checked ut rg path lang src = (Extracted (fallback_extract ut src), None)"
proof -
  have ex: "registry_extract_noted ut rg lang src = (fallback_extract ut src, None)"
    using assms(1)
    by (auto simp: registry_has_def registry_extract_noted_def registry_extract_def fallback_extractor_def)
  have "reads_back (str_of src) 0 (ex_tokens (fallback_extract ut src))"
    using tokenize_with_reads_back [of src ut DEFAULT] assms(2) fallback_tokens [of ut src]
    by (auto simp: MAX_SOURCE_BYTES_def tokenize_def)
  then have "well_nested (fallback_extract ut src)"
    by (auto simp: well_nested_def Let_def dest: reads_back_spans) (simp_all add: fallback_extract_def)
  then show ?thesis using validate_spans_cases [of "fallback_extract ut src"]
    by (auto simp: extract_checked_def ex)
qed

subsection \<open>What preparing gives\<close>

text \<open>The language, hint and text a file is prepared with.\<close>

definition hint_of :: "batch_file \<Rightarrow> index_options \<Rightarrow> encoding option" where
  "hint_of f opts = (case bf_encoding f of Some e \<Rightarrow> Some e | None \<Rightarrow> io_encoding opts)"

definition text_of :: "codecs \<Rightarrow> batch_file \<Rightarrow> index_options \<Rightarrow> uchar list" where
  "text_of cd f opts = dc_text (Encoding.decode cd (bf_bytes f) (hint_of f opts))"

definition acceptable :: "codecs \<Rightarrow> batch_file \<Rightarrow> index_options \<Rightarrow> bool" where
  "acceptable cd f opts \<longleftrightarrow>
     length (bf_bytes f) \<le> MAX_SOURCE_BYTES \<and> \<not> is_binary_with_hint cd (bf_bytes f) (hint_of f opts) \<and>
     ((bf_strict_encoding f \<or> io_strict_encoding opts) \<longrightarrow> \<not> dc_lossy (Encoding.decode cd (bf_bytes f) (hint_of f opts)))"

definition prepared_base ::
  "(u8 list \<Rightarrow> u8 list) \<Rightarrow> codecs \<Rightarrow> registry \<Rightarrow> string \<Rightarrow> string \<Rightarrow> batch_file \<Rightarrow> index_options \<Rightarrow> 'v prepared_file" where
  "prepared_base sha256 cd rg org repo f opts =
     (let p = prepared_new org repo f;
          decoded = Encoding.decode cd (bf_bytes f) (hint_of f opts);
          lang = (case bf_language f of
                    None \<Rightarrow> registry_detect_language rg (pf_path p) (dc_text decoded)
                  | Some l \<Rightarrow> to_ascii_lowercase l)
      in p\<lparr>pf_language := lang,
           pf_fingerprint := fingerprint sha256 cd rg (bf_bytes f) lang (dc_encoding decoded) (dc_lossy decoded),
           pf_encoding := (if dc_encoding decoded \<noteq> UTF_8 then Some (dc_encoding decoded) else None),
           pf_lossy := dc_lossy decoded\<rparr>)"

lemma prepare_file_acceptable:
  assumes "acceptable cd f opts"
  shows "prepare_file sha256 cd ut rg org repo f opts unchanged =
    (let p = prepared_base sha256 cd rg org repo f opts
     in bindE (if io_reindex opts then Inr False else unchanged (pf_path p) (pf_language p) (pf_fingerprint p))
          (\<lambda>same. if same then Inr (p\<lparr>pf_work := Unchanged (text_of cd f opts)\<rparr>)
             else let (work, warning) = extract_checked ut rg (pf_path p) (pf_language p) (text_of cd f opts)
                  in Inr (p\<lparr>pf_span_warning := warning, pf_work := work\<rparr>)))"
proof -
  have a: "\<not> length (bf_bytes f) > MAX_SOURCE_BYTES" "\<not> is_binary_with_hint cd (bf_bytes f) (hint_of f opts)"
      "\<not> ((bf_strict_encoding f \<or> io_strict_encoding opts) \<and>
          dc_lossy (Encoding.decode cd (bf_bytes f) (hint_of f opts)))"
    using assms by (auto simp: acceptable_def)
  show ?thesis
    unfolding prepare_file_def Let_def hint_of_def [symmetric] if_not_P [OF a(1)] if_not_P [OF a(2)] if_not_P [OF a(3)]
    unfolding prepared_base_def text_of_def Let_def by (simp cong: if_cong)
qed

definition refusal :: "codecs \<Rightarrow> batch_file \<Rightarrow> index_options \<Rightarrow> store_error" where
  "refusal cd f opts =
     (if length (bf_bytes f) > MAX_SOURCE_BYTES then TooLarge (quoted (bf_path f))
      else if is_binary_with_hint cd (bf_bytes f) (hint_of f opts) then Binary (quoted (bf_path f))
      else strict_refusal cd (bf_path f) (dc_encoding (Encoding.decode cd (bf_bytes f) (hint_of f opts))))"

lemma prepare_file_refused:
  assumes "\<not> acceptable cd f opts"
  shows "prepare_file sha256 cd ut rg org repo f opts unchanged =
    Inr ((prepared_new org repo f)\<lparr>pf_work := RejectedWork (refusal cd f opts)\<rparr>)"
proof -
  consider "length (bf_bytes f) > MAX_SOURCE_BYTES"
    | "\<not> length (bf_bytes f) > MAX_SOURCE_BYTES" "is_binary_with_hint cd (bf_bytes f) (hint_of f opts)"
    | "\<not> length (bf_bytes f) > MAX_SOURCE_BYTES" "\<not> is_binary_with_hint cd (bf_bytes f) (hint_of f opts)"
      "(bf_strict_encoding f \<or> io_strict_encoding opts) \<and> dc_lossy (Encoding.decode cd (bf_bytes f) (hint_of f opts))"
    using assms unfolding acceptable_def by fastforce
  then show ?thesis
    unfolding prepare_file_def Let_def hint_of_def [symmetric] refusal_def by cases (simp_all only: if_True if_False simp_thms)
qed

lemma refusal_not_span: "refusal cd f opts \<noteq> InvalidSpan m"
  by (simp add: refusal_def strict_refusal_def)

lemma prepare_file_extracted:
  assumes "prepare_file sha256 cd ut rg org repo f opts unchanged = Inr p" and "pf_work p = Extracted ex"
  shows "acceptable cd f opts \<and>
    extract_checked ut rg (pf_path p) (pf_language p) (text_of cd f opts) = (Extracted ex, pf_span_warning p)"
proof (cases "acceptable cd f opts")
  case True
  then show ?thesis
    using assms by (auto simp: prepare_file_acceptable Let_def bindE_eq_Inr_iff split: if_splits prod.splits)
next
  case False
  then show ?thesis using assms by (auto simp: prepare_file_refused)
qed

subsection \<open>Properties\<close>

text \<open>
  C22: what is prepared for storing is well nested and loses no token. The extraction a prepared file carries
  has the tokens its extractor gave, and either the extractor's symbols or, when these were at fault, none
  and a warning.
\<close>

theorem prepared_extraction_valid:
  fixes p :: "'v prepared_file"
  assumes "prepare_file sha256 cd ut rg org repo f opts unchanged = Inr p" and "pf_work p = Extracted ex"
    and "registry_extract_noted ut rg (pf_language p) (text_of cd f opts) = (full, note)"
  shows "well_nested ex \<and> ex_tokens ex = ex_tokens full \<and>
    (if well_nested full then ex = full else ex_symbols ex = [] \<and> pf_span_warning p \<noteq> None)"
proof -
  note ex = conjunct2 [OF prepare_file_extracted [OF assms(1,2)]]
  show ?thesis
    by (rule extract_checked_cases [OF assms(3), of "pf_path p"]) (use ex in auto)
qed

definition sample_span :: "u32 \<Rightarrow> u32 \<Rightarrow> span" where
  "sample_span a b = \<lparr>sp_start = a, sp_end = b, start_line = 1, start_col = 1, end_line = 1, end_col = 1\<rparr>"

definition crossing :: extraction where
  "crossing =
     \<lparr>ex_symbols = [symbol_decl_new ''f'' Function None (sample_span 0 4), symbol_decl_new ''g'' Function None (sample_span 2 6)],
      ex_tokens = [\<lparr>td_text = ''x'', td_class = Identifier, td_span = sample_span 1 2\<rparr>], ex_has_errors = False\<rparr>"

definition crossing_registry :: registry where
  "crossing_registry =
     register \<lparr>xt_language = ''x'', xt_version = ''1'', xt_extensions = [], xt_extract = (\<lambda>_. crossing),
       xt_extract_noted = (\<lambda>_. (crossing, None))\<rparr> registry_default"

definition sample_file :: batch_file where
  "sample_file = \<lparr>bf_path = ''a'', bf_bytes = [65, 66], bf_language = Some ''x'', bf_origin = None, bf_encoding = None,
     bf_strict_encoding = False\<rparr>"

definition default_options :: index_options where
  "default_options = \<lparr>io_reindex = False, io_encoding = None, io_strict_encoding = False\<rparr>"

lemma not_reindex_default [simp]: "\<not> io_reindex default_options"
  by (simp add: default_options_def)

lemma sample_text: "text_of ascii_codecs sample_file default_options = [65, 66]"
  by code_simp

lemma sample_acceptable: "acceptable ascii_codecs sample_file default_options"
  by (simp add: acceptable_def sample_file_def default_options_def MAX_SOURCE_BYTES_def is_binary_with_hint_def
      hint_of_def Encoding.decode_def decode_with_def)

lemma crossing_extract:
  "registry_extract_noted ut crossing_registry ''x'' src = (crossing, None)"
  by (simp add: registry_extract_noted_def crossing_registry_def register_def registry_get_def registry_default_def
      to_ascii_lowercase_def ascii_lower_def Let_def)

lemma crossing_nested: "\<not> well_nested crossing" "well_nested (crossing\<lparr>ex_symbols := []\<rparr>)"
  by (simp_all add: well_nested_def crossing_def symbol_decl_new_def sample_span_def)

lemma sample_prepared:
  assumes "\<And>path lang fp. unchanged path lang fp = Inr False"
  obtains p :: "'v prepared_file" and w where "prepare_file sha256 ascii_codecs ut crossing_registry org repo sample_file default_options unchanged = Inr p"
    "pf_org p = org" "pf_repo p = repo" "pf_language p = ''x''" "pf_span_warning p = Some w"
    "pf_work p = Extracted (crossing\<lparr>ex_symbols := []\<rparr>)"
proof -
  let ?b = "prepared_base sha256 ascii_codecs crossing_registry org repo sample_file default_options :: 'v prepared_file"
  have b: "pf_language ?b = ''x''" "pf_org ?b = org" "pf_repo ?b = repo"
    by (simp_all add: prepared_base_def prepared_new_def Let_def sample_file_def to_ascii_lowercase_def ascii_lower_def)
  obtain w where "extract_checked ut crossing_registry (pf_path ?b) ''x'' (text_of ascii_codecs sample_file default_options) =
      (Extracted (crossing\<lparr>ex_symbols := []\<rparr>), Some w)"
    by (rule extract_checked_cases [OF crossing_extract]) (use crossing_nested in auto)
  then have "prepare_file sha256 ascii_codecs ut crossing_registry org repo sample_file default_options unchanged =
      Inr (?b\<lparr>pf_span_warning := Some w, pf_work := Extracted (crossing\<lparr>ex_symbols := []\<rparr>)\<rparr>)"
    unfolding prepare_file_acceptable [OF sample_acceptable] Let_def
    by (simp add: b assms)
  then show ?thesis using that b by simp
qed

theorem prepared_extraction_valid_witness:
  "\<exists>p ex. prepare_file (\<lambda>bs. bs) ascii_codecs ascii_tables crossing_registry ''o'' ''r'' sample_file default_options
      (\<lambda>_ _ _. Inr False) = Inr (p :: unit prepared_file) \<and> pf_work p = Extracted ex \<and>
    well_nested ex \<and> ex_tokens ex = ex_tokens crossing \<and> ex_symbols ex = [] \<and> pf_span_warning p \<noteq> None"
proof -
  obtain p :: "unit prepared_file" where p: "prepare_file (\<lambda>bs. bs) ascii_codecs ascii_tables crossing_registry ''o'' ''r'' sample_file
      default_options (\<lambda>_ _ _. Inr False) = Inr p" "pf_language p = ''x''" "pf_work p = Extracted (crossing\<lparr>ex_symbols := []\<rparr>)"
    by (rule sample_prepared [where unchanged = "\<lambda>_ _ _. Inr False"]) auto
  from prepared_extraction_valid [OF p(1,3), of crossing None] p(2)
  have "well_nested (crossing\<lparr>ex_symbols := []\<rparr>) \<and> pf_span_warning p \<noteq> None"
    by (simp add: crossing_extract crossing_nested)
  then show ?thesis using p by auto
qed

text \<open>
  C23: every outcome of preparing a file. The call fails only with an error of the stored-fingerprint lookup.
  A file that is too large, binary, or decoded with replacements under the strict flag is refused with
  the error for the first of these that holds; any other file is refused only for invalid spans; a file
  that is not refused passed all three tests.
\<close>

theorem prepare_file_outcomes:
  "case (prepare_file sha256 cd ut rg org repo f opts unchanged :: 'v prepared_file result) of
     Inl e \<Rightarrow> \<not> io_reindex opts \<and> (\<exists>lang fp. unchanged (normalize_path (bf_path f)) lang fp = Inl e)
   | Inr p \<Rightarrow>
       (case pf_work p of
          RejectedWork e \<Rightarrow> if acceptable cd f opts then \<exists>m. e = InvalidSpan m else e = refusal cd f opts
        | Extracted ex \<Rightarrow> acceptable cd f opts
        | Unchanged src \<Rightarrow> acceptable cd f opts \<and> \<not> io_reindex opts
        | Remote bytes \<Rightarrow> False)"
proof (cases "acceptable cd f opts")
  case True
  let ?b = "prepared_base sha256 cd rg org repo f opts :: 'v prepared_file"
  have path: "pf_path ?b = normalize_path (bf_path f)"
    by (simp add: prepared_base_def prepared_new_def Let_def)
  show ?thesis
  proof (rule extract_checked_kind [of ut rg "normalize_path (bf_path f)" "pf_language ?b" "text_of cd f opts"])
    fix ex w assume "extract_checked ut rg (normalize_path (bf_path f)) (pf_language ?b) (text_of cd f opts) = (Extracted ex, w)"
    then show ?thesis unfolding prepare_file_acceptable [OF True] Let_def path using True
      by (cases "unchanged (normalize_path (bf_path f)) (pf_language ?b) (pf_fingerprint ?b)") auto
  next
    fix m w assume "extract_checked ut rg (normalize_path (bf_path f)) (pf_language ?b) (text_of cd f opts) =
      (RejectedWork (InvalidSpan m), w)"
    then show ?thesis unfolding prepare_file_acceptable [OF True] Let_def path using True
      by (cases "unchanged (normalize_path (bf_path f)) (pf_language ?b) (pf_fingerprint ?b)") auto
  qed
next
  case False
  then show ?thesis by (simp add: prepare_file_refused)
qed

text \<open>
  A language without an extractor is never refused for its spans. Whatever the text, the fallback's
  tokens pass span validation, without warning, as long as the decoded text itself is below 4 GiB.
\<close>

theorem fallback_never_refused:
  fixes p :: "'v prepared_file"
  assumes "prepare_file sha256 cd ut rg org repo f opts unchanged = Inr p"
    and "\<not> registry_has rg (pf_language p)" and "length (str_of (text_of cd f opts)) \<le> MAX_SOURCE_BYTES"
  shows "pf_work p \<noteq> RejectedWork (InvalidSpan m) \<and> pf_span_warning p = None"
proof (cases "acceptable cd f opts")
  case True
  let ?b = "prepared_base sha256 cd rg org repo f opts :: 'v prepared_file"
  have b: "pf_language p = pf_language ?b" "pf_span_warning ?b = None"
    using assms(1) unfolding prepare_file_acceptable [OF True] Let_def bindE_eq_Inr_iff
    by (auto simp: prepared_base_def prepared_new_def Let_def split: if_splits prod.splits)
  have "extract_checked ut rg (pf_path ?b) (pf_language ?b) (text_of cd f opts) =
      (Extracted (fallback_extract ut (text_of cd f opts)), None)"
    using assms(2,3) by (intro extract_checked_fallback) (simp_all add: b)
  then show ?thesis
    using assms(1) b unfolding prepare_file_acceptable [OF True] Let_def bindE_eq_Inr_iff by (auto split: if_splits)
next
  case False
  then show ?thesis using assms(1) by (auto simp: prepare_file_refused refusal_not_span prepared_new_def)
qed

theorem fallback_never_refused_witness:
  "\<exists>p. prepare_file (\<lambda>bs. bs) ascii_codecs ascii_tables registry_default ''o'' ''r'' sample_file default_options
      (\<lambda>_ _ _. Inr False) = Inr (p :: unit prepared_file) \<and> pf_span_warning p = None"
proof -
  let ?r = "prepare_file (\<lambda>bs. bs) ascii_codecs ascii_tables registry_default ''o'' ''r'' sample_file default_options
      (\<lambda>_ _ _. Inr False) :: unit prepared_file result"
  have "\<exists>p. ?r = Inr p" by (simp add: prepare_file_acceptable [OF sample_acceptable] Let_def split: prod.split)
  then obtain p where p: "?r = Inr p" ..
  have "\<not> registry_has registry_default (pf_language p)"
    by (simp add: registry_has_def registry_get_def registry_default_def)
  moreover have "length (str_of (text_of ascii_codecs sample_file default_options)) \<le> MAX_SOURCE_BYTES"
    by (simp add: sample_text str_of_def encode_utf8_def MAX_SOURCE_BYTES_def)
  ultimately show ?thesis using fallback_never_refused [OF p] p by blast
qed

end
