(* ===== verification/Commit.thy ===== *)
theory Commit
  imports Prepare
begin

text \<open>
  What committing a prepared file guarantees: how far the fingerprint check made while preparing can change the
  outcome of the commit, and that a file whose stored copy carries its fingerprint is left alone but for its
  origin.
\<close>

subsection \<open>The check while preparing is an optimisation\<close>

lemma prepare_file_cases:
  fixes p :: "'v prepared_file"
  assumes "prepare_file sha256 cd ut rg org repo f opts unchanged = Inr p"
  defines "b \<equiv> prepared_base sha256 cd rg org repo f opts :: 'v prepared_file"
  obtains (refused) "\<not> acceptable cd f opts" "p = (prepared_new org repo f)\<lparr>pf_work := RejectedWork (refusal cd f opts)\<rparr>"
  | (same) "acceptable cd f opts" "p = b\<lparr>pf_work := Unchanged (text_of cd f opts)\<rparr>"
  | (worked) work w where "acceptable cd f opts"
      "extract_checked ut rg (pf_path b) (pf_language b) (text_of cd f opts) = (work, w)"
      "p = b\<lparr>pf_span_warning := w, pf_work := work\<rparr>"
proof (cases "acceptable cd f opts")
  case True
  obtain work w where h: "extract_checked ut rg (pf_path b) (pf_language b) (text_of cd f opts) = (work, w)"
    by (cases "extract_checked ut rg (pf_path b) (pf_language b) (text_of cd f opts)")
  have "p = b\<lparr>pf_work := Unchanged (text_of cd f opts)\<rparr> \<or> p = b\<lparr>pf_span_warning := w, pf_work := work\<rparr>"
    using assms(1) [unfolded prepare_file_acceptable [OF True] Let_def, folded b_def, unfolded h prod.case]
    by (auto simp: bindE_eq_Inr_iff split: if_splits)
  then show ?thesis using that(2,3) True h by blast
next
  case False
  then show ?thesis using assms(1) [unfolded prepare_file_refused [OF False]] refused by simp
qed

text \<open>The preparation that never asks whether the file is unchanged: it extracts every file it accepts.\<close>

definition prepare_eagerly ::
  "(u8 list \<Rightarrow> u8 list) \<Rightarrow> codecs \<Rightarrow> unicode \<Rightarrow> registry \<Rightarrow> string \<Rightarrow> string \<Rightarrow> batch_file \<Rightarrow> index_options \<Rightarrow>
     'v prepared_file result" where
  "prepare_eagerly sha256 cd ut rg org repo f opts = prepare_file sha256 cd ut rg org repo f opts (\<lambda>_ _ _. Inr False)"

lemma prepare_eagerly_acceptable:
  fixes b :: "'v prepared_file"
  assumes "acceptable cd f opts" "b = prepared_base sha256 cd rg org repo f opts"
    "extract_checked ut rg (pf_path b) (pf_language b) (text_of cd f opts) = (work, w)"
  shows "prepare_eagerly sha256 cd ut rg org repo f opts = Inr (b\<lparr>pf_span_warning := w, pf_work := work\<rparr>)"
  using assms(3) by (simp add: prepare_eagerly_def prepare_file_acceptable [OF assms(1)] Let_def assms(2))

lemma commit_late_extraction:
  assumes "extract_checked ut rg (pf_path b) (pf_language b) src = (Extracted ex, w)"
  shows "commit_prepared js ut wt rg org repo (b\<lparr>pf_work := Unchanged src\<rparr>) opts ingest =
    commit_prepared js ut wt rg org repo (b\<lparr>pf_span_warning := w, pf_work := Extracted ex\<rparr>) opts ingest"
proof -
  have swap: "b\<lparr>pf_work := x, pf_span_warning := w\<rparr> = b\<lparr>pf_span_warning := w, pf_work := x\<rparr>" for x by (cases b) simp
  have late: "commit_work ut wt rg (Unchanged src) (b\<lparr>pf_work := x\<rparr>) ingest =
      commit_work ut wt rg (Extracted ex) (b\<lparr>pf_span_warning := w, pf_work := x\<rparr>) ingest" for x wt
    by (simp add: commit_work_def assms swap)
  show ?thesis by (simp add: commit_prepared_def Let_def late cong: option.case_cong)
qed

lemma commit_late_refusal:
  assumes "extract_checked ut rg (pf_path b) (pf_language b) src = (RejectedWork e, w)"
  shows "commit_prepared js ut wt rg org repo (b\<lparr>pf_work := Unchanged src\<rparr>) opts ingest =
    (if pf_org b = org \<and> pf_repo b = repo \<and> \<not> io_reindex opts then
       bindE (check_unchanged js wt org repo (pf_path b) (pf_language b) (pf_fingerprint b) (pf_origin b))
         (\<lambda>(found, wt). case found of Some (stats, _) \<Rightarrow> Inr (Inr stats, wt) | None \<Rightarrow> Inr (Inl e, wt))
     else commit_prepared js ut wt rg org repo (b\<lparr>pf_span_warning := w, pf_work := RejectedWork e\<rparr>) opts ingest)"
  by (simp add: commit_prepared_def Let_def commit_work_def assms cong: option.case_cong)

text \<open>What the check at commit time answers, told from what the stored copy says.\<close>

definition opened :: "db \<Rightarrow> db" where
  "opened wt = wt\<lparr>db_names := Some (open_names wt), db_nodes := Some (open_nodes wt)\<rparr>"

lemma check_unchanged_answers:
  "case stored_fingerprint_matches js wt org repo path fp of
     Inl e \<Rightarrow> check_unchanged js wt org repo path lang fp origin = Inl e
   | Inr same \<Rightarrow>
       (if same
        then \<exists>stats dirty wt'. check_unchanged js wt org repo path lang fp origin = Inr (Some (stats, dirty), wt') \<and>
               is_unchanged stats
        else check_unchanged js wt org repo path lang fp origin = Inr (None, opened wt))"
proof (cases "db_names wt = None \<or> db_nodes wt = None")
  case True
  then have "stored_fingerprint_matches js wt org repo path fp = Inr False"
    by (auto simp: stored_fingerprint_matches_def split: option.split)
  moreover have "check_unchanged js wt org repo path lang fp origin = Inr (None, opened wt)"
    using True by (auto simp: check_unchanged_def Let_def opened_def open_names_def open_nodes_def split: option.split)
  ultimately show ?thesis by simp
next
  case False
  then obtain names nodes where "db_names wt = Some names" "db_nodes wt = Some nodes" by auto
  then show ?thesis
    by (auto simp: stored_fingerprint_matches_def check_unchanged_def repo_id_in_def Let_def opened_def open_names_def
        open_nodes_def bindE_def split: option.split sum.split)
qed

subsection \<open>Unchanged files\<close>









subsection \<open>Properties\<close>

text \<open>
  C20: asking while preparing whether the stored copy is unchanged only saves extractions. Whatever the
  lookup answered, committing the prepared file gives the result and the store that committing the file
  extracted up front gives, a file prepared as unchanged being extracted at commit if its stored copy differs
  by then. There is one exception: a file whose extraction is refused for its token spans, that the lookup
  reported unchanged, committed without \<open>reindex\<close>. Extracted up front it is always refused; prepared as
  unchanged it is reported unchanged when the stored copy carries its fingerprint, is refused with the same
  error when it does not, the tables being opened and nothing stored, and fails as reading the stored copy
  does.
\<close>

theorem commit_ignores_prepare_lookup:
  fixes p :: "'v prepared_file"
  assumes "prepare_file sha256 cd ut rg org repo f opts unchanged = Inr p"
  shows "\<exists>eager :: 'v prepared_file. prepare_eagerly sha256 cd ut rg org repo f opts = Inr eager \<and>
    (if (\<exists>m. pf_work eager = RejectedWork (InvalidSpan m)) \<and> (\<exists>src. pf_work p = Unchanged src) \<and>
        pf_org p = org' \<and> pf_repo p = repo' \<and> \<not> io_reindex opts'
     then \<exists>m. commit_prepared js ut wt rg org' repo' eager opts' ingest = Inr (Inl (InvalidSpan m), wt) \<and>
       (case stored_fingerprint_matches js wt org' repo' (pf_path p) (pf_fingerprint p) of
          Inl e \<Rightarrow> commit_prepared js ut wt rg org' repo' p opts' ingest = Inl e
        | Inr True \<Rightarrow> \<exists>stats wt'. commit_prepared js ut wt rg org' repo' p opts' ingest = Inr (Inr stats, wt') \<and> is_unchanged stats
        | Inr False \<Rightarrow> commit_prepared js ut wt rg org' repo' p opts' ingest = Inr (Inl (InvalidSpan m), opened wt))
     else commit_prepared js ut wt rg org' repo' p opts' ingest = commit_prepared js ut wt rg org' repo' eager opts' ingest)"
proof -
  let ?b = "prepared_base sha256 cd rg org repo f opts :: 'v prepared_file"
  show ?thesis
  proof (rule prepare_file_cases [OF assms])
    assume "\<not> acceptable cd f opts" "p = (prepared_new org repo f)\<lparr>pf_work := RejectedWork (refusal cd f opts)\<rparr>"
    then show ?thesis by (auto simp: prepare_eagerly_def prepare_file_refused)
  next
    fix work w
    assume a: "acceptable cd f opts" "p = ?b\<lparr>pf_span_warning := w, pf_work := work\<rparr>"
      and h: "extract_checked ut rg (pf_path ?b) (pf_language ?b) (text_of cd f opts) = (work, w)"
    have "pf_work p \<noteq> Unchanged src" for src
      using h a(2) by (auto intro: extract_checked_kind [of ut rg "pf_path ?b" "pf_language ?b" "text_of cd f opts"])
    then show ?thesis using prepare_eagerly_acceptable [OF a(1) refl h] a(2) by simp
  next
    assume a: "acceptable cd f opts" "p = ?b\<lparr>pf_work := Unchanged (text_of cd f opts)\<rparr>"
    show ?thesis
    proof (rule extract_checked_kind [of ut rg "pf_path ?b" "pf_language ?b" "text_of cd f opts"])
      fix ex w assume h: "extract_checked ut rg (pf_path ?b) (pf_language ?b) (text_of cd f opts) = (Extracted ex, w)"
      show ?thesis using prepare_eagerly_acceptable [OF a(1) refl h] commit_late_extraction [OF h] a(2) by simp
    next
      fix m w assume h: "extract_checked ut rg (pf_path ?b) (pf_language ?b) (text_of cd f opts) = (RejectedWork (InvalidSpan m), w)"
      let ?e = "?b\<lparr>pf_span_warning := w, pf_work := RejectedWork (InvalidSpan m)\<rparr>"
      have e: "prepare_eagerly sha256 cd ut rg org repo f opts = Inr ?e" by (rule prepare_eagerly_acceptable [OF a(1) refl h])
      have "commit_prepared js ut wt rg (pf_org ?b) (pf_repo ?b) ?e opts' ingest = Inr (Inl (InvalidSpan m), wt)"
        by (simp add: commit_prepared_def)
      then show ?thesis
        using e commit_late_refusal [OF h, of js wt org' repo' opts' ingest]
          check_unchanged_answers [where js = js and wt = wt and org = org' and repo = repo' and path = "pf_path ?b"
            and fp = "pf_fingerprint ?b" and lang = "pf_language ?b" and origin = "pf_origin ?b"] a(2)
        by (auto split: sum.splits bool.splits if_splits)
    qed
  qed
qed

definition null_json :: json where
  "null_json = \<lparr>js_to_vec = (\<lambda>_. []), js_from_slice = (\<lambda>_. Inl [])\<rparr>"

definition empty_db :: db where
  "empty_db = \<lparr>db_names = None, db_nodes = None, db_children = None\<rparr>"

theorem commit_ignores_prepare_lookup_witness:
  "\<exists>p eager. prepare_file (\<lambda>bs. bs) ascii_codecs ascii_tables crossing_registry ''o'' ''r'' sample_file default_options
      (\<lambda>_ _ _. Inr True) = Inr (p :: unit prepared_file) \<and>
    prepare_eagerly (\<lambda>bs. bs) ascii_codecs ascii_tables crossing_registry ''o'' ''r'' sample_file default_options = Inr (eager :: unit prepared_file) \<and>
    pf_work p \<noteq> pf_work eager \<and>
    commit_prepared null_json ascii_tables empty_db crossing_registry ''o'' ''r'' p default_options (\<lambda>_ _ _. Inl (Corrupt [])) =
    commit_prepared null_json ascii_tables empty_db crossing_registry ''o'' ''r'' eager default_options (\<lambda>_ _ _. Inl (Corrupt []))"
proof -
  obtain eager :: "unit prepared_file" where e: "prepare_eagerly (\<lambda>bs. bs) ascii_codecs ascii_tables crossing_registry ''o'' ''r''
      sample_file default_options = Inr eager" "pf_work eager = Extracted (crossing\<lparr>ex_symbols := []\<rparr>)"
    unfolding prepare_eagerly_def by (rule sample_prepared [where unchanged = "\<lambda>_ _ _. Inr False"]) auto
  obtain p :: "unit prepared_file" where p: "prepare_file (\<lambda>bs. bs) ascii_codecs ascii_tables crossing_registry ''o'' ''r'' sample_file
      default_options (\<lambda>_ _ _. Inr True) = Inr p" "pf_work p = Unchanged [65, 66]"
    by (simp add: prepare_file_acceptable [OF sample_acceptable] Let_def sample_text)
  have "commit_prepared null_json ascii_tables empty_db crossing_registry ''o'' ''r'' p default_options (\<lambda>_ _ _. Inl (Corrupt [])) =
      commit_prepared null_json ascii_tables empty_db crossing_registry ''o'' ''r'' eager default_options (\<lambda>_ _ _. Inl (Corrupt []))"
    using commit_ignores_prepare_lookup [OF p(1), where js = null_json and wt = empty_db and org' = "''o''" and repo' = "''r''"
        and opts' = default_options and ingest = "\<lambda>_ _ _. Inl (Corrupt [])"] e by auto
  moreover have "pf_work p \<noteq> pf_work eager" by (simp add: p(2) e(2))
  ultimately show ?thesis using p(1) e(1) by blast
qed







end
