(* ===== verification/Ordered_Table.thy ===== *)
theory Ordered_Table
  imports Main
begin

text \<open>
  Ordered tables, the standard library's \<open>BTreeMap\<close> and the rows of a redb table: an association list in
  strictly ascending key order. The interface a client of a keyed table relies on is the locale
  \<open>keyed_table\<close>; ordered tables implement it.
\<close>

subsection \<open>The table\<close>

fun bt_put :: "'k :: linorder \<Rightarrow> 'v \<Rightarrow> ('k \<times> 'v) list \<Rightarrow> ('k \<times> 'v) list" where
  "bt_put k v [] = [(k, v)]"
| "bt_put k v ((k', v') # t) =
     (if k < k' then (k, v) # (k', v') # t
      else if k = k' then (k, v) # t
      else (k', v') # bt_put k v t)"

definition bt_del :: "'k \<Rightarrow> ('k \<times> 'v) list \<Rightarrow> ('k \<times> 'v) list" where
  "bt_del k t = filter (\<lambda>r. fst r \<noteq> k) t"

definition bt_ok :: "('k :: linorder \<times> 'v) list \<Rightarrow> bool" where
  "bt_ok t \<longleftrightarrow> sorted_wrt (<) (map fst t)"

subsection \<open>Laws\<close>

lemma bt_ok_Nil [simp]: "bt_ok []"
  by (simp add: bt_ok_def)

lemma bt_ok_Cons: "bt_ok ((k, v) # t) \<longleftrightarrow> (\<forall>r \<in> set t. k < fst r) \<and> bt_ok t"
  by (auto simp: bt_ok_def)

lemma set_bt_put: "set (bt_put k v t) \<subseteq> insert (k, v) (set t)"
  by (induction k v t rule: bt_put.induct) auto

lemma bt_ok_put: "bt_ok t \<Longrightarrow> bt_ok (bt_put k v t)"
proof (induction k v t rule: bt_put.induct)
  case (2 k v k' v' t)
  then show ?case using set_bt_put [of k v t] by (fastforce simp: bt_ok_Cons)
qed (simp add: bt_ok_Cons)

lemma bt_ok_del: "bt_ok t \<Longrightarrow> bt_ok (bt_del k t)"
  by (auto simp: bt_ok_def bt_del_def sorted_wrt_map intro: sorted_wrt_filter)

lemma map_of_bt_put: "map_of (bt_put k v t) k' = (if k' = k then Some v else map_of t k')"
  by (induction k v t rule: bt_put.induct) auto

lemma map_of_bt_del: "map_of (bt_del k t) k' = (if k' = k then None else map_of t k')"
  by (induction t) (auto simp: bt_del_def)

lemma bt_ok_distinct: "bt_ok t \<Longrightarrow> distinct (map fst t)"
  by (simp add: bt_ok_def strict_sorted_iff)

text \<open>An ordered table is determined by its lookups.\<close>

lemma rows_of_lookups:
  assumes "distinct (map fst t)"
  shows "map (\<lambda>k. (k, the (map_of t k))) (map fst t) = t"
  unfolding map_map
proof (rule map_idI)
  fix r assume "r \<in> set t"
  then have "map_of t (fst r) = Some (snd r)" using assms by (intro map_of_is_SomeI) simp_all
  then show "((\<lambda>k. (k, the (map_of t k))) \<circ> fst) r = r" by simp
qed

lemma bt_ok_eqI:
  assumes "bt_ok s" and "bt_ok t" and "map_of s = map_of t"
  shows "s = t"
proof -
  have "set (map fst s) = set (map fst t)"
    using assms(3) by (metis dom_map_of_conv_image_fst list.set_map)
  then have "map fst s = map fst t"
    using assms(1,2) by (intro sorted_distinct_set_unique) (simp_all add: bt_ok_def strict_sorted_iff)
  then show ?thesis
    using rows_of_lookups [OF bt_ok_distinct [OF assms(1)]] rows_of_lookups [OF bt_ok_distinct [OF assms(2)]] assms(3)
    by simp
qed

subsection \<open>Keyed tables\<close>

locale keyed_table =
  fixes get :: "'t \<Rightarrow> 'k \<Rightarrow> 'v option"
    and put :: "'k \<Rightarrow> 'v \<Rightarrow> 't \<Rightarrow> 't"
    and del :: "'k \<Rightarrow> 't \<Rightarrow> 't"
    and ok :: "'t \<Rightarrow> bool"
  assumes get_put: "get (put k v t) k' = (if k' = k then Some v else get t k')"
    and get_del: "get (del k t) k' = (if k' = k then None else get t k')"
    and ok_put: "ok t \<Longrightarrow> ok (put k v t)"
    and ok_del: "ok t \<Longrightarrow> ok (del k t)"
begin

text \<open>Writing an optional value: \<open>None\<close> removes the row.\<close>

definition upd :: "'k \<Rightarrow> 'v option \<Rightarrow> 't \<Rightarrow> 't" where
  "upd k v t = (case v of Some v \<Rightarrow> put k v t | None \<Rightarrow> del k t)"

lemma get_upd: "get (upd k v t) k' = (if k' = k then v else get t k')"
  by (simp add: upd_def get_put get_del split: option.split)

text \<open>Replacing the rows of distinct keys one after the other by a function of what each held.\<close>

lemma get_fold_upd:
  "distinct (map fst ds) \<Longrightarrow>
     get (fold (\<lambda>(k, d) t. upd k (f d (get t k)) t) ds t) k =
       (case map_of ds k of Some d \<Rightarrow> f d (get t k) | None \<Rightarrow> get t k)"
proof (induction ds arbitrary: t)
  case (Cons r ds)
  obtain k' d where r: "r = (k', d)" by (cases r)
  have "map_of ds k' = None" using Cons.prems r by (simp add: map_of_eq_None_iff)
  then show ?case using Cons r by (auto simp: get_upd split: option.split)
qed simp

lemma ok_fold_upd: "ok t \<Longrightarrow> ok (fold (\<lambda>(k, d) t. upd k (f d (get t k)) t) ds t)"
  by (induction ds arbitrary: t) (auto simp: upd_def ok_put ok_del split: option.split)

end

interpretation ordered: keyed_table map_of bt_put bt_del "bt_ok :: ('k :: linorder \<times> 'v) list \<Rightarrow> bool"
  by unfold_locales (simp_all add: map_of_bt_put map_of_bt_del bt_ok_put bt_ok_del)

end
