(* ===== verification/Catalog.thy ===== *)
theory Catalog
  imports Ordered_Table Fingerprint Tables
    "HOL-Library.List_Lexorder" "HOL-Library.Char_ord" "HOL-Library.Product_Lexorder"
begin

text \<open>
  The catalog behind \<open>describe\<close>, crates/graph-store/src/common.rs: the counters of one write transaction
  (\<open>Tally\<close>), how they are added to the table, how \<open>describe_in\<close> reads the table back, and the report of
  languages whose extractor is missing.
\<close>

subsection \<open>Kinds and grains\<close>

datatype grain = TokenGrain | SymbolGrain | MethodGrain | ClassGrain | FileGrain | RepoGrain | OrgGrain

definition grain_from_str :: "string \<Rightarrow> string + grain" where
  "grain_from_str s =
     (if s = ''token'' then Inr TokenGrain
      else if s = ''symbol'' then Inr SymbolGrain
      else if s = ''method'' then Inr MethodGrain
      else if s = ''class'' then Inr ClassGrain
      else if s = ''file'' then Inr FileGrain
      else if s = ''repo'' then Inr RepoGrain
      else if s = ''org'' then Inr OrgGrain
      else Inl (''unknown grain `'' @ s @ ''` (token|symbol|method|class|file|repo|org)''))"

definition is_symbolic :: "grain \<Rightarrow> bool" where
  "is_symbolic g \<longleftrightarrow> g \<in> {SymbolGrain, MethodGrain, ClassGrain}"

definition kind_or_other :: "node \<Rightarrow> symbol_kind" where
  "kind_or_other n = (case n_symbol_kind n of None \<Rightarrow> OtherKind | Some k \<Rightarrow> k)"

definition kind_matches :: "node \<Rightarrow> string \<Rightarrow> bool" where
  "kind_matches node kind \<longleftrightarrow>
     eq_ignore_ascii_case (symbol_kind_as_str (kind_or_other node)) kind \<or>
     (case n_lang_kind node of None \<Rightarrow> False | Some k \<Rightarrow> eq_ignore_ascii_case k kind)"

definition CLASS_CONTAINER_LANG_KINDS :: "string list" where
  "CLASS_CONTAINER_LANG_KINDS = [''impl'']"

fun grain_accepts :: "grain \<Rightarrow> node \<Rightarrow> bool" where
  "grain_accepts SymbolGrain node \<longleftrightarrow> True"
| "grain_accepts MethodGrain node \<longleftrightarrow> n_symbol_kind node \<in> {Some Method, Some Function}"
| "grain_accepts ClassGrain node \<longleftrightarrow>
     n_symbol_kind node = Some Type \<or> list_ex (kind_matches node) CLASS_CONTAINER_LANG_KINDS"
| "grain_accepts _ node \<longleftrightarrow> False"

definition kind_label :: "node \<Rightarrow> string" where
  "kind_label n =
     (let generic = symbol_kind_as_str (kind_or_other n)
      in (case n_lang_kind n of
            Some k \<Rightarrow> if k \<noteq> generic then generic @ ''/'' @ k else generic
          | None \<Rightarrow> generic))"

subsection \<open>Tallies\<close>

record scope =
  sc_org :: string
  sc_repo :: string
  sc_lang :: string
  sc_encoding :: "string option"
  sc_lossy :: bool

type_synonym tally = "(string \<times> int) list"
type_synonym catalog = "(string \<times> u64) list"

text \<open>The fields of a key, separated by NUL.\<close>

fun nul_join :: "string list \<Rightarrow> string" where
  "nul_join [] = []"
| "nul_join [x] = x"
| "nul_join (x # xs) = x @ [NUL] @ nul_join xs"

definition tally_add :: "string \<Rightarrow> int \<Rightarrow> tally \<Rightarrow> tally" where
  "tally_add key d t = bt_put key ((case map_of t key of None \<Rightarrow> 0 | Some n \<Rightarrow> n) + d) t"

definition tally_encoding :: "scope \<Rightarrow> int \<Rightarrow> tally \<Rightarrow> tally" where
  "tally_encoding s d t =
     (let t = (case sc_encoding s of
                 Some e \<Rightarrow> tally_add (nul_join [''e'', sc_org s, sc_repo s, e]) d t
               | None \<Rightarrow> t)
      in if sc_lossy s then tally_add (nul_join [''l'', sc_org s, sc_repo s]) d t else t)"

definition tally_file :: "scope \<Rightarrow> int \<Rightarrow> tally \<Rightarrow> tally" where
  "tally_file s d t = tally_encoding s d (tally_add (nul_join [''f'', sc_org s, sc_repo s, sc_lang s]) d t)"

definition tally_node :: "scope \<Rightarrow> node \<Rightarrow> int \<Rightarrow> tally \<Rightarrow> tally" where
  "tally_node s n d t =
     (case n_kind n of
        Symbol \<Rightarrow>
          tally_add (nul_join [''k'', sc_org s, sc_repo s, sc_lang s, kind_label n]) d
            (tally_add (nul_join [''s'', sc_org s, sc_repo s, sc_lang s]) d t)
      | Token \<Rightarrow>
          let t = tally_add (nul_join [''t'', sc_org s, sc_repo s, sc_lang s]) d t
          in (case n_token_class n of
                Some c \<Rightarrow> tally_add (nul_join [''c'', sc_org s, sc_repo s, token_class_as_str c]) d t
              | None \<Rightarrow> t)
      | _ \<Rightarrow> t)"

text \<open>\<open>as i64\<close> reads the stored word as signed; the sum is exact because counts stay far below \<open>2 ^ 63\<close>.\<close>

definition tally_apply :: "tally \<Rightarrow> catalog \<Rightarrow> catalog" where
  "tally_apply t cat =
     fold (\<lambda>(k, d) cat.
       if d = 0 then cat
       else let cur = (case map_of cat k of None \<Rightarrow> 0 | Some v \<Rightarrow> sint v);
                new = cur + d
            in if new > 0 then bt_put k (word_of_int new) cat else bt_del k cat) t cat"

subsection \<open>Reading a table\<close>

text \<open>
  What redb answers to a read: an error, carrying the text redb prints for it, or the value asked for.
  \<open>StoreError\<close> is made from such an error by its \<open>From\<close> instance, crates/graph-store/src/lib.rs, at every \<open>?\<close>.
\<close>

datatype redb_error = DatabaseAlreadyOpen | TableDoesNotExist string | OtherRedb string

definition store_error_of_redb :: "redb_error \<Rightarrow> store_error" where
  "store_error_of_redb e =
     (case e of
        DatabaseAlreadyOpen \<Rightarrow> Locked ''already open''
      | TableDoesNotExist msg \<Rightarrow> Storage msg
      | OtherRedb msg \<Rightarrow> Storage msg)"

definition tryE :: "redb_error + 'a \<Rightarrow> 'a result" where
  "tryE x = map_sum store_error_of_redb (\<lambda>a. a) x"

lemma tryE_simps [simp]: "tryE (Inl e) = Inl (store_error_of_redb e)" "tryE (Inr a) = Inr a"
  by (simp_all add: tryE_def)

lemma tryE_eq_Inl_iff: "tryE x = Inl e \<longleftrightarrow> (\<exists>y. x = Inl y \<and> e = store_error_of_redb y)"
  by (cases x) auto

lemma tryE_eq_Inr_iff: "tryE x = Inr a \<longleftrightarrow> x = Inr a"
  by (cases x) auto

text \<open>
  What a read transaction answers about the two tables \<open>describe\<close> reads: opening the catalog, then iterating
  over it, then each row; and opening the table of the open batch, then getting a key of it.
\<close>

record describe_reads =
  rt_catalog :: "redb_error + (redb_error + (redb_error + string \<times> u64) list)"
  rt_open_batch :: "redb_error + (string \<Rightarrow> redb_error + string option)"

subsection \<open>Describe\<close>

record language_info =
  li_files :: nat
  li_symbols :: nat
  li_tokens :: nat
  li_symbol_kinds :: "(string \<times> nat) list"

definition language_info_default :: language_info where
  "language_info_default = \<lparr>li_files = 0, li_symbols = 0, li_tokens = 0, li_symbol_kinds = []\<rparr>"

record repo_info =
  ri_org :: string
  ri_repo :: string
  ri_files :: nat
  ri_languages :: "(string \<times> language_info) list"
  ri_token_classes :: "(string \<times> nat) list"
  ri_open_batch :: bool
  ri_encodings :: "(string \<times> nat) list"
  ri_lossy :: nat

definition repo_info_new :: "string \<Rightarrow> string \<Rightarrow> repo_info" where
  "repo_info_new org repo =
     \<lparr>ri_org = org, ri_repo = repo, ri_files = 0, ri_languages = [], ri_token_classes = [], ri_open_batch = False,
      ri_encodings = [], ri_lossy = 0\<rparr>"

type_synonym infos = "((string \<times> string) \<times> repo_info) list"

text \<open>\<open>entry(lang).or_default()\<close> followed by an update in place.\<close>

definition with_language :: "string \<Rightarrow> (language_info \<Rightarrow> language_info) \<Rightarrow> repo_info \<Rightarrow> repo_info" where
  "with_language lang f info =
     info\<lparr>ri_languages :=
       bt_put lang (f (case map_of (ri_languages info) lang of None \<Rightarrow> language_info_default | Some li \<Rightarrow> li))
         (ri_languages info)\<rparr>"

definition bad_catalog :: store_error where
  "bad_catalog = Corrupt ''bad catalog key''"

text \<open>\<open>files\<close> is a \<open>usize\<close>, whose sum wraps.\<close>

definition count_row :: "string list \<Rightarrow> nat \<Rightarrow> repo_info \<Rightarrow> repo_info result" where
  "count_row f v info =
     (if f ! 0 = ''r'' \<and> length f = 3 then Inr info
      else if f ! 0 = ''e'' \<and> length f = 4 then Inr (info\<lparr>ri_encodings := bt_put (f ! 3) v (ri_encodings info)\<rparr>)
      else if f ! 0 = ''l'' \<and> length f = 3 then Inr (info\<lparr>ri_lossy := v\<rparr>)
      else if f ! 0 = ''c'' \<and> length f = 4 then
        Inr (info\<lparr>ri_token_classes := bt_put (f ! 3) v (ri_token_classes info)\<rparr>)
      else if f ! 0 = ''f'' \<and> length f = 4 then
        Inr (with_language (f ! 3) (li_files_update (\<lambda>_. v)) (info\<lparr>ri_files := (ri_files info + v) mod 2 ^ 64\<rparr>))
      else if f ! 0 = ''s'' \<and> length f = 4 then Inr (with_language (f ! 3) (li_symbols_update (\<lambda>_. v)) info)
      else if f ! 0 = ''t'' \<and> length f = 4 then Inr (with_language (f ! 3) (li_tokens_update (\<lambda>_. v)) info)
      else if f ! 0 = ''k'' \<and> length f = 5 then
        Inr (with_language (f ! 3) (\<lambda>li. li\<lparr>li_symbol_kinds := bt_put (f ! 4) v (li_symbol_kinds li)\<rparr>) info)
      else Inl bad_catalog)"

definition key_fields :: "string \<Rightarrow> string list" where
  "key_fields k = split_char (\<lambda>c. c = NUL) k"

fun describe_loop ::
  "string option \<Rightarrow> string option \<Rightarrow> (redb_error + string \<times> u64) list \<Rightarrow> infos \<Rightarrow> (string \<times> string) set \<Rightarrow>
     (infos \<times> (string \<times> string) set) result" where
  "describe_loop org repo [] infos seen_repo = Inr (infos, seen_repo)"
| "describe_loop org repo (r # rows) infos seen_repo =
     bindE (tryE r) (\<lambda>(k, v).
       let f = key_fields k
       in if length f < 3 then Inl bad_catalog
          else if (org \<noteq> None \<and> org \<noteq> Some (f ! 1)) \<or> (repo \<noteq> None \<and> repo \<noteq> Some (f ! 2)) then
            describe_loop org repo rows infos seen_repo
          else
            let key = (f ! 1, f ! 2);
                seen_repo = (if f ! 0 = ''r'' then insert key seen_repo else seen_repo);
                info = (case map_of infos key of None \<Rightarrow> repo_info_new (f ! 1) (f ! 2) | Some info \<Rightarrow> info)
            in bindE (count_row f (unat v) info) (\<lambda>info. describe_loop org repo rows (bt_put key info infos) seen_repo))"

definition no_marker :: store_error where
  "no_marker = Corrupt ''catalog has counters for a repo without its marker row''"

definition read_open_batch :: "describe_reads \<Rightarrow> (string \<times> string) option result" where
  "read_open_batch rt =
     (case rt_open_batch rt of
        Inr t \<Rightarrow>
          bindE (tryE (t ''org'')) (\<lambda>org.
          bindE (tryE (t ''repo'')) (\<lambda>repo.
            Inr (case (org, repo) of (Some org, Some repo) \<Rightarrow> Some (org, repo) | _ \<Rightarrow> None)))
      | Inl (TableDoesNotExist _) \<Rightarrow> Inr None
      | Inl e \<Rightarrow> Inl (store_error_of_redb e))"

definition describe_in :: "describe_reads \<Rightarrow> string option \<Rightarrow> string option \<Rightarrow> repo_info list result" where
  "describe_in rt org repo =
     bindE (tryE (rt_catalog rt)) (\<lambda>cat.
     bindE (tryE cat) (\<lambda>rows.
     bindE (describe_loop org repo rows [] {}) (\<lambda>(infos, seen_repo).
       if list_ex (\<lambda>r. fst r \<notin> seen_repo) infos then Inl no_marker
       else bindE (read_open_batch rt) (\<lambda>open_batch.
         let infos =
               (case open_batch of
                  None \<Rightarrow> infos
                | Some key \<Rightarrow>
                    (case map_of infos key of
                       None \<Rightarrow> infos
                     | Some info \<Rightarrow> bt_put key (info\<lparr>ri_open_batch := True\<rparr>) infos))
         in Inr (map snd infos)))))"

subsection \<open>Missing extractors\<close>

record extractor_gap =
  gap_org :: string
  gap_repo :: string
  gap_language :: string
  gap_stored_version :: string
  gap_symbols :: nat

fun gaps_loop ::
  "json \<Rightarrow> registry \<Rightarrow> (node_id \<rightharpoonup> u8 list) \<Rightarrow> (string \<times> nat) list \<Rightarrow> node_id list \<Rightarrow> (string \<times> string) list \<Rightarrow>
     (string \<times> string) list result" where
  "gaps_loop js rg nodes suspects [] found = Inr found"
| "gaps_loop js rg nodes suspects (c # cs) found =
     (case nodes c of
        None \<Rightarrow> gaps_loop js rg nodes suspects cs found
      | Some raw \<Rightarrow>
          bindE (dec js raw) (\<lambda>n.
            case (n_language n, n_fingerprint n) of
              (Some lang, Some fp) \<Rightarrow>
                (case find (\<lambda>s. fst s = lang) suspects of
                   None \<Rightarrow> gaps_loop js rg nodes suspects cs found
                 | Some (l, _) \<Rightarrow>
                     if map_of found l \<noteq> None then gaps_loop js rg nodes suspects cs found
                     else
                       let found =
                         (case fingerprint_extractor_version fp lang of
                            Some v \<Rightarrow> if v \<noteq> registry_version rg l then bt_put l v found else found
                          | None \<Rightarrow> found)
                       in if length found = length suspects then Inr found
                          else gaps_loop js rg nodes suspects cs found)
            | _ \<Rightarrow> gaps_loop js rg nodes suspects cs found))"

definition suspects_of :: "registry \<Rightarrow> repo_info \<Rightarrow> (string \<times> nat) list" where
  "suspects_of rg info =
     map (\<lambda>(l, li). (l, li_symbols li)) (filter (\<lambda>(l, li). li_symbols li > 0 \<and> \<not> registry_has rg l) (ri_languages info))"

definition repo_gaps ::
  "json \<Rightarrow> registry \<Rightarrow> (string \<rightharpoonup> node_id) \<Rightarrow> (node_id \<rightharpoonup> u8 list) \<Rightarrow> (node_id \<Rightarrow> node_id list) \<Rightarrow> repo_info \<Rightarrow>
     extractor_gap list result" where
  "repo_gaps js rg names nodes children info =
     (let suspects = suspects_of rg info
      in if suspects = [] then Inr []
         else (case repo_id_in names (ri_org info) (ri_repo info) of
                 None \<Rightarrow> Inr []
               | Some repo_id \<Rightarrow>
                   bindE (gaps_loop js rg nodes suspects (children repo_id) []) (\<lambda>found.
                     Inr (concat (map (\<lambda>(l, symbols).
                       case map_of found l of
                         None \<Rightarrow> []
                       | Some v \<Rightarrow> [\<lparr>gap_org = ri_org info, gap_repo = ri_repo info, gap_language = l,
                                    gap_stored_version = v, gap_symbols = symbols\<rparr>]) suspects)))))"

fun gaps_of ::
  "json \<Rightarrow> registry \<Rightarrow> (string \<rightharpoonup> node_id) \<Rightarrow> (node_id \<rightharpoonup> u8 list) \<Rightarrow> (node_id \<Rightarrow> node_id list) \<Rightarrow> repo_info list \<Rightarrow>
     extractor_gap list \<Rightarrow> extractor_gap list result" where
  "gaps_of js rg names nodes children [] gaps = Inr gaps"
| "gaps_of js rg names nodes children (info # infos) gaps =
     bindE (repo_gaps js rg names nodes children info) (\<lambda>new. gaps_of js rg names nodes children infos (gaps @ new))"

definition extractor_gaps_in ::
  "json \<Rightarrow> registry \<Rightarrow> describe_reads \<Rightarrow> (string \<rightharpoonup> node_id) \<Rightarrow> (node_id \<rightharpoonup> u8 list) \<Rightarrow>
     (node_id \<Rightarrow> node_id list) \<Rightarrow> string option \<Rightarrow> string option \<Rightarrow> extractor_gap list result" where
  "extractor_gaps_in js rg rt names nodes children org repo =
     bindE (describe_in rt org repo) (\<lambda>infos. gaps_of js rg names nodes children infos [])"

subsection \<open>Tallies count keys\<close>

definition file_keys :: "scope \<Rightarrow> string list" where
  "file_keys s =
     nul_join [''f'', sc_org s, sc_repo s, sc_lang s] #
     (case sc_encoding s of Some e \<Rightarrow> [nul_join [''e'', sc_org s, sc_repo s, e]] | None \<Rightarrow> []) @
     (if sc_lossy s then [nul_join [''l'', sc_org s, sc_repo s]] else [])"

definition node_keys :: "scope \<Rightarrow> node \<Rightarrow> string list" where
  "node_keys s n =
     (case n_kind n of
        Symbol \<Rightarrow> [nul_join [''s'', sc_org s, sc_repo s, sc_lang s],
                   nul_join [''k'', sc_org s, sc_repo s, sc_lang s, kind_label n]]
      | Token \<Rightarrow> nul_join [''t'', sc_org s, sc_repo s, sc_lang s] #
                   (case n_token_class n of
                      Some c \<Rightarrow> [nul_join [''c'', sc_org s, sc_repo s, token_class_as_str c]] | None \<Rightarrow> [])
      | _ \<Rightarrow> [])"

definition delta :: "tally \<Rightarrow> string \<Rightarrow> int" where
  "delta t k = (case map_of t k of None \<Rightarrow> 0 | Some d \<Rightarrow> d)"

definition tally_adds :: "int \<Rightarrow> string list \<Rightarrow> tally \<Rightarrow> tally" where
  "tally_adds d ks t = fold (\<lambda>k. tally_add k d) ks t"

lemma tally_file_adds: "tally_file s d t = tally_adds d (file_keys s) t"
  by (simp add: tally_file_def tally_encoding_def file_keys_def tally_adds_def Let_def split: option.split)

lemma tally_node_adds: "tally_node s n d t = tally_adds d (node_keys s n) t"
  by (simp add: tally_node_def node_keys_def tally_adds_def Let_def split: node_kind.split option.split)

lemma tally_adds_append: "tally_adds d ks' (tally_adds d ks t) = tally_adds d (ks @ ks') t"
  by (simp add: tally_adds_def)

lemma delta_add: "delta (tally_add key d t) k = delta t k + (if k = key then d else 0)"
  by (simp add: delta_def tally_add_def map_of_bt_put split: option.split)

lemma delta_adds: "delta (tally_adds d ks t) k = delta t k + d * int (count_list ks k)"
  by (induction ks arbitrary: t) (simp_all add: tally_adds_def delta_add algebra_simps)

lemma tally_adds_ok: "bt_ok t \<Longrightarrow> bt_ok (tally_adds d ks t)"
  by (induction ks arbitrary: t) (simp_all add: tally_adds_def tally_add_def bt_ok_put)

text \<open>What a file adds to the counters (\<open>d\<close> = 1) or takes from them (\<open>d\<close> = -1).\<close>

definition tally_of :: "scope \<Rightarrow> node list \<Rightarrow> int \<Rightarrow> tally" where
  "tally_of s ns d = fold (\<lambda>n. tally_node s n d) ns (tally_file s d [])"

definition keys_of :: "scope \<Rightarrow> node list \<Rightarrow> string list" where
  "keys_of s ns = file_keys s @ concat (map (node_keys s) ns)"

lemma tally_of_adds: "tally_of s ns d = tally_adds d (keys_of s ns) []"
proof -
  have "fold (\<lambda>n. tally_node s n d) ns t = tally_adds d (concat (map (node_keys s) ns)) t" for t
    by (induction ns arbitrary: t) (simp_all add: tally_node_adds tally_adds_append, simp add: tally_adds_def)
  then show ?thesis by (simp add: tally_of_def tally_file_adds tally_adds_append keys_of_def)
qed

subsection \<open>Applying a tally\<close>

definition bump :: "int \<Rightarrow> u64 option \<Rightarrow> u64 option" where
  "bump d v =
     (if d = 0 then v
      else let new = (case v of None \<Rightarrow> 0 | Some v \<Rightarrow> sint v) + d in if new > 0 then Some (word_of_int new) else None)"

lemma bump_0 [simp]: "bump 0 v = v"
  by (simp add: bump_def)

lemma tally_apply_upd:
  "tally_apply t cat =
     fold (\<lambda>(k, d) cat. ordered.upd k (bump d (map_of cat k)) cat) (filter (\<lambda>r. snd r \<noteq> 0) t) cat"
  unfolding tally_apply_def fold_filter
  by (rule fold_cong) (auto simp: fun_eq_iff bump_def ordered.upd_def Let_def)

lemma map_of_tally_apply:
  assumes "bt_ok t"
  shows "map_of (tally_apply t cat) k = bump (delta t k) (map_of cat k)"
proof -
  have d: "distinct (map fst t)" using assms by (rule bt_ok_distinct)
  then have "distinct (map fst (filter (\<lambda>r. snd r \<noteq> 0) t))" by (simp add: distinct_map_filter)
  moreover have "map_of (filter (\<lambda>r. snd r \<noteq> 0) t) k = (if delta t k = 0 then None else map_of t k)"
    using d by (induction t) (auto simp: delta_def map_of_eq_None_iff image_iff split: if_splits)
  ultimately have "map_of (tally_apply t cat) k =
      (case if delta t k = 0 then None else map_of t k of Some d \<Rightarrow> bump d (map_of cat k) | None \<Rightarrow> map_of cat k)"
    unfolding tally_apply_upd by (simp only: ordered.get_fold_upd)
  then show ?thesis by (cases "map_of t k") (simp_all add: delta_def)
qed

lemma tally_apply_ok: "bt_ok cat \<Longrightarrow> bt_ok (tally_apply t cat)"
  unfolding tally_apply_upd by (rule ordered.ok_fold_upd)

text \<open>Counts are positive and far from the sign bit.\<close>

definition catalog_ok :: "catalog \<Rightarrow> bool" where
  "catalog_ok cat \<longleftrightarrow> bt_ok cat \<and> (\<forall>(k, v) \<in> set cat. 0 < sint v)"

definition count :: "catalog \<Rightarrow> string \<Rightarrow> int" where
  "count cat k = (case map_of cat k of None \<Rightarrow> 0 | Some v \<Rightarrow> sint v)"

lemma catalog_ok_iff:
  "catalog_ok cat \<longleftrightarrow> bt_ok cat \<and> (\<forall>k v. map_of cat k = Some v \<longrightarrow> 0 < sint v)"
  unfolding catalog_ok_def
  by (auto dest: map_of_SomeD) (metis bt_ok_distinct case_prodI map_of_is_SomeI)

lemma sint_of_small: "\<lbrakk>0 \<le> x; x < 2 ^ 63\<rbrakk> \<Longrightarrow> sint (word_of_int x :: u64) = x"
  unfolding sint_sbintrunc' by (rule signed_take_bit_int_eq_self) simp_all

lemma bump_Some:
  "d \<noteq> 0 \<Longrightarrow> bump d (Some w) = (if 0 < sint w + d then Some (word_of_int (sint w + d)) else None)"
  by (simp add: bump_def)

lemma bump_inverse:
  assumes "0 \<le> d" and "(case v of None \<Rightarrow> 0 | Some v \<Rightarrow> sint v) + d < 2 ^ 63" and "\<And>w. v = Some w \<Longrightarrow> 0 < sint w"
  shows "bump (- d) (bump d v) = v" "\<And>w. bump d v = Some w \<Longrightarrow> 0 < sint w"
    and "(case bump d v of None \<Rightarrow> 0 | Some v \<Rightarrow> sint v) = (case v of None \<Rightarrow> 0 | Some v \<Rightarrow> sint v) + d"
proof -
  define c where "c = (case v of None \<Rightarrow> 0 | Some v \<Rightarrow> sint v)"
  define w :: u64 where "w = word_of_int (c + d)"
  have c: "0 \<le> c" using assms(3) by (auto simp: c_def split: option.split intro: less_imp_le)
  have s: "sint w = c + d" unfolding w_def using c assms(1,2) by (intro sint_of_small) (simp_all add: c_def)
  have b: "bump d v = (if d = 0 then v else Some w)"
    using c assms(1) by (simp add: bump_def w_def c_def)
  have v: "v = (if 0 < c then Some (word_of_int c) else None)"
    using assms(3) by (cases v) (auto simp: not_less c_def)
  have "bump (- d) (bump d v) = (if d = 0 then v else if 0 < c then Some (word_of_int c) else None)"
    unfolding b by (simp add: bump_Some s)
  then show "bump (- d) (bump d v) = v" using v by argo
  show "0 < sint w" if "bump d v = Some w" for w
    using that b s c assms(1,3) by (cases "d = 0") (auto split: if_splits)
  show "(case bump d v of None \<Rightarrow> 0 | Some v \<Rightarrow> sint v) = (case v of None \<Rightarrow> 0 | Some v \<Rightarrow> sint v) + d"
    unfolding b using s by (simp add: c_def)
qed

subsection \<open>Properties of the counters\<close>

text \<open>
  C25: indexing a file counts it, and removing it again restores the catalog. For a catalog of positive
  counters that stay below \<open>2 ^ 63\<close>, applying a file's tally raises each counter by the number of the file's
  records under it and keeps the counters positive; applying the opposite tally gives back exactly the
  table from before, rows that became zero removed.
\<close>

theorem tally_counts_and_undoes:
  assumes "catalog_ok cat" and "\<And>k. count cat k + int (length (keys_of s ns)) < 2 ^ 63"
  shows "catalog_ok (tally_apply (tally_of s ns 1) cat)
    \<and> count (tally_apply (tally_of s ns 1) cat) k = count cat k + int (count_list (keys_of s ns) k)
    \<and> tally_apply (tally_of s ns (- 1)) (tally_apply (tally_of s ns 1) cat) = cat"
proof -
  let ?cat = "tally_apply (tally_of s ns 1) cat"
  have ok: "bt_ok cat" "bt_ok ?cat" "\<And>d. bt_ok (tally_of s ns d)"
    using assms(1) by (simp_all add: catalog_ok_iff tally_apply_ok tally_of_adds tally_adds_ok)
  have delta: "delta (tally_of s ns d) k = d * int (count_list (keys_of s ns) k)" for d k
    by (simp add: tally_of_adds delta_adds) (simp add: delta_def)
  have small: "(case map_of cat k of None \<Rightarrow> 0 | Some v \<Rightarrow> sint v) + int (count_list (keys_of s ns) k) < 2 ^ 63" for k
    using assms(2) [of k] count_le_length [of "keys_of s ns" k] by (simp add: count_def)
  have pos: "0 < sint w" if "map_of cat k = Some w" for k w using assms(1) that by (simp add: catalog_ok_iff)
  note inv = bump_inverse [OF _ small pos, simplified]
  have "map_of (tally_apply (tally_of s ns (- 1)) ?cat) k = map_of cat k" for k
    by (simp add: map_of_tally_apply ok delta inv(1))
  then have "tally_apply (tally_of s ns (- 1)) ?cat = cat"
    by (intro bt_ok_eqI tally_apply_ok ok) (auto simp: fun_eq_iff)
  moreover have "catalog_ok ?cat"
    using ok(2) inv(2) by (simp add: catalog_ok_iff map_of_tally_apply ok(3) delta)
  moreover have "count ?cat k = count cat k + int (count_list (keys_of s ns) k)"
    using inv(3) by (simp add: count_def map_of_tally_apply ok(3) delta)
  ultimately show ?thesis by blast
qed

definition sample_scope :: scope where
  "sample_scope = \<lparr>sc_org = ''o'', sc_repo = ''r'', sc_lang = ''x'', sc_encoding = Some ''GBK'', sc_lossy = True\<rparr>"

theorem tally_counts_and_undoes_witness:
  "count (tally_apply (tally_of sample_scope [] 1) []) (nul_join [''f'', ''o'', ''r'', ''x'']) = 1 \<and>
   tally_apply (tally_of sample_scope [] (- 1)) (tally_apply (tally_of sample_scope [] 1) []) = []"
proof -
  have "catalog_ok []" by (simp add: catalog_ok_def)
  moreover have "count [] k + int (length (keys_of sample_scope [])) < 2 ^ 63" for k
    by (simp add: count_def keys_of_def file_keys_def sample_scope_def)
  moreover have "count_list (keys_of sample_scope []) (nul_join [''f'', ''o'', ''r'', ''x'']) = 1"
    by (simp add: keys_of_def file_keys_def sample_scope_def)
  ultimately show ?thesis
    using tally_counts_and_undoes [of "[]" sample_scope "[]" "nul_join [''f'', ''o'', ''r'', ''x'']"]
    by (simp add: count_def)
qed

subsection \<open>What describe accepts\<close>

definition in_scope :: "string option \<Rightarrow> string option \<Rightarrow> string list \<Rightarrow> bool" where
  "in_scope org repo f \<longleftrightarrow> (org = None \<or> org = Some (f ! 1)) \<and> (repo = None \<or> repo = Some (f ! 2))"

definition key_shape :: "string list \<Rightarrow> bool" where
  "key_shape f \<longleftrightarrow>
     (f ! 0, length f) \<in> {(''r'', 3), (''l'', 3), (''e'', 4), (''c'', 4), (''f'', 4), (''s'', 4), (''t'', 4), (''k'', 5)}"

definition row_ok :: "string option \<Rightarrow> string option \<Rightarrow> string \<Rightarrow> bool" where
  "row_ok org repo k \<longleftrightarrow>
     3 \<le> length (key_fields k) \<and> (in_scope org repo (key_fields k) \<longrightarrow> key_shape (key_fields k))"

definition repos_in :: "string option \<Rightarrow> string option \<Rightarrow> catalog \<Rightarrow> (string \<times> string) set" where
  "repos_in org repo cat =
     {(key_fields k ! 1, key_fields k ! 2) | k v. (k, v) \<in> set cat \<and> in_scope org repo (key_fields k)}"

definition marked_in :: "string option \<Rightarrow> string option \<Rightarrow> catalog \<Rightarrow> (string \<times> string) set" where
  "marked_in org repo cat =
     {(key_fields k ! 1, key_fields k ! 2) | k v.
        (k, v) \<in> set cat \<and> in_scope org repo (key_fields k) \<and> key_fields k ! 0 = ''r''}"

lemma count_row_shape: "(\<exists>info'. count_row f v info = Inr info') \<longleftrightarrow> key_shape f"
  by (auto simp: count_row_def key_shape_def)

lemma keys_bt_put: "fst ` set (bt_put k v t) = insert k (fst ` set t)"
  by (induction k v t rule: bt_put.induct) auto

lemma repos_in_Cons:
  "repos_in org repo ((k, v) # cat) =
     (if in_scope org repo (key_fields k) then insert (key_fields k ! 1, key_fields k ! 2) else id) (repos_in org repo cat)"
  "marked_in org repo ((k, v) # cat) =
     (if in_scope org repo (key_fields k) \<and> key_fields k ! 0 = ''r'' then insert (key_fields k ! 1, key_fields k ! 2) else id)
       (marked_in org repo cat)"
  by (auto simp: repos_in_def marked_in_def)

lemma count_row_names:
  assumes "count_row f v info = Inr info'"
  shows "ri_org info' = ri_org info" "ri_repo info' = ri_repo info"
  using assms by (auto simp: count_row_def with_language_def split: if_splits)

text \<open>The rows that were read, and the reads that failed.\<close>

definition rows_read :: "(redb_error + string \<times> u64) list \<Rightarrow> catalog" where
  "rows_read rows = concat (map (\<lambda>r. case r of Inl _ \<Rightarrow> [] | Inr kv \<Rightarrow> [kv]) rows)"

definition catalog_read :: "describe_reads \<Rightarrow> catalog" where
  "catalog_read rt = (case rt_catalog rt of Inr (Inr rows) \<Rightarrow> rows_read rows | _ \<Rightarrow> [])"

definition failed_reads :: "describe_reads \<Rightarrow> redb_error set" where
  "failed_reads rt =
     {e. rt_catalog rt = Inl e \<or> rt_catalog rt = Inr (Inl e) \<or> (\<exists>rows. rt_catalog rt = Inr (Inr rows) \<and> Inl e \<in> set rows) \<or>
         (rt_open_batch rt = Inl e \<and> (\<nexists>msg. e = TableDoesNotExist msg)) \<or>
         (\<exists>t. rt_open_batch rt = Inr t \<and> (t ''org'' = Inl e \<or> t ''repo'' = Inl e))}"

definition named_by_key :: "infos \<Rightarrow> bool" where
  "named_by_key infos \<longleftrightarrow> (\<forall>(k, info) \<in> set infos. k = (ri_org info, ri_repo info))"

lemma named_by_key_put:
  "\<lbrakk>named_by_key infos; (ri_org info, ri_repo info) = k\<rbrakk> \<Longrightarrow> named_by_key (bt_put k info infos)"
  by (induction k info infos rule: bt_put.induct) (auto simp: named_by_key_def)

lemma describe_loop_step:
  assumes "named_by_key infos"
  obtains (bad) "\<not> row_ok org repo k" "describe_loop org repo (Inr (k, v) # rows) infos seen = Inl bad_catalog"
  | (skip) "row_ok org repo k" "\<not> in_scope org repo (key_fields k)"
      "describe_loop org repo (Inr (k, v) # rows) infos seen = describe_loop org repo rows infos seen"
  | (row) info where "row_ok org repo k" "in_scope org repo (key_fields k)"
      "(ri_org info, ri_repo info) = (key_fields k ! 1, key_fields k ! 2)"
      "describe_loop org repo (Inr (k, v) # rows) infos seen =
         describe_loop org repo rows (bt_put (key_fields k ! 1, key_fields k ! 2) info infos)
           (if key_fields k ! 0 = ''r'' then insert (key_fields k ! 1, key_fields k ! 2) seen else seen)"
proof -
  let ?f = "key_fields k"
  let ?i = "case map_of infos (?f ! 1, ?f ! 2) of None \<Rightarrow> repo_info_new (?f ! 1) (?f ! 2) | Some info \<Rightarrow> info"
  have i: "(ri_org ?i, ri_repo ?i) = (?f ! 1, ?f ! 2)"
    using assms by (auto simp: named_by_key_def repo_info_new_def split: option.split dest!: map_of_SomeD)
  consider "length ?f < 3" | "3 \<le> length ?f" "\<not> in_scope org repo ?f"
    | e where "3 \<le> length ?f" "in_scope org repo ?f" "count_row ?f (unat v) ?i = Inl e"
    | info where "3 \<le> length ?f" "in_scope org repo ?f" "count_row ?f (unat v) ?i = Inr info"
    by (cases "count_row ?f (unat v) ?i") force+
  then show ?thesis
  proof cases
    case 1
    then show ?thesis using bad by (simp add: row_ok_def)
  next
    case 2
    then show ?thesis using skip by (auto simp: row_ok_def in_scope_def Let_def)
  next
    case (3 e)
    then have "\<not> key_shape ?f" "e = bad_catalog"
      using count_row_shape [of ?f "unat v" ?i] by (auto simp: count_row_def split: if_splits)
    then show ?thesis using 3 bad by (auto simp: row_ok_def in_scope_def Let_def)
  next
    case (4 info)
    then have "key_shape ?f" using count_row_shape [of ?f "unat v" ?i] by blast
    then show ?thesis using 4 row [of info] i count_row_names [OF 4(3)] by (auto simp: row_ok_def in_scope_def Let_def)
  qed
qed

declare describe_loop.simps(2) [simp del]

lemma rows_read_simps [simp]:
  "rows_read [] = []" "rows_read (Inl e # rows) = rows_read rows" "rows_read (Inr kv # rows) = kv # rows_read rows"
  by (simp_all add: rows_read_def)

lemma describe_loop_Inl_row [simp]: "describe_loop org repo (Inl x # rows) infos seen = Inl (store_error_of_redb x)"
  by (simp add: describe_loop.simps(2))

lemma describe_loop_error:
  "\<lbrakk>describe_loop org repo rows infos seen = Inl e; named_by_key infos\<rbrakk> \<Longrightarrow>
     (\<exists>x. Inl x \<in> set rows \<and> e = store_error_of_redb x) \<or>
     e = bad_catalog \<and> (\<exists>kv \<in> set (rows_read rows). \<not> row_ok org repo (fst kv))"
proof (induction rows arbitrary: infos seen)
  case (Cons r rows)
  show ?case
  proof (cases r)
    case (Inr kv)
    then obtain k v where r: "r = Inr (k, v)" by (cases kv) simp
    note run = Cons.prems(1) [unfolded r]
    consider "\<not> row_ok org repo k" "e = bad_catalog"
      | infos' seen' where "describe_loop org repo rows infos' seen' = Inl e" "named_by_key infos'"
      by (rule describe_loop_step [OF Cons.prems(2), of org repo k v rows seen])
        (use run Cons.prems(2) named_by_key_put in fastforce)+
    then show ?thesis
    proof cases
      case 2
      show ?thesis using Cons.IH [OF 2] r by auto
    qed (simp add: r)
  qed (use Cons.prems in auto)
qed simp

lemma describe_loop_success:
  "\<lbrakk>describe_loop org repo rows infos seen = Inr (infos', seen'); named_by_key infos\<rbrakk> \<Longrightarrow>
     (\<forall>x. Inl x \<notin> set rows) \<and> (\<forall>kv \<in> set (rows_read rows). row_ok org repo (fst kv)) \<and> named_by_key infos' \<and>
     fst ` set infos' = fst ` set infos \<union> repos_in org repo (rows_read rows) \<and>
     seen' = seen \<union> marked_in org repo (rows_read rows)"
proof (induction rows arbitrary: infos seen)
  case Nil
  then show ?case by (simp add: repos_in_def marked_in_def)
next
  case (Cons r rows)
  obtain k v where r: "r = Inr (k, v)" using Cons.prems(1) by (cases r) auto
  note run = Cons.prems(1) [unfolded r]
  show ?case
  proof (rule describe_loop_step [OF Cons.prems(2), of org repo k v rows seen])
    assume "describe_loop org repo (Inr (k, v) # rows) infos seen = Inl bad_catalog"
    then show ?thesis using run by simp
  next
    assume h: "row_ok org repo k" "\<not> in_scope org repo (key_fields k)"
      "describe_loop org repo (Inr (k, v) # rows) infos seen = describe_loop org repo rows infos seen"
    show ?thesis using Cons.IH [OF run [unfolded h(3)] Cons.prems(2)] h(1,2) by (simp add: r repos_in_Cons)
  next
    fix info
    assume h: "row_ok org repo k" "in_scope org repo (key_fields k)"
      "(ri_org info, ri_repo info) = (key_fields k ! 1, key_fields k ! 2)"
      "describe_loop org repo (Inr (k, v) # rows) infos seen =
         describe_loop org repo rows (bt_put (key_fields k ! 1, key_fields k ! 2) info infos)
           (if key_fields k ! 0 = ''r'' then insert (key_fields k ! 1, key_fields k ! 2) seen else seen)"
    show ?thesis
      using Cons.IH [OF run [unfolded h(4)] named_by_key_put [OF Cons.prems(2) h(3)]] h(1,2)
      by (auto simp: r repos_in_Cons keys_bt_put)
  qed
qed

lemma read_open_batch_error:
  "read_open_batch rt = Inl e \<Longrightarrow> e \<in> store_error_of_redb ` failed_reads rt"
  by (auto simp: read_open_batch_def failed_reads_def bindE_eq_Inl_iff tryE_eq_Inl_iff tryE_eq_Inr_iff
      split: sum.splits redb_error.splits)

lemma read_open_batch_success:
  "read_open_batch rt = Inr key \<Longrightarrow> rt_catalog rt = Inr (Inr rows) \<Longrightarrow> failed_reads rt = {e. Inl e \<in> set rows}"
  by (auto simp: read_open_batch_def failed_reads_def bindE_eq_Inr_iff tryE_eq_Inr_iff
      split: sum.splits redb_error.splits)

lemma snd_named_by_key:
  assumes "named_by_key infos"
  shows "(\<lambda>i. (ri_org i, ri_repo i)) ` set (map snd infos) = fst ` set infos"
  using assms by (force simp: named_by_key_def)

definition readable :: "string option \<Rightarrow> string option \<Rightarrow> catalog \<Rightarrow> bool" where
  "readable org repo cat \<longleftrightarrow>
     (\<forall>r \<in> set cat. row_ok org repo (fst r)) \<and> repos_in org repo cat \<subseteq> marked_in org repo cat"

definition flag_open :: "(string \<times> string) option \<Rightarrow> infos \<Rightarrow> infos" where
  "flag_open open_batch infos =
     (case open_batch of
        None \<Rightarrow> infos
      | Some key \<Rightarrow>
          (case map_of infos key of None \<Rightarrow> infos | Some info \<Rightarrow> bt_put key (info\<lparr>ri_open_batch := True\<rparr>) infos))"

lemma flag_open_repos:
  assumes "named_by_key infos"
  shows "(\<lambda>i. (ri_org i, ri_repo i)) ` set (map snd (flag_open open_batch infos)) = fst ` set infos"
proof -
  have "named_by_key (flag_open open_batch infos) \<and> fst ` set (flag_open open_batch infos) = fst ` set infos"
  proof (cases "Option.bind open_batch (map_of infos)")
    case None
    then show ?thesis using assms by (auto simp: flag_open_def split: option.splits)
  next
    case (Some info)
    then obtain key where k: "open_batch = Some key" "map_of infos key = Some info" by (cases open_batch) auto
    have "(key, info) \<in> set infos" using k(2) by (rule map_of_SomeD)
    then show ?thesis
      using assms k by (force simp: flag_open_def keys_bt_put named_by_key_def [of infos] intro!: named_by_key_put)
  qed
  then show ?thesis using snd_named_by_key by metis
qed

lemma describe_in_rows:
  assumes "rt_catalog rt = Inr (Inr rows)"
  shows "describe_in rt org repo =
    bindE (describe_loop org repo rows [] {}) (\<lambda>(infos, seen).
      if fst ` set infos \<subseteq> seen then bindE (read_open_batch rt) (\<lambda>key. Inr (map snd (flag_open key infos))) else Inl no_marker)"
  unfolding describe_in_def assms
  by (auto simp: list_ex_iff flag_open_def Let_def fun_eq_iff image_subset_iff intro!: arg_cong2 [where f = bindE])

text \<open>
  C26: when \<open>describe\<close> succeeds. It gives a report exactly when every read it makes of the two tables
  succeeds, every key has at least three fields, every key of the repositories asked for is one of the eight
  known shapes, and each of these repositories has its marker row; the report is then about just these
  repositories. Otherwise it fails, with the store error of a read that failed, or, only when the rows read
  break one of these conditions, with one of its two \<open>Corrupt\<close> errors.
\<close>

theorem describe_in_succeeds_iff:
  "case describe_in rt org repo of
     Inr infos \<Rightarrow> failed_reads rt = {} \<and> readable org repo (catalog_read rt) \<and>
       (\<lambda>i. (ri_org i, ri_repo i)) ` set infos = repos_in org repo (catalog_read rt)
   | Inl e \<Rightarrow> e \<in> store_error_of_redb ` failed_reads rt \<or>
       e \<in> {bad_catalog, no_marker} \<and> \<not> readable org repo (catalog_read rt)"
proof (cases "\<exists>rows. rt_catalog rt = Inr (Inr rows)")
  case False
  then obtain x where x: "rt_catalog rt = Inl x \<or> rt_catalog rt = Inr (Inl x)"
    by (metis sum.exhaust)
  then have "describe_in rt org repo = Inl (store_error_of_redb x)" "x \<in> failed_reads rt"
    by (auto simp: describe_in_def failed_reads_def)
  then show ?thesis by simp
next
  case True
  then obtain rows where rows: "rt_catalog rt = Inr (Inr rows)" by blast
  then have cat: "catalog_read rt = rows_read rows" by (simp add: catalog_read_def)
  have named: "named_by_key []" by (simp add: named_by_key_def)
  show ?thesis
  proof (cases "describe_loop org repo rows [] {}")
    case (Inl e)
    then have "describe_in rt org repo = Inl e" by (simp add: describe_in_rows [OF rows])
    then show ?thesis using describe_loop_error [OF Inl named] rows cat by (auto simp: failed_reads_def readable_def)
  next
    case (Inr r)
    obtain infos seen where r: "r = (infos, seen)" by (cases r)
    note ok = describe_loop_success [OF Inr [unfolded r] named, simplified]
    have d: "describe_in rt org repo =
        (if repos_in org repo (rows_read rows) \<subseteq> marked_in org repo (rows_read rows)
         then bindE (read_open_batch rt) (\<lambda>key. Inr (map snd (flag_open key infos))) else Inl no_marker)"
      using ok by (simp add: describe_in_rows [OF rows] Inr r)
    show ?thesis
      using ok read_open_batch_error [of rt] read_open_batch_success [OF _ rows] flag_open_repos [of infos]
      by (cases "read_open_batch rt") (auto simp: d cat readable_def)
  qed
qed

subsection \<open>Missing extractors are real\<close>

text \<open>A file node that was indexed by an extractor of another version than the running one.\<close>

definition evidence ::
  "json \<Rightarrow> registry \<Rightarrow> (node_id \<rightharpoonup> u8 list) \<Rightarrow> node_id list \<Rightarrow> string \<Rightarrow> string \<Rightarrow> bool" where
  "evidence js rg nodes cs l v \<longleftrightarrow>
     (\<exists>c raw n fp. c \<in> set cs \<and> nodes c = Some raw \<and> dec js raw = Inr n \<and> n_language n = Some l \<and>
        n_fingerprint n = Some fp \<and> fingerprint_extractor_version fp l = Some v \<and> v \<noteq> registry_version rg l)"

lemma evidence_Cons: "evidence js rg nodes cs l v \<Longrightarrow> evidence js rg nodes (c # cs) l v"
  unfolding evidence_def by (meson list.set_intros(2))

lemma gaps_loop_step:
  assumes "gaps_loop js rg nodes suspects (c # cs) found = Inr found'"
  obtains found1 where "found1 = found \<or> (\<exists>l v. found1 = bt_put l v found \<and> evidence js rg nodes [c] l v)"
    "found' = found1 \<or> gaps_loop js rg nodes suspects cs found1 = Inr found'"
proof (cases "gaps_loop js rg nodes suspects cs found = Inr found' \<or> found' = found")
  case True
  then show ?thesis using that by blast
next
  case False
  then obtain raw where raw: "nodes c = Some raw" using assms by (cases "nodes c") auto
  obtain n where "dec js raw = Inr n" using assms raw by (cases "dec js raw") auto
  note n = raw this
  obtain lang fp where f: "n_language n = Some lang" "n_fingerprint n = Some fp"
    using assms False n by (cases "n_language n"; cases "n_fingerprint n") auto
  then obtain l m where lm: "find (\<lambda>s. fst s = lang) suspects = Some (l, m)"
    using assms False n by (cases "find (\<lambda>s. fst s = lang) suspects") auto
  then have "l = lang" using find_SomeD [OF lm] by simp
  note m = lm [unfolded this]
  obtain v where v: "fingerprint_extractor_version fp lang = Some v" "v \<noteq> registry_version rg lang"
    using assms False n f m by (auto simp: Let_def split: option.splits if_splits)
  then have "found' = bt_put lang v found \<or> gaps_loop js rg nodes suspects cs (bt_put lang v found) = Inr found'"
    using assms False n f m by (auto simp: Let_def split: if_splits)
  moreover have "evidence js rg nodes [c] lang v" using n f v by (auto simp: evidence_def)
  ultimately show ?thesis using that by blast
qed

lemma gaps_loop_evidence:
  "\<lbrakk>gaps_loop js rg nodes suspects cs found = Inr found'; map_of found' l = Some v\<rbrakk> \<Longrightarrow>
     map_of found l = Some v \<or> evidence js rg nodes cs l v"
proof (induction cs arbitrary: found)
  case (Cons c cs)
  obtain found1 where f: "found1 = found \<or> (\<exists>l v. found1 = bt_put l v found \<and> evidence js rg nodes [c] l v)"
    "found' = found1 \<or> gaps_loop js rg nodes suspects cs found1 = Inr found'"
    using gaps_loop_step [OF Cons.prems(1)] .
  have "map_of found1 l = Some v \<or> evidence js rg nodes cs l v" using f(2) Cons.IH Cons.prems(2) by blast
  moreover have "map_of found l = Some v \<or> evidence js rg nodes [c] l v" if "map_of found1 l = Some v"
    using f(1) that by (auto simp: map_of_bt_put split: if_splits)
  ultimately show ?case by (auto simp: evidence_def)
qed simp

lemma repo_gaps_sound:
  assumes "repo_gaps js rg names nodes children info = Inr gaps" and "g \<in> set gaps"
  shows "\<not> registry_has rg (gap_language g) \<and> 0 < gap_symbols g \<and>
    (\<exists>repo_id. repo_id_in names (gap_org g) (gap_repo g) = Some repo_id \<and>
       evidence js rg nodes (children repo_id) (gap_language g) (gap_stored_version g))"
proof -
  obtain repo_id found where r: "repo_id_in names (ri_org info) (ri_repo info) = Some repo_id"
      "gaps_loop js rg nodes (suspects_of rg info) (children repo_id) [] = Inr found"
    using assms by (auto simp: repo_gaps_def Let_def bindE_eq_Inr_iff split: if_splits option.splits)
  then obtain symbols where g: "(gap_language g, symbols) \<in> set (suspects_of rg info)"
      "map_of found (gap_language g) = Some (gap_stored_version g)" "gap_org g = ri_org info"
      "gap_repo g = ri_repo info" "gap_symbols g = symbols"
    using assms by (auto simp: repo_gaps_def Let_def split: if_splits option.splits)
  have "evidence js rg nodes (children repo_id) (gap_language g) (gap_stored_version g)"
    using gaps_loop_evidence [OF r(2) g(2)] by simp
  then show ?thesis using g r(1) by (auto simp: suspects_of_def)
qed

lemma gaps_of_origin:
  "\<lbrakk>gaps_of js rg names nodes children infos gaps = Inr gaps'; g \<in> set gaps'\<rbrakk> \<Longrightarrow>
     g \<in> set gaps \<or> (\<exists>info new. repo_gaps js rg names nodes children info = Inr new \<and> g \<in> set new)"
proof (induction infos arbitrary: gaps)
  case (Cons info infos)
  then show ?case by (fastforce simp: bindE_eq_Inr_iff)
qed simp

text \<open>
  A reported gap is a real one. Every gap names a language that no registered extractor handles and
  that has stored symbols, and a file node of that repository and language whose fingerprint carries the
  reported version, which is not the version files are indexed with now, that of the fallback.
\<close>

theorem extractor_gaps_sound:
  assumes "extractor_gaps_in js rg rt names nodes children org repo = Inr gaps" and "g \<in> set gaps"
  shows "\<not> registry_has rg (gap_language g) \<and> 0 < gap_symbols g \<and> gap_stored_version g \<noteq> fallback_version \<and>
    (\<exists>repo_id. repo_id_in names (gap_org g) (gap_repo g) = Some repo_id \<and>
       evidence js rg nodes (children repo_id) (gap_language g) (gap_stored_version g))"
proof -
  obtain info new where "repo_gaps js rg names nodes children info = Inr new" "g \<in> set new"
    using assms by (auto simp: extractor_gaps_in_def bindE_eq_Inr_iff dest!: gaps_of_origin)
  note sound = repo_gaps_sound [OF this]
  then have "gap_stored_version g \<noteq> fallback_version"
    by (auto simp: evidence_def registry_has_def registry_version_def)
  then show ?thesis using sound by blast
qed

definition gap_node :: node where
  "gap_node = \<lparr>n_id = 3, n_parent = Some 2, n_kind = File, n_name = ''a'', n_language = Some ''x'', n_symbol_kind = None,
     n_lang_kind = None, n_token_class = None, n_has_errors = False, n_origin = None,
     n_fingerprint = Some ''sha256:00|x|v9|1'', n_encoding = None, n_lossy = False, n_span = None\<rparr>"

definition gap_json :: json where
  "gap_json = \<lparr>js_to_vec = (\<lambda>_. []), js_from_slice = (\<lambda>_. Inr gap_node)\<rparr>"

definition gap_reads :: describe_reads where
  "gap_reads =
     \<lparr>rt_catalog = Inr (Inr [Inr (nul_join [''r'', ''o'', ''r''], 1), Inr (nul_join [''s'', ''o'', ''r'', ''x''], 7)]),
      rt_open_batch = Inl (TableDoesNotExist ''open_batch'')\<rparr>"

definition gap_names :: "string \<rightharpoonup> node_id" where
  "gap_names = [name_key None Org ''o'' \<mapsto> 1, name_key (Some 1) Repo ''r'' \<mapsto> 2]"

definition gap_found :: extractor_gap where
  "gap_found = \<lparr>gap_org = ''o'', gap_repo = ''r'', gap_language = ''x'', gap_stored_version = ''v9'', gap_symbols = 7\<rparr>"

lemma gap_reported:
  "extractor_gaps_in gap_json registry_default gap_reads gap_names (\<lambda>_. Some []) (\<lambda>_. [3]) None None = Inr [gap_found]"
  by code_simp

theorem extractor_gaps_sound_witness:
  "gap_stored_version gap_found \<noteq> fallback_version \<and>
   evidence gap_json registry_default (\<lambda>_. Some []) [3] (gap_language gap_found) (gap_stored_version gap_found)"
  using extractor_gaps_sound [OF gap_reported, of gap_found] by auto

end
