(* ===== verification/Raft_Log.thy ===== *)
theory Raft_Log
  imports Schema Ordered_Table
begin

text \<open>
  The log of the Raft node, crates/graph-server/src/raft/log_store.rs: the framing of an entry, the table of
  entries by index, the stored vote, commit and purge points, the operations openraft calls, and the rule
  that decides a compaction. The JSON of serde_json is a parameter. Each operation is one redb
  transaction, so one atomic step here; the retries of a transaction that met a full disk are those of
  theory Disk_Stall. An openraft storage error is the store error it wraps.
\<close>

subsection \<open>Entries\<close>

record log_id =
  lg_term :: u64
  lg_node :: u64
  lg_index :: u64

datatype 'm payload = Blank | Normal "u8 list" | Membership 'm

record 'm entry =
  en_log_id :: log_id
  en_payload :: "'m payload"

text \<open>\<open>to_le_bytes\<close> and \<open>from_le_bytes\<close>.\<close>

primrec to_le :: "nat \<Rightarrow> nat \<Rightarrow> u8 list" where
  "to_le 0 n = []"
| "to_le (Suc k) n = of_nat (n mod 256) # to_le k (n div 256)"

primrec from_le :: "u8 list \<Rightarrow> nat" where
  "from_le [] = 0"
| "from_le (b # bs) = unat b + 256 * from_le bs"

definition to_le_bytes :: "u64 \<Rightarrow> u8 list" where
  "to_le_bytes w = to_le 8 (unat w)"

definition from_le_bytes :: "u8 list \<Rightarrow> u64" where
  "from_le_bytes bs = of_nat (from_le bs)"

record 'm codec_json =
  cj_to_vec :: "'m \<Rightarrow> u8 list"
  cj_from_slice :: "u8 list \<Rightarrow> string + 'm"

definition KIND_BLANK :: u8 where "KIND_BLANK = 0"
definition KIND_NORMAL :: u8 where "KIND_NORMAL = 1"
definition KIND_MEMBERSHIP :: u8 where "KIND_MEMBERSHIP = 2"

definition encode_entry :: "'m codec_json \<Rightarrow> 'm entry \<Rightarrow> u8 list" where
  "encode_entry mj e =
     (let (kind, payload) =
        (case en_payload e of
           Blank \<Rightarrow> (KIND_BLANK, [])
         | Normal command \<Rightarrow> (KIND_NORMAL, command)
         | Membership m \<Rightarrow> (KIND_MEMBERSHIP, cj_to_vec mj m))
      in [kind] @ to_le_bytes (lg_term (en_log_id e)) @ to_le_bytes (lg_node (en_log_id e)) @
         to_le_bytes (lg_index (en_log_id e)) @ payload)"

definition decode_entry :: "'m codec_json \<Rightarrow> u8 list \<Rightarrow> 'm entry result" where
  "decode_entry mj bytes =
     (if length bytes < 25 then
        Inl (Corrupt (''raft log entry is '' @ show_nat (length bytes) @ '' bytes, expected at least 25''))
      else
        let u = (\<lambda>i. from_le_bytes (take 8 (drop i bytes)));
            log_id = \<lparr>lg_term = u 1, lg_node = u 9, lg_index = u 17\<rparr>;
            payload = drop 25 bytes
        in bindE
             (if bytes ! 0 = KIND_BLANK then Inr Blank
              else if bytes ! 0 = KIND_NORMAL then Inr (Normal payload)
              else if bytes ! 0 = KIND_MEMBERSHIP then
                (case cj_from_slice mj payload of
                   Inl e \<Rightarrow> Inl (Corrupt (''raft log membership entry: '' @ e))
                 | Inr m \<Rightarrow> Inr (Membership m))
              else Inl (Corrupt (''raft log entry kind '' @ show_nat (unat (bytes ! 0)) @ '' is unknown'')))
             (\<lambda>payload. Inr \<lparr>en_log_id = log_id, en_payload = payload\<rparr>))"

subsection \<open>The store\<close>

text \<open>\<open>ls_log\<close> is the table raft_log, \<open>ls_meta\<close> the table raft_meta.\<close>

record log_store =
  ls_log :: "(u64 \<times> u8 list) list"
  ls_meta :: "string \<rightharpoonup> u8 list"

definition log_open :: log_store where
  "log_open = \<lparr>ls_log = [], ls_meta = Map.empty\<rparr>"

definition K_VOTE :: string where "K_VOTE = ''vote''"
definition K_COMMITTED :: string where "K_COMMITTED = ''committed''"
definition K_PURGED :: string where "K_PURGED = ''last_purged''"

datatype bound = Included u64 | Excluded u64 | Unbounded

fun above :: "bound \<Rightarrow> u64 \<Rightarrow> bool" where
  "above (Included b) i \<longleftrightarrow> b \<le> i"
| "above (Excluded b) i \<longleftrightarrow> b < i"
| "above Unbounded i \<longleftrightarrow> True"

fun below :: "bound \<Rightarrow> u64 \<Rightarrow> bool" where
  "below (Included b) i \<longleftrightarrow> i \<le> b"
| "below (Excluded b) i \<longleftrightarrow> i < b"
| "below Unbounded i \<longleftrightarrow> True"

definition rows_in :: "bound \<Rightarrow> bound \<Rightarrow> log_store \<Rightarrow> (u64 \<times> u8 list) list" where
  "rows_in lo hi st = filter (\<lambda>r. above lo (fst r) \<and> below hi (fst r)) (ls_log st)"

definition meta :: "'a codec_json \<Rightarrow> string \<Rightarrow> log_store \<Rightarrow> 'a option result" where
  "meta cj key st =
     (case ls_meta st key of
        None \<Rightarrow> Inr None
      | Some v \<Rightarrow>
          (case cj_from_slice cj v of Inl e \<Rightarrow> Inl (Storage e) | Inr x \<Rightarrow> Inr (Some x)))"

definition set_meta :: "'a codec_json \<Rightarrow> string \<Rightarrow> 'a \<Rightarrow> log_store \<Rightarrow> log_store" where
  "set_meta cj key value st = st\<lparr>ls_meta := (ls_meta st)(key \<mapsto> cj_to_vec cj value)\<rparr>"

definition last_log_id :: "'m codec_json \<Rightarrow> log_store \<Rightarrow> log_id option result" where
  "last_log_id mj st =
     (if ls_log st = [] then Inr None
      else bindE (decode_entry mj (snd (last (ls_log st)))) (\<lambda>e. Inr (Some (en_log_id e))))"

definition delete_range :: "bound \<Rightarrow> bound \<Rightarrow> log_store \<Rightarrow> log_store" where
  "delete_range lo hi st = st\<lparr>ls_log := fold bt_del (map fst (rows_in lo hi st)) (ls_log st)\<rparr>"

fun read_rows :: "'m codec_json \<Rightarrow> (u64 \<times> u8 list) list \<Rightarrow> 'm entry list \<Rightarrow> 'm entry list result" where
  "read_rows mj [] out = Inr out"
| "read_rows mj ((_, v) # rows) out = bindE (decode_entry mj v) (\<lambda>e. read_rows mj rows (out @ [e]))"

definition try_get_log_entries :: "'m codec_json \<Rightarrow> bound \<Rightarrow> bound \<Rightarrow> log_store \<Rightarrow> 'm entry list result" where
  "try_get_log_entries mj lo hi st = read_rows mj (rows_in lo hi st) []"

record log_state =
  st_last_purged :: "log_id option"
  st_last_log :: "log_id option"

definition get_log_state :: "'m codec_json \<Rightarrow> log_id codec_json \<Rightarrow> log_store \<Rightarrow> log_state result" where
  "get_log_state mj lj st =
     bindE (meta lj K_PURGED st) (\<lambda>last_purged.
     bindE (last_log_id mj st) (\<lambda>last_log.
       Inr \<lparr>st_last_purged = last_purged,
            st_last_log = (case last_log of Some i \<Rightarrow> Some i | None \<Rightarrow> last_purged)\<rparr>))"

definition last_index :: "'m codec_json \<Rightarrow> log_id codec_json \<Rightarrow> log_store \<Rightarrow> u64 option result" where
  "last_index mj lj st =
     bindE (last_log_id mj st) (\<lambda>last_log.
     bindE (meta lj K_PURGED st) (\<lambda>purged.
       Inr (map_option lg_index (case last_log of Some i \<Rightarrow> Some i | None \<Rightarrow> purged))))"

definition bytes_between :: "u64 \<Rightarrow> u64 \<Rightarrow> log_store \<Rightarrow> nat" where
  "bytes_between after until st =
     (if until \<le> after then 0
      else sum_list (map (\<lambda>r. length (snd r)) (rows_in (Excluded after) (Included until) st)))"

definition append_entries :: "'m codec_json \<Rightarrow> 'm entry list \<Rightarrow> log_store \<Rightarrow> log_store" where
  "append_entries mj es st =
     st\<lparr>ls_log := fold (\<lambda>e t. bt_put (lg_index (en_log_id e)) (encode_entry mj e) t) es (ls_log st)\<rparr>"

definition truncate_log :: "log_id \<Rightarrow> log_store \<Rightarrow> log_store" where
  "truncate_log i st = delete_range (Included (lg_index i)) Unbounded st"

definition purge :: "log_id codec_json \<Rightarrow> log_id \<Rightarrow> log_store \<Rightarrow> log_store" where
  "purge lj i st = delete_range Unbounded (Included (lg_index i)) (set_meta lj K_PURGED i st)"

definition save_vote :: "'v codec_json \<Rightarrow> 'v \<Rightarrow> log_store \<Rightarrow> log_store" where
  "save_vote vj v st = set_meta vj K_VOTE v st"

definition read_vote :: "'v codec_json \<Rightarrow> log_store \<Rightarrow> 'v option result" where
  "read_vote vj st = meta vj K_VOTE st"

definition save_committed :: "log_id option codec_json \<Rightarrow> log_id option \<Rightarrow> log_store \<Rightarrow> log_store" where
  "save_committed oj c st = set_meta oj K_COMMITTED c st"

text \<open>
  \<open>save_committed\<close> writes the JSON of an optional log id; \<open>read_committed\<close> parses that of a log id, and
  \<open>committed_index\<close> that of an optional one.
\<close>

definition read_committed :: "log_id codec_json \<Rightarrow> log_store \<Rightarrow> log_id option result" where
  "read_committed lj st = meta lj K_COMMITTED st"

definition committed_index :: "log_id option codec_json \<Rightarrow> log_store \<Rightarrow> u64 option" where
  "committed_index oj st =
     (case meta oj K_COMMITTED st of Inr (Some (Some i)) \<Rightarrow> Some (lg_index i) | _ \<Rightarrow> None)"

definition log_len :: "log_store \<Rightarrow> nat" where
  "log_len st = length (ls_log st)"

definition log_is_empty :: "log_store \<Rightarrow> bool" where
  "log_is_empty st \<longleftrightarrow> log_len st = 0"

record log_probe =
  lp_exists :: bool
  lp_vote :: bool
  lp_entries :: nat
  lp_purged :: bool

definition probe :: "log_store option \<Rightarrow> log_probe" where
  "probe file =
     (case file of
        None \<Rightarrow> \<lparr>lp_exists = False, lp_vote = False, lp_entries = 0, lp_purged = False\<rparr>
      | Some st \<Rightarrow>
          \<lparr>lp_exists = True, lp_vote = (ls_meta st K_VOTE \<noteq> None), lp_entries = length (ls_log st),
           lp_purged = (ls_meta st K_PURGED \<noteq> None)\<rparr>)"

definition is_blank :: "log_probe \<Rightarrow> bool" where
  "is_blank p \<longleftrightarrow> \<not> lp_vote p \<and> lp_entries p = 0 \<and> \<not> lp_purged p"

subsection \<open>Compaction\<close>

definition COMPACT_SLACK :: nat where "COMPACT_SLACK = 2 ^ 20"
definition COMPACT_MAX_LIVE :: nat where "COMPACT_MAX_LIVE = 64 * 2 ^ 20"

definition saturating_u64 :: "nat \<Rightarrow> nat" where
  "saturating_u64 n = min n (2 ^ 64 - 1)"

text \<open>
  Why a purge does not compact, or the new value of \<open>compacted_bytes\<close> when it does. \<open>closing\<close> is read before
  and once more under the lock, \<open>live\<close> is \<open>None\<close> when the page statistics cannot be read, and \<open>after\<close> is the
  size of the file afterwards, whether \<open>compact\<close> succeeded or not.
\<close>

definition compact_if_sparse ::
  "bool \<Rightarrow> bool \<Rightarrow> nat \<Rightarrow> nat \<Rightarrow> nat option \<Rightarrow> nat \<Rightarrow> bool \<Rightarrow> nat \<Rightarrow> string + nat" where
  "compact_if_sparse closing closed file floor live max_live closing' after =
     (if closing then Inl ''closing''
      else if closed then Inl ''closed for a reopen''
      else if file < saturating_u64 (floor + COMPACT_SLACK) then Inl ''under the floor''
      else (case live of
              None \<Rightarrow> Inl ''page stats failed''
            | Some live \<Rightarrow>
                if file < saturating_u64 (saturating_u64 (live * 2) + COMPACT_SLACK) then Inl ''within twice live''
                else if live > max_live then Inl ''above the cap''
                else if closing' then Inl ''closing''
                else Inr after))"

subsection \<open>Entry framing\<close>

lemma length_to_le [simp]: "length (to_le k n) = k"
  by (induction k arbitrary: n) simp_all

lemma from_to_le: "n < 256 ^ k \<Longrightarrow> from_le (to_le k n) = n"
proof (induction k arbitrary: n)
  case (Suc k)
  have "n div 256 < 256 ^ k" using Suc.prems by (simp add: less_mult_imp_div_less mult.commute)
  moreover have "unat (of_nat (n mod 256) :: u8) = n mod 256" by (simp add: unat_of_nat)
  ultimately show ?case using Suc.IH by simp
qed simp

lemma from_to_le_bytes [simp]: "from_le_bytes (to_le_bytes w) = w"
proof -
  have "unat w < 256 ^ 8" using unsigned_less [of w, where ?'a = nat] by simp
  then show ?thesis by (simp add: from_le_bytes_def to_le_bytes_def from_to_le)
qed

lemma length_to_le_bytes [simp]: "length (to_le_bytes w) = 8"
  by (simp add: to_le_bytes_def)

definition inverse_json :: "'a codec_json \<Rightarrow> bool" where
  "inverse_json cj \<longleftrightarrow> (\<forall>x. cj_from_slice cj (cj_to_vec cj x) = Inr x)"

lemma decode_encode_entry:
  assumes "inverse_json mj"
  shows "decode_entry mj (encode_entry mj e) = Inr e"
proof -
  obtain t n i p where e: "e = \<lparr>en_log_id = \<lparr>lg_term = t, lg_node = n, lg_index = i\<rparr>, en_payload = p\<rparr>"
    by (cases e; cases "en_log_id e") (metis entry.surjective log_id.surjective old.unit.exhaust)
  show ?thesis
    using assms by (cases p) (simp_all add: e encode_entry_def decode_entry_def Let_def drop_Cons' inverse_json_def
        KIND_BLANK_def KIND_NORMAL_def KIND_MEMBERSHIP_def)
qed

subsection \<open>The abstract log\<close>

text \<open>
  What openraft is promised: a list of entries after a purge point, a vote and a commit point. The
  operations it calls, and when it may call them: appended entries continue the log without a gap,
  nothing is truncated below the purge point, and the purge point never moves back or ahead of a gap.
\<close>

record ('m, 'v) abstract_log =
  al_purged :: "log_id option"
  al_entries :: "'m entry list"
  al_vote :: "'v option"
  al_committed :: "log_id option option"

definition al_init :: "('m, 'v) abstract_log" where
  "al_init = \<lparr>al_purged = None, al_entries = [], al_vote = None, al_committed = None\<rparr>"

datatype ('m, 'v) log_op =
    Append "'m entry list" | Truncate log_id | Purge log_id | SaveVote 'v | SaveCommitted "log_id option"

abbreviation index_of :: "'m entry \<Rightarrow> u64" where
  "index_of e \<equiv> lg_index (en_log_id e)"

fun al_step :: "('m, 'v) log_op \<Rightarrow> ('m, 'v) abstract_log \<Rightarrow> ('m, 'v) abstract_log" where
  "al_step (Append es) a = a\<lparr>al_entries := al_entries a @ es\<rparr>"
| "al_step (Truncate i) a = a\<lparr>al_entries := filter (\<lambda>e. index_of e < lg_index i) (al_entries a)\<rparr>"
| "al_step (Purge i) a =
     a\<lparr>al_purged := Some i, al_entries := filter (\<lambda>e. lg_index i < index_of e) (al_entries a)\<rparr>"
| "al_step (SaveVote v) a = a\<lparr>al_vote := Some v\<rparr>"
| "al_step (SaveCommitted c) a = a\<lparr>al_committed := Some c\<rparr>"

definition al_last :: "('m, 'v) abstract_log \<Rightarrow> log_id option" where
  "al_last a = (if al_entries a = [] then al_purged a else Some (en_log_id (last (al_entries a))))"

text \<open>Consecutive indexes from \<open>n\<close>.\<close>

fun run_from :: "nat \<Rightarrow> 'm entry list \<Rightarrow> bool" where
  "run_from n [] \<longleftrightarrow> True"
| "run_from n (e # es) \<longleftrightarrow> unat (index_of e) = n \<and> run_from (Suc n) es"

fun allowed :: "('m, 'v) log_op \<Rightarrow> ('m, 'v) abstract_log \<Rightarrow> bool" where
  "allowed (Append es) a \<longleftrightarrow>
     (case al_last a of None \<Rightarrow> (\<exists>n. run_from n es) | Some i \<Rightarrow> run_from (Suc (unat (lg_index i))) es)"
| "allowed (Truncate i) a \<longleftrightarrow> (case al_purged a of None \<Rightarrow> True | Some p \<Rightarrow> lg_index p < lg_index i)"
| "allowed (Purge i) a \<longleftrightarrow>
     (case al_purged a of None \<Rightarrow> True | Some p \<Rightarrow> lg_index p \<le> lg_index i) \<and>
     (al_entries a = [] \<or> unat (index_of (hd (al_entries a))) \<le> Suc (unat (lg_index i)))"
| "allowed _ a \<longleftrightarrow> True"

fun allowed_run :: "('m, 'v) log_op list \<Rightarrow> ('m, 'v) abstract_log \<Rightarrow> bool" where
  "allowed_run [] a \<longleftrightarrow> True"
| "allowed_run (op # ops) a \<longleftrightarrow> allowed op a \<and> allowed_run ops (al_step op a)"

text \<open>No gap, and none after the purge point.\<close>

definition al_ok :: "('m, 'v) abstract_log \<Rightarrow> bool" where
  "al_ok a \<longleftrightarrow>
     (\<exists>n. run_from n (al_entries a) \<and>
        (al_entries a = [] \<or> (case al_purged a of None \<Rightarrow> True | Some p \<Rightarrow> n = Suc (unat (lg_index p)))))"

subsection \<open>The invariant of the abstract log\<close>

lemma run_from_append: "run_from n (xs @ ys) \<longleftrightarrow> run_from n xs \<and> run_from (n + length xs) ys"
  by (induction xs arbitrary: n) auto

lemma run_from_last: "\<lbrakk>run_from n es; es \<noteq> []\<rbrakk> \<Longrightarrow> Suc (unat (index_of (last es))) = n + length es"
proof (induction es arbitrary: n)
  case (Cons e es)
  then show ?case using Cons.IH [of "Suc n"] by (cases "es = []") auto
qed simp

lemma run_from_mem: "\<lbrakk>run_from n es; e \<in> set es\<rbrakk> \<Longrightarrow> n \<le> unat (index_of e)"
  by (induction es arbitrary: n) (auto dest: Suc_leD)

lemma run_from_filter_below: "run_from n es \<Longrightarrow> run_from n (filter (\<lambda>e. index_of e < i) es)"
proof (induction es arbitrary: n)
  case (Cons e es)
  show ?case
  proof (cases "index_of e < i")
    case False
    have "\<not> index_of x < i" if "x \<in> set es" for x
      using False run_from_mem [of "Suc n" es x] Cons.prems that by (auto simp: word_less_nat_alt)
    then have "filter (\<lambda>e. index_of e < i) es = []" by (simp add: filter_empty_conv)
    then show ?thesis using False by simp
  qed (use Cons in simp)
qed simp

lemma run_from_filter_above:
  "\<lbrakk>run_from n es; n \<le> Suc (unat i)\<rbrakk> \<Longrightarrow> run_from (Suc (unat i)) (filter (\<lambda>e. i < index_of e) es)"
proof (induction es arbitrary: n)
  case (Cons e es)
  show ?case
  proof (cases "i < index_of e")
    case True
    then have n: "n = Suc (unat i)" using Cons.prems by (simp add: word_less_nat_alt)
    have "i < index_of x" if "x \<in> set es" for x
      using run_from_mem [of "Suc n" es x] Cons.prems that n by (simp add: word_less_nat_alt)
    then have "filter (\<lambda>e. i < index_of e) es = es" by simp
    then show ?thesis using True Cons.prems n by simp
  next
    case False
    then have "Suc n \<le> Suc (unat i)" using Cons.prems by (simp add: word_less_nat_alt)
    then show ?thesis using False Cons.IH [of "Suc n"] Cons.prems by simp
  qed
qed simp

lemma al_step_ok: "\<lbrakk>al_ok a; allowed op a\<rbrakk> \<Longrightarrow> al_ok (al_step op a)"
proof (cases op)
  case (Append es)
  assume "al_ok a" "allowed op a"
  then show ?thesis
    by (cases "al_entries a = []"; cases "al_purged a")
      (auto simp: Append al_ok_def al_last_def run_from_append run_from_last split: option.splits)
next
  case (Truncate i)
  assume "al_ok a" "allowed op a"
  then show ?thesis unfolding Truncate al_ok_def by (auto intro: run_from_filter_below)
next
  case (Purge i)
  assume ok: "al_ok a" and al: "allowed op a"
  obtain n where n: "run_from n (al_entries a)" using ok by (auto simp: al_ok_def)
  have "run_from (Suc (unat (lg_index i))) (filter (\<lambda>e. lg_index i < index_of e) (al_entries a))"
  proof (cases "al_entries a")
    case (Cons e es)
    then have "n \<le> Suc (unat (lg_index i))" using n al by (simp add: Purge)
    then show ?thesis by (rule run_from_filter_above [OF n])
  qed simp
  then show ?thesis by (auto simp: Purge al_ok_def)
qed (simp_all add: al_ok_def)


subsection \<open>The store implements it\<close>

definition row_of :: "'m codec_json \<Rightarrow> 'm entry \<Rightarrow> u64 \<times> u8 list" where
  "row_of mj e = (index_of e, encode_entry mj e)"

text \<open>The parameters of the store: the JSON of memberships, log ids, votes and commit points.\<close>

record ('m, 'v) raft_json =
  rj_member :: "'m codec_json"
  rj_log_id :: "log_id codec_json"
  rj_vote :: "'v codec_json"
  rj_committed :: "log_id option codec_json"

text \<open>
  What is relied on of serde_json: parsing undoes printing, and an optional value that is there prints as the
  value.
\<close>

definition raft_json_ok :: "('m, 'v) raft_json \<Rightarrow> bool" where
  "raft_json_ok rj \<longleftrightarrow>
     inverse_json (rj_member rj) \<and> inverse_json (rj_log_id rj) \<and> inverse_json (rj_vote rj) \<and> inverse_json (rj_committed rj) \<and>
     (\<forall>i. cj_to_vec (rj_committed rj) (Some i) = cj_to_vec (rj_log_id rj) i)"

fun ls_step :: "('m, 'v) raft_json \<Rightarrow> ('m, 'v) log_op \<Rightarrow> log_store \<Rightarrow> log_store" where
  "ls_step rj (Append es) st = append_entries (rj_member rj) es st"
| "ls_step rj (Truncate i) st = truncate_log i st"
| "ls_step rj (Purge i) st = purge (rj_log_id rj) i st"
| "ls_step rj (SaveVote v) st = save_vote (rj_vote rj) v st"
| "ls_step rj (SaveCommitted c) st = save_committed (rj_committed rj) c st"

definition implements :: "('m, 'v) raft_json \<Rightarrow> log_store \<Rightarrow> ('m, 'v) abstract_log \<Rightarrow> bool" where
  "implements rj st a \<longleftrightarrow>
     ls_log st = map (row_of (rj_member rj)) (al_entries a) \<and>
     ls_meta st K_PURGED = map_option (cj_to_vec (rj_log_id rj)) (al_purged a) \<and>
     ls_meta st K_VOTE = map_option (cj_to_vec (rj_vote rj)) (al_vote a) \<and>
     ls_meta st K_COMMITTED = map_option (cj_to_vec (rj_committed rj)) (al_committed a)"

lemma meta_keys [simp]:
  "K_PURGED \<noteq> K_VOTE" "K_PURGED \<noteq> K_COMMITTED" "K_VOTE \<noteq> K_COMMITTED"
  "K_VOTE \<noteq> K_PURGED" "K_COMMITTED \<noteq> K_PURGED" "K_COMMITTED \<noteq> K_VOTE"
  by (simp_all add: K_PURGED_def K_VOTE_def K_COMMITTED_def)

lemma bt_put_above: "\<forall>r \<in> set t. fst r < k \<Longrightarrow> bt_put k v t = t @ [(k, v)]"
  by (induction k v t rule: bt_put.induct) auto

lemma run_from_less: "\<lbrakk>run_from n es; e \<in> set es\<rbrakk> \<Longrightarrow> unat (index_of e) < n + length es"
  by (induction es arbitrary: n) (fastforce+)

lemma append_rows:
  "\<lbrakk>run_from n es; \<forall>r \<in> set t. unat (fst r) < n\<rbrakk> \<Longrightarrow>
     fold (\<lambda>e t. bt_put (index_of e) (encode_entry mj e) t) es t = t @ map (row_of mj) es"
proof (induction es arbitrary: n t)
  case (Cons e es)
  have "bt_put (index_of e) (encode_entry mj e) t = t @ [row_of mj e]"
    using Cons.prems by (simp add: bt_put_above row_of_def word_less_nat_alt)
  moreover have "\<forall>r \<in> set (t @ [row_of mj e]). unat (fst r) < Suc n"
    using Cons.prems by (auto simp: row_of_def less_Suc_eq)
  ultimately show ?case using Cons.IH [of "Suc n" "t @ [row_of mj e]"] Cons.prems by simp
qed simp

lemma fold_bt_del: "fold bt_del ks t = filter (\<lambda>r. fst r \<notin> set ks) t"
  by (induction ks arbitrary: t) (simp_all add: bt_del_def conj_commute)

lemma delete_range_log:
  "ls_log (delete_range lo hi st) = filter (\<lambda>r. \<not> (above lo (fst r) \<and> below hi (fst r))) (ls_log st)"
  by (auto simp: delete_range_def fold_bt_del rows_in_def image_iff intro: filter_cong)

lemma delete_range_meta [simp]: "ls_meta (delete_range lo hi st) = ls_meta st"
  by (simp add: delete_range_def)

lemma filter_rows: "filter (\<lambda>r. P (fst r)) (map (row_of mj) es) = map (row_of mj) (filter (\<lambda>e. P (index_of e)) es)"
  by (simp add: filter_map o_def row_of_def)

lemma implements_step:
  assumes "implements rj st a" and "al_ok a" and "allowed op a"
  shows "implements rj (ls_step rj op st) (al_step op a)"
proof (cases op)
  case (Append es)
  obtain n where n: "run_from n es" "\<forall>e \<in> set (al_entries a). unat (index_of e) < n"
  proof (cases "al_entries a = []")
    case True
    then show ?thesis using assms(3) that by (auto simp: Append split: option.splits)
  next
    case False
    obtain k where k: "run_from k (al_entries a)" using assms(2) by (auto simp: al_ok_def)
    then have "run_from (k + length (al_entries a)) es"
      using assms(3) False run_from_last [OF k False] by (simp add: Append al_last_def)
    then show ?thesis using that run_from_less [OF k] by blast
  qed
  then have "fold (\<lambda>e t. bt_put (index_of e) (encode_entry (rj_member rj) e) t) es (ls_log st) =
      ls_log st @ map (row_of (rj_member rj)) es"
    using assms(1) by (intro append_rows) (auto simp: implements_def row_of_def)
  then show ?thesis using assms(1) by (simp add: Append implements_def append_entries_def)
next
  case (Truncate i)
  then show ?thesis using assms(1)
    by (simp add: implements_def truncate_log_def delete_range_log not_le filter_rows [where P = "\<lambda>x. x < lg_index i"])
next
  case (Purge i)
  then show ?thesis using assms(1)
    by (simp add: implements_def purge_def delete_range_log set_meta_def not_le filter_rows [where P = "\<lambda>x. lg_index i < x"])
qed (use assms(1) in \<open>simp_all add: implements_def save_vote_def save_committed_def set_meta_def\<close>)

lemma implements_run:
  "\<lbrakk>implements rj st a; al_ok a; allowed_run ops a\<rbrakk> \<Longrightarrow>
     implements rj (fold (ls_step rj) ops st) (fold al_step ops a) \<and> al_ok (fold al_step ops a)"
proof (induction ops arbitrary: st a)
  case (Cons x ops)
  then have "implements rj (ls_step rj x st) (al_step x a)" "al_ok (al_step x a)" "allowed_run ops (al_step x a)"
    by (auto intro: implements_step al_step_ok)
  then show ?case using Cons.IH by simp
qed simp

subsection \<open>What the store answers\<close>

lemma read_rows_of:
  "inverse_json mj \<Longrightarrow> read_rows mj (map (row_of mj) es) out = Inr (out @ es)"
  by (induction es arbitrary: out) (simp_all add: row_of_def decode_encode_entry)

lemma meta_of:
  "\<lbrakk>inverse_json cj; ls_meta st k = map_option (cj_to_vec cj) x\<rbrakk> \<Longrightarrow> meta cj k st = Inr x"
  by (cases x) (simp_all add: meta_def inverse_json_def)

lemma last_log_id_of:
  assumes "inverse_json mj" and "ls_log st = map (row_of mj) es"
  shows "last_log_id mj st = Inr (if es = [] then None else Some (en_log_id (last es)))"
  using assms by (simp add: last_log_id_def last_map row_of_def decode_encode_entry)

lemma implements_reads:
  assumes "implements rj st a" and "raft_json_ok rj"
  shows "try_get_log_entries (rj_member rj) lo hi st =
      Inr (filter (\<lambda>e. above lo (index_of e) \<and> below hi (index_of e)) (al_entries a))"
    and "get_log_state (rj_member rj) (rj_log_id rj) st = Inr \<lparr>st_last_purged = al_purged a, st_last_log = al_last a\<rparr>"
    and "last_index (rj_member rj) (rj_log_id rj) st = Inr (map_option lg_index (al_last a))"
    and "read_vote (rj_vote rj) st = Inr (al_vote a)"
    and "committed_index (rj_committed rj) st =
      (case al_committed a of Some c \<Rightarrow> map_option lg_index c | None \<Rightarrow> None)"
    and "al_committed a \<noteq> Some None \<Longrightarrow>
      read_committed (rj_log_id rj) st = Inr (case al_committed a of Some c \<Rightarrow> c | None \<Rightarrow> None)"
proof -
  have j: "inverse_json (rj_member rj)" "inverse_json (rj_log_id rj)" "inverse_json (rj_vote rj)"
      "inverse_json (rj_committed rj)"
    using assms(2) by (simp_all add: raft_json_ok_def)
  have log: "ls_log st = map (row_of (rj_member rj)) (al_entries a)"
    and purged: "meta (rj_log_id rj) K_PURGED st = Inr (al_purged a)"
    using assms(1) j(2) by (simp_all add: implements_def meta_of)
  note last = last_log_id_of [OF j(1) log]
  show "try_get_log_entries (rj_member rj) lo hi st =
      Inr (filter (\<lambda>e. above lo (index_of e) \<and> below hi (index_of e)) (al_entries a))"
    by (simp add: try_get_log_entries_def rows_in_def log
        filter_rows [where P = "\<lambda>x. above lo x \<and> below hi x"] read_rows_of [OF j(1)])
  show "get_log_state (rj_member rj) (rj_log_id rj) st = Inr \<lparr>st_last_purged = al_purged a, st_last_log = al_last a\<rparr>"
    by (simp add: get_log_state_def purged last al_last_def)
  show "last_index (rj_member rj) (rj_log_id rj) st = Inr (map_option lg_index (al_last a))"
    by (simp add: last_index_def purged last al_last_def)
  show "read_vote (rj_vote rj) st = Inr (al_vote a)"
    using assms(1) j by (simp add: read_vote_def implements_def meta_of)
  have "meta (rj_committed rj) K_COMMITTED st = Inr (al_committed a)"
    using assms(1) j by (simp add: implements_def meta_of)
  then show "committed_index (rj_committed rj) st =
      (case al_committed a of Some c \<Rightarrow> map_option lg_index c | None \<Rightarrow> None)"
    by (simp add: committed_index_def split: option.splits)
  show "read_committed (rj_log_id rj) st = Inr (case al_committed a of Some c \<Rightarrow> c | None \<Rightarrow> None)"
    if "al_committed a \<noteq> Some None"
    using that assms j by (cases "al_committed a")
      (auto simp: read_committed_def meta_def implements_def raft_json_ok_def inverse_json_def)
qed

subsection \<open>Properties\<close>

text \<open>
  C30: the Raft log store implements the log openraft relies on. After any sequence of appends, truncations,
  purges and saves of vote and commit point, each called as openraft may call it, reading a range gives
  exactly the entries of that range, payloads and ids included, the log state, last index, vote and
  commit index are those of the abstract log, a saved commit point is read back unless it was saved as none,
  and the entries have consecutive indexes that start right after the purge point.
\<close>

theorem raft_log_refines:
  fixes rj :: "('m, 'v) raft_json"
  assumes "raft_json_ok rj" and "allowed_run ops al_init"
  shows "let st = fold (ls_step rj) ops log_open; a = fold al_step ops al_init
    in try_get_log_entries (rj_member rj) lo hi st =
         Inr (filter (\<lambda>e. above lo (index_of e) \<and> below hi (index_of e)) (al_entries a))
     \<and> get_log_state (rj_member rj) (rj_log_id rj) st = Inr \<lparr>st_last_purged = al_purged a, st_last_log = al_last a\<rparr>
     \<and> last_index (rj_member rj) (rj_log_id rj) st = Inr (map_option lg_index (al_last a))
     \<and> read_vote (rj_vote rj) st = Inr (al_vote a)
     \<and> committed_index (rj_committed rj) st = (case al_committed a of Some c \<Rightarrow> map_option lg_index c | None \<Rightarrow> None)
     \<and> (al_committed a \<noteq> Some None \<longrightarrow>
          read_committed (rj_log_id rj) st = Inr (case al_committed a of Some c \<Rightarrow> c | None \<Rightarrow> None))
     \<and> al_ok a"
proof -
  have "implements rj log_open (al_init :: ('m, 'v) abstract_log)" "al_ok (al_init :: ('m, 'v) abstract_log)"
    by (simp_all add: implements_def log_open_def al_init_def al_ok_def)
  then have run: "implements rj (fold (ls_step rj) ops log_open) (fold al_step ops al_init)" "al_ok (fold al_step ops al_init)"
    using implements_run assms(2) by blast+
  show ?thesis unfolding Let_def using implements_reads [OF run(1) assms(1)] run(2) by blast
qed

text \<open>
  C39: a log entry survives its framing, the encoding is 25 bytes and the payload, and no two entries have the
  same bytes.
\<close>

theorem log_entry_roundtrip:
  assumes "inverse_json mj"
  shows "decode_entry mj (encode_entry mj e) = Inr e
    \<and> length (encode_entry mj e) =
        25 + (case en_payload e of Blank \<Rightarrow> 0 | Normal c \<Rightarrow> length c | Membership m \<Rightarrow> length (cj_to_vec mj m))
    \<and> (encode_entry mj e = encode_entry mj e' \<longrightarrow> e = e')"
proof -
  have "e = e'" if "encode_entry mj e = encode_entry mj e'"
    by (rule Inr_inject [OF trans [OF sym [OF decode_encode_entry [OF assms, of e]]]])
      (simp only: that decode_encode_entry [OF assms])
  moreover have "length (encode_entry mj e) =
      25 + (case en_payload e of Blank \<Rightarrow> 0 | Normal c \<Rightarrow> length c | Membership m \<Rightarrow> length (cj_to_vec mj m))"
    by (cases "en_payload e") (simp_all add: encode_entry_def)
  ultimately show ?thesis using decode_encode_entry [OF assms] by blast
qed

text \<open>
  A purge compacts the log file only when the live log is within the cap that bounds the stall and more
  than half of the file is free, and after a compaction not again before the file has grown by a mebibyte.
\<close>

theorem compact_if_sparse_bounds:
  assumes "compact_if_sparse closing closed file floor live max_live closing' after = Inr floor'"
    and "file < 2 ^ 64 - 1"
  shows "(\<exists>l. live = Some l \<and> l \<le> max_live \<and> 2 * l + COMPACT_SLACK \<le> file) \<and> floor + COMPACT_SLACK \<le> file
    \<and> floor' = after \<and> \<not> closing \<and> \<not> closed \<and> \<not> closing'
    \<and> (\<forall>c d l m c' a. after + COMPACT_SLACK < 2 ^ 64 \<longrightarrow> file' < after + COMPACT_SLACK \<longrightarrow>
         (\<exists>why. compact_if_sparse c d file' floor' l m c' a = Inl why))"
proof -
  have less: "n \<le> file" if "\<not> file < saturating_u64 n" for n
    using that assms(2) unfolding saturating_u64_def by linarith
  have nested: "2 * l + COMPACT_SLACK \<le> file"
    if "\<not> file < saturating_u64 (saturating_u64 (l * 2) + COMPACT_SLACK)" for l
  proof -
    have sat: "saturating_u64 (l * 2) + COMPACT_SLACK \<le> file" using less [OF that] .
    then have "saturating_u64 (l * 2) = l * 2"
      using assms(2) unfolding saturating_u64_def by linarith
    then show ?thesis using sat by simp
  qed
  have c: "\<not> closing" "\<not> closed" "\<not> file < saturating_u64 (floor + COMPACT_SLACK)" "floor' = after"
    using assms(1) by (auto simp: compact_if_sparse_def split: if_splits option.splits)
  obtain l where l: "live = Some l" "\<not> file < saturating_u64 (saturating_u64 (l * 2) + COMPACT_SLACK)" "l \<le> max_live"
      "\<not> closing'"
    using assms(1) by (auto simp: compact_if_sparse_def split: if_splits option.splits)
  have "\<exists>why. compact_if_sparse c d file' floor' l m c' a = Inl why"
    if "after + COMPACT_SLACK < 2 ^ 64" "file' < after + COMPACT_SLACK" for c d l m c' a
  proof -
    have "saturating_u64 (after + COMPACT_SLACK) = after + COMPACT_SLACK"
      using that(1) by (simp add: saturating_u64_def)
    then show ?thesis using that(2) c(4) by (simp add: compact_if_sparse_def)
  qed
  then show ?thesis using c l nested [OF l(2)] less [OF c(3)] by blast
qed

subsection \<open>Witnesses\<close>

definition example_log_id :: "log_id codec_json" where
  "example_log_id =
     \<lparr>cj_to_vec = (\<lambda>i. to_le_bytes (lg_term i) @ to_le_bytes (lg_node i) @ to_le_bytes (lg_index i)),
      cj_from_slice = (\<lambda>b. if length b = 24
        then Inr \<lparr>lg_term = from_le_bytes (take 8 b), lg_node = from_le_bytes (take 8 (drop 8 b)),
                  lg_index = from_le_bytes (drop 16 b)\<rparr>
        else Inl ''not a log id'')\<rparr>"

definition example_raft_json :: "(u8 list, u8 list) raft_json" where
  "example_raft_json =
     \<lparr>rj_member = \<lparr>cj_to_vec = (\<lambda>b. b), cj_from_slice = Inr\<rparr>, rj_log_id = example_log_id,
      rj_vote = \<lparr>cj_to_vec = (\<lambda>b. b), cj_from_slice = Inr\<rparr>,
      rj_committed = \<lparr>cj_to_vec = (\<lambda>c. case c of None \<Rightarrow> [] | Some i \<Rightarrow> cj_to_vec example_log_id i),
        cj_from_slice = (\<lambda>b. if b = [] then Inr None
          else case cj_from_slice example_log_id b of Inl e \<Rightarrow> Inl e | Inr i \<Rightarrow> Inr (Some i))\<rparr>\<rparr>"

lemma example_log_id_inverse: "inverse_json example_log_id"
  by (simp add: inverse_json_def example_log_id_def)

lemma example_raft_json_ok: "raft_json_ok example_raft_json"
proof -
  have "cj_to_vec example_log_id i \<noteq> []" for i
    using length_to_le_bytes [of "lg_term i"] by (auto simp: example_log_id_def simp del: length_to_le_bytes)
  then show ?thesis
    using example_log_id_inverse
    by (auto simp: raft_json_ok_def example_raft_json_def inverse_json_def example_log_id_def split: option.splits)
qed

definition example_entry :: "u64 \<Rightarrow> u8 list payload \<Rightarrow> u8 list entry" where
  "example_entry i p = \<lparr>en_log_id = \<lparr>lg_term = 1, lg_node = 2, lg_index = i\<rparr>, en_payload = p\<rparr>"

definition example_ops :: "(u8 list, u8 list) log_op list" where
  "example_ops =
     [Append [example_entry 0 Blank, example_entry 1 (Normal [7]), example_entry 2 (Membership [8])], SaveVote [1],
      Truncate (en_log_id (example_entry 2 Blank)), Append [example_entry 2 (Normal [9])],
      SaveCommitted (Some (en_log_id (example_entry 1 Blank))), Purge (en_log_id (example_entry 0 Blank))]"

lemma example_ops_allowed: "allowed_run example_ops al_init"
  by (simp add: example_ops_def al_init_def al_last_def example_entry_def)

theorem raft_log_refines_witness:
  "try_get_log_entries (rj_member example_raft_json) (Included 1) Unbounded (fold (ls_step example_raft_json) example_ops log_open) =
     Inr [example_entry 1 (Normal [7]), example_entry 2 (Normal [9])]"
  using raft_log_refines [OF example_raft_json_ok example_ops_allowed, of "Included 1" Unbounded]
  by (simp add: Let_def example_ops_def al_init_def example_entry_def)

theorem log_entry_roundtrip_witness:
  "decode_entry (rj_member example_raft_json) (encode_entry (rj_member example_raft_json) (example_entry 5 (Membership [8, 9]))) =
     Inr (example_entry 5 (Membership [8, 9]))"
proof -
  have "inverse_json (rj_member example_raft_json)" by (simp add: inverse_json_def example_raft_json_def)
  then show ?thesis using log_entry_roundtrip by blast
qed

theorem compact_if_sparse_bounds_witness:
  "\<exists>why. compact_if_sparse False False 2000000 1500000 (Some 1000) COMPACT_MAX_LIVE False 1500000 = Inl why"
proof -
  have first: "compact_if_sparse False False 5000000 0 (Some 1000000) COMPACT_MAX_LIVE False 1500000 = Inr 1500000"
    by (simp add: compact_if_sparse_def saturating_u64_def COMPACT_SLACK_def COMPACT_MAX_LIVE_def)
  have "(5000000 :: nat) < 2 ^ 64 - 1" "1500000 + COMPACT_SLACK < 2 ^ 64" "2000000 < 1500000 + COMPACT_SLACK"
    by (simp_all add: COMPACT_SLACK_def)
  then show ?thesis using compact_if_sparse_bounds [OF first] by blast
qed

end
