(* ===== verification/Wire_Error.thy ===== *)
theory Wire_Error
  imports Tables Pattern "HOL-Library.Countable"
begin

text \<open>
  Errors on the wire, crates/graph-proto/src/error.rs: the text of a store error, the classification of full
  disks, poisoned databases and lost connections, the gRPC code of an error, the typed detail a status
  carries, and the way back. The protobuf encoding of prost and the Debug text of a gRPC code of tonic are
  parameters.
\<close>

subsection \<open>The text of an error\<close>

definition V2_SCHEMA_VERSION :: nat where "V2_SCHEMA_VERSION = 12"

fun not_leader_hint :: "u64 option \<Rightarrow> string option \<Rightarrow> string" where
  "not_leader_hint (Some i) (Some addr) = '' (leader is node '' @ show_nat (unat i) @ '' at '' @ addr @ '')''"
| "not_leader_hint (Some i) None = '' (leader is node '' @ show_nat (unat i) @ '')''"
| "not_leader_hint None (Some addr) = '' (leader is at '' @ addr @ '')''"
| "not_leader_hint None None = []"

fun schema_error_text :: "schema_error \<Rightarrow> string" where
  "schema_error_text (InvalidContainment p c) =
     ''invalid containment: '' @ node_kind_debug p @ '' cannot contain '' @ node_kind_debug c"

fun store_error_text :: "store_error \<Rightarrow> string" where
  "store_error_text (Locked m) = ''database is locked by another process: '' @ m"
| "store_error_text (SchemaMismatch found) =
     ''incompatible schema version '' @ show_nat (unat found) @ '' (this build supports '' @
     show_nat V2_SCHEMA_VERSION @ ''); database left unmodified''"
| "store_error_text (LegacyFormat path version) =
     ''database `'' @ path @ ''` is in the retired v1 format (schema version '' @ show_nat (unat version) @
     ''); this release reads only the v2 format. Re-index from source into a new file (recommended), or convert it with the last v1-capable release (git tag `v1-last`): `memory-graph migrate <new.redb>`''"
| "store_error_text (OpenFailed path reason) = ''cannot open database '' @ path @ '': '' @ reason"
| "store_error_text (Rejected m) = ''rejected: '' @ m"
| "store_error_text (NotUtf8 p) = ''rejected: '' @ p @ '' is not valid UTF-8''"
| "store_error_text (StrictEncoding path encoding) =
     ''rejected: `'' @ path @ ''` has byte sequences that are invalid in '' @ encoding @ '' (strict encoding)''"
| "store_error_text (Binary p) = ''rejected: '' @ p @ '' is binary''"
| "store_error_text (TooLarge p) = ''rejected: '' @ p @ '' is larger than 4 GiB''"
| "store_error_text (InvalidSpan m) = ''invalid span: '' @ m"
| "store_error_text (Corrupt m) = ''corrupt database: '' @ m"
| "store_error_text (SchemaErr e) = schema_error_text e"
| "store_error_text (Storage m) = ''storage error: '' @ m"
| "store_error_text (SnapshotExpired age max_age) =
     ''snapshot expired after '' @ show_nat (unat age) @ ''s (max age '' @ show_nat (unat max_age) @
     ''s); open a new snapshot with Store::snapshot''"
| "store_error_text (NotLeader i addr) = ''not the leader'' @ not_leader_hint i addr"
| "store_error_text (NoLeader ms) = ''no leader is currently known; retry after '' @ show_nat (unat ms) @ '' ms''"
| "store_error_text (Protocol m) = ''protocol error: '' @ m"
| "store_error_text (WrongCluster expected found) =
     ''wrong cluster: expected cluster '' @ expected @ '', found cluster '' @ found @
     ''; nothing was changed (a data directory belongs to one cluster for life: clear it to join another)''"
| "store_error_text (AlreadyApplied i) = ''raft marker '' @ show_nat (unat i) @ '' already applied''"
| "store_error_text (DeadlineExceeded m) = ''deadline exceeded: '' @ m"
| "store_error_text (Unauthenticated m) = ''unauthenticated: '' @ m"
| "store_error_text (PermissionDenied m _) = ''permission denied: '' @ m"

subsection \<open>Classification of messages\<close>

text \<open>The target the build is for, which decides the OS codes.\<close>

datatype target_os = Windows | Linux | Macos | Other_os

definition os_code :: "string \<Rightarrow> nat \<Rightarrow> bool" where
  "os_code m n \<longleftrightarrow>
     str_contains m (''os error '' @ show_nat n @ '')'') \<or> suffix (''os error '' @ show_nat n) m"

definition is_disk_full :: "target_os \<Rightarrow> string \<Rightarrow> bool" where
  "is_disk_full os msg =
     (let m = to_ascii_lowercase msg
      in str_contains m ''no space left'' \<or> str_contains m ''disk full'' \<or> str_contains m ''no storage space'' \<or>
         str_contains m ''quota exceeded'' \<or> os_code m 28 \<or> os_code m 112 \<or>
         (os = Windows \<and> os_code m 39) \<or> (os = Linux \<and> os_code m 122) \<or> (os = Macos \<and> os_code m 69))"

text \<open>An error and its \<open>source()\<close> chain: at each level the text, and the kind when it is an \<open>io::Error\<close>.\<close>

datatype io_kind = StorageFull | QuotaExceeded | OtherKind

type_synonym error_chain = "(io_kind option \<times> string) list"

fun error_is_disk_full :: "target_os \<Rightarrow> error_chain \<Rightarrow> bool" where
  "error_is_disk_full os [] \<longleftrightarrow> False"
| "error_is_disk_full os ((kind, txt) # source) \<longleftrightarrow>
     kind = Some StorageFull \<or> kind = Some QuotaExceeded \<or> is_disk_full os txt \<or> error_is_disk_full os source"

definition is_previous_io :: "string \<Rightarrow> bool" where
  "is_previous_io msg \<longleftrightarrow> str_contains (to_ascii_lowercase msg) ''previous i/o error''"

text \<open>The gRPC codes.\<close>

datatype code =
    Ok | Cancelled | Unknown | InvalidArgument | CodeDeadlineExceeded | NotFound | AlreadyExists
  | CodePermissionDenied | ResourceExhausted | FailedPrecondition | Aborted | OutOfRange | Unimplemented
  | Internal | Unavailable | DataLoss | CodeUnauthenticated

fun is_transport_loss :: "code \<Rightarrow> string \<Rightarrow> bool" where
  "is_transport_loss Cancelled message \<longleftrightarrow> True"
| "is_transport_loss CodeDeadlineExceeded message \<longleftrightarrow> True"
| "is_transport_loss Aborted message \<longleftrightarrow> True"
| "is_transport_loss Unknown message \<longleftrightarrow>
     list_ex (str_contains (to_ascii_lowercase message))
       [''transport error'', ''connection'', ''broken pipe'', ''reset'', ''closed'']"
| "is_transport_loss _ message \<longleftrightarrow> False"

subsection \<open>Wire errors\<close>

datatype wire_error =
    WStore store_error
  | WNotLeader "u64 option" "string option"
  | WNoLeader u64
  | WProtocol string

fun wire_of_store :: "store_error \<Rightarrow> wire_error" where
  "wire_of_store (NotLeader i addr) = WNotLeader i addr"
| "wire_of_store (NoLeader ms) = WNoLeader ms"
| "wire_of_store (Protocol m) = WProtocol m"
| "wire_of_store e = WStore e"

fun store_of_wire :: "wire_error \<Rightarrow> store_error" where
  "store_of_wire (WStore e) = e"
| "store_of_wire (WNotLeader i addr) = NotLeader i addr"
| "store_of_wire (WNoLeader ms) = NoLeader ms"
| "store_of_wire (WProtocol m) = Protocol m"

fun wire_error_text :: "wire_error \<Rightarrow> string" where
  "wire_error_text (WStore e) = store_error_text e"
| "wire_error_text (WNotLeader i addr) = store_error_text (NotLeader i addr)"
| "wire_error_text (WNoLeader ms) = store_error_text (NoLeader ms)"
| "wire_error_text (WProtocol m) = store_error_text (Protocol m)"

fun store_error_code :: "target_os \<Rightarrow> store_error \<Rightarrow> code" where
  "store_error_code os (Rejected _) = InvalidArgument"
| "store_error_code os (NotUtf8 _) = InvalidArgument"
| "store_error_code os (StrictEncoding _ _) = InvalidArgument"
| "store_error_code os (Binary _) = InvalidArgument"
| "store_error_code os (TooLarge _) = InvalidArgument"
| "store_error_code os (InvalidSpan _) = InvalidArgument"
| "store_error_code os (SchemaErr _) = InvalidArgument"
| "store_error_code os (AlreadyApplied _) = InvalidArgument"
| "store_error_code os (Locked _) = Unavailable"
| "store_error_code os (SchemaMismatch _) = FailedPrecondition"
| "store_error_code os (LegacyFormat _ _) = FailedPrecondition"
| "store_error_code os (SnapshotExpired _ _) = FailedPrecondition"
| "store_error_code os (WrongCluster _ _) = FailedPrecondition"
| "store_error_code os (Corrupt _) = DataLoss"
| "store_error_code os (Storage msg) = (if is_disk_full os msg then ResourceExhausted else Internal)"
| "store_error_code os (OpenFailed _ _) = Internal"
| "store_error_code os (NotLeader _ _) = Unavailable"
| "store_error_code os (NoLeader _) = Unavailable"
| "store_error_code os (Protocol _) = FailedPrecondition"
| "store_error_code os (DeadlineExceeded _) = CodeDeadlineExceeded"
| "store_error_code os (Unauthenticated _) = CodeUnauthenticated"
| "store_error_code os (PermissionDenied _ _) = CodePermissionDenied"

fun wire_error_code :: "target_os \<Rightarrow> wire_error \<Rightarrow> code" where
  "wire_error_code os (WStore e) = store_error_code os e"
| "wire_error_code os (WNotLeader _ _) = Unavailable"
| "wire_error_code os (WNoLeader _) = Unavailable"
| "wire_error_code os (WProtocol _) = FailedPrecondition"

subsection \<open>The typed detail\<close>

text \<open>The oneof of the message StoreErrorDetail; enum fields are raw \<open>i32\<close> values on the wire, kept as their 32 bits.\<close>

datatype detail_kind =
    KLocked string
  | KSchemaMismatch u64
  | KLegacyFormat string u64
  | KOpenFailed string string
  | KRejected string bool
  | KNotUtf8 string
  | KTooLarge string
  | KInvalidSpan string
  | KCorrupt string
  | KSchema string "32 word" "32 word"
  | KStorage string
  | KSnapshotExpired u64 u64
  | KNotLeader "u64 option" "string option"
  | KNoLeader u64
  | KProtocol string
  | KWrongCluster string string
  | KBinary string
  | KStrictEncoding string string
  | KDeadlineExceeded string
  | KUnauthenticated string
  | KPermissionDenied string string

text \<open>The message itself: the oneof may be absent.\<close>

type_synonym store_error_detail = "detail_kind option"

fun node_kind_i32 :: "node_kind \<Rightarrow> 32 word" where
  "node_kind_i32 Org = 1"
| "node_kind_i32 Repo = 2"
| "node_kind_i32 File = 3"
| "node_kind_i32 Symbol = 4"
| "node_kind_i32 Token = 5"

definition node_kind_of_i32 :: "32 word \<Rightarrow> node_kind option" where
  "node_kind_of_i32 v =
     (if v = 1 then Some Org else if v = 2 then Some Repo else if v = 3 then Some File
      else if v = 4 then Some Symbol else if v = 5 then Some Token else None)"

fun detail_of_store :: "store_error \<Rightarrow> detail_kind" where
  "detail_of_store (Locked m) = KLocked m"
| "detail_of_store (SchemaMismatch found) = KSchemaMismatch found"
| "detail_of_store (LegacyFormat path version) = KLegacyFormat path version"
| "detail_of_store (OpenFailed path reason) = KOpenFailed path reason"
| "detail_of_store (Rejected m) = KRejected m False"
| "detail_of_store (AlreadyApplied i) = KRejected (store_error_text (AlreadyApplied i)) False"
| "detail_of_store (NotUtf8 path) = KNotUtf8 path"
| "detail_of_store (StrictEncoding path encoding) = KStrictEncoding path encoding"
| "detail_of_store (Binary path) = KBinary path"
| "detail_of_store (TooLarge path) = KTooLarge path"
| "detail_of_store (InvalidSpan m) = KInvalidSpan m"
| "detail_of_store (Corrupt m) = KCorrupt m"
| "detail_of_store (SchemaErr (InvalidContainment p c)) =
     KSchema (store_error_text (SchemaErr (InvalidContainment p c))) (node_kind_i32 p) (node_kind_i32 c)"
| "detail_of_store (Storage m) = KStorage m"
| "detail_of_store (SnapshotExpired age max_age) = KSnapshotExpired age max_age"
| "detail_of_store (NotLeader i addr) = KNotLeader i addr"
| "detail_of_store (NoLeader ms) = KNoLeader ms"
| "detail_of_store (Protocol m) = KProtocol m"
| "detail_of_store (WrongCluster expected found) = KWrongCluster expected found"
| "detail_of_store (DeadlineExceeded m) = KDeadlineExceeded m"
| "detail_of_store (Unauthenticated m) = KUnauthenticated m"
| "detail_of_store (PermissionDenied m required_role) = KPermissionDenied m required_role"

fun detail :: "wire_error \<Rightarrow> store_error_detail" where
  "detail (WStore e) = Some (detail_of_store e)"
| "detail (WNotLeader i addr) = Some (KNotLeader i addr)"
| "detail (WNoLeader ms) = Some (KNoLeader ms)"
| "detail (WProtocol m) = Some (KProtocol m)"

text \<open>\<open>TryFrom<pb::StoreErrorDetail> for WireError\<close>.\<close>

fun wire_of_kind :: "detail_kind \<Rightarrow> wire_error" where
  "wire_of_kind (KLocked m) = wire_of_store (Locked m)"
| "wire_of_kind (KSchemaMismatch found) = wire_of_store (SchemaMismatch found)"
| "wire_of_kind (KLegacyFormat path version) = wire_of_store (LegacyFormat path version)"
| "wire_of_kind (KOpenFailed path reason) = wire_of_store (OpenFailed path reason)"
| "wire_of_kind (KRejected m _) = wire_of_store (Rejected m)"
| "wire_of_kind (KNotUtf8 path) = wire_of_store (NotUtf8 path)"
| "wire_of_kind (KStrictEncoding path encoding) = wire_of_store (StrictEncoding path encoding)"
| "wire_of_kind (KBinary path) = wire_of_store (Binary path)"
| "wire_of_kind (KTooLarge path) = wire_of_store (TooLarge path)"
| "wire_of_kind (KInvalidSpan m) = wire_of_store (InvalidSpan m)"
| "wire_of_kind (KCorrupt m) = wire_of_store (Corrupt m)"
| "wire_of_kind (KSchema m p c) =
     (case (node_kind_of_i32 p, node_kind_of_i32 c) of
        (Some p, Some c) \<Rightarrow> wire_of_store (SchemaErr (InvalidContainment p c))
      | _ \<Rightarrow> wire_of_store (Rejected m))"
| "wire_of_kind (KStorage m) = wire_of_store (Storage m)"
| "wire_of_kind (KSnapshotExpired age max_age) = wire_of_store (SnapshotExpired age max_age)"
| "wire_of_kind (KNotLeader i addr) = WNotLeader i addr"
| "wire_of_kind (KNoLeader ms) = WNoLeader ms"
| "wire_of_kind (KProtocol m) = WProtocol m"
| "wire_of_kind (KWrongCluster expected found) = wire_of_store (WrongCluster expected found)"
| "wire_of_kind (KDeadlineExceeded m) = wire_of_store (DeadlineExceeded m)"
| "wire_of_kind (KUnauthenticated m) = wire_of_store (Unauthenticated m)"
| "wire_of_kind (KPermissionDenied m required_role) = wire_of_store (PermissionDenied m required_role)"

definition wire_of_detail :: "store_error_detail \<Rightarrow> string + wire_error" where
  "wire_of_detail d =
     (case d of None \<Rightarrow> Inl ''StoreErrorDetail.kind is missing'' | Some k \<Rightarrow> Inr (wire_of_kind k))"

definition from_code :: "(code \<Rightarrow> string) \<Rightarrow> code \<Rightarrow> string \<Rightarrow> wire_error" where
  "from_code dbg c msg =
     (if c = InvalidArgument \<or> c = FailedPrecondition then WStore (Rejected msg)
      else if c = Unavailable then WStore (Locked msg)
      else if c = DataLoss then WStore (Corrupt msg)
      else if c = ResourceExhausted \<or> c = Internal then WStore (Storage msg)
      else if c = Unimplemented then WProtocol (dbg c @ '': '' @ msg)
      else if c = CodeUnauthenticated then WStore (Unauthenticated msg)
      else if c = CodePermissionDenied then WStore (PermissionDenied msg [])
      else if is_transport_loss c msg then WStore (Storage (''connection lost ('' @ dbg c @ ''): '' @ msg))
      else WStore (Storage (dbg c @ '': '' @ msg)))"

subsection \<open>Statuses\<close>

record status =
  sta_code :: code
  sta_message :: string
  sta_details :: "u8 list"

record prost =
  encode_to_vec :: "store_error_detail \<Rightarrow> u8 list"
  decode_detail :: "u8 list \<Rightarrow> store_error_detail option"

definition status_of_wire :: "target_os \<Rightarrow> prost \<Rightarrow> wire_error \<Rightarrow> status" where
  "status_of_wire os pb e =
     \<lparr>sta_code = wire_error_code os e, sta_message = wire_error_text e, sta_details = encode_to_vec pb (detail e)\<rparr>"

definition wire_of_status :: "(code \<Rightarrow> string) \<Rightarrow> prost \<Rightarrow> status \<Rightarrow> wire_error" where
  "wire_of_status dbg pb s =
     (if sta_details s \<noteq> [] then
        case decode_detail pb (sta_details s) of
          Some d \<Rightarrow>
            (case wire_of_detail d of
               Inr w \<Rightarrow> w
             | Inl _ \<Rightarrow> from_code dbg (sta_code s) (sta_message s))
        | None \<Rightarrow> from_code dbg (sta_code s) (sta_message s)
      else from_code dbg (sta_code s) (sta_message s))"

fun wire_view :: "store_error \<Rightarrow> wire_error" where
  "wire_view (NotLeader i addr) = WNotLeader i addr"
| "wire_view (NoLeader ms) = WNoLeader ms"
| "wire_view (Protocol m) = WProtocol m"
| "wire_view e = WStore e"

definition store_error_to_status :: "target_os \<Rightarrow> prost \<Rightarrow> store_error \<Rightarrow> status" where
  "store_error_to_status os pb e = status_of_wire os pb (wire_view e)"

definition status_to_store_error :: "(code \<Rightarrow> string) \<Rightarrow> prost \<Rightarrow> status \<Rightarrow> store_error" where
  "status_to_store_error dbg pb s = store_of_wire (wire_of_status dbg pb s)"

definition transient_rejection :: "prost \<Rightarrow> string \<Rightarrow> status" where
  "transient_rejection pb msg =
     \<lparr>sta_code = InvalidArgument, sta_message = store_error_text (Rejected msg),
      sta_details = encode_to_vec pb (Some (KRejected msg True))\<rparr>"

definition is_transient_rejection :: "prost \<Rightarrow> status \<Rightarrow> bool" where
  "is_transient_rejection pb s \<longleftrightarrow>
     sta_details s \<noteq> [] \<and>
     (case decode_detail pb (sta_details s) of Some (Some (KRejected _ True)) \<Rightarrow> True | _ \<Rightarrow> False)"

subsection \<open>Facts\<close>

text \<open>Of prost: decoding undoes encoding, and a message whose oneof is set has at least its tag.\<close>

definition prost_ok :: "prost \<Rightarrow> bool" where
  "prost_ok pb \<longleftrightarrow>
     (\<forall>d. decode_detail pb (encode_to_vec pb d) = Some d) \<and> (\<forall>k. encode_to_vec pb (Some k) \<noteq> [])"

lemma node_kind_i32_inverse [simp]: "node_kind_of_i32 (node_kind_i32 k) = Some k"
  by (cases k) (simp_all add: node_kind_of_i32_def)

text \<open>What a client sees of an error.\<close>

fun wire_image :: "store_error \<Rightarrow> store_error" where
  "wire_image (AlreadyApplied i) = Rejected (store_error_text (AlreadyApplied i))"
| "wire_image e = e"

lemma detail_wire_view:
  "\<exists>k. detail (wire_view e) = Some k \<and> store_of_wire (wire_of_kind k) = wire_image e"
proof (cases e)
  case (SchemaErr x)
  then show ?thesis by (cases x) simp
qed simp_all

lemma status_roundtrip:
  assumes "prost_ok pb"
  shows "status_to_store_error dbg pb (store_error_to_status os pb e) = wire_image e"
proof -
  obtain k where k: "detail (wire_view e) = Some k" "store_of_wire (wire_of_kind k) = wire_image e"
    using detail_wire_view by blast
  then show ?thesis
    using assms by (simp add: prost_ok_def status_to_store_error_def store_error_to_status_def status_of_wire_def
        wire_of_status_def wire_of_detail_def)
qed

lemma wire_view_eq: "wire_view e = wire_of_store e"
  by (cases e) simp_all

lemma wire_code_view: "wire_error_code os (wire_view e) = store_error_code os e"
  by (cases e) simp_all

lemma wire_text_view: "wire_error_text (wire_view e) = store_error_text e"
  by (cases e) simp_all

lemma lower_storage: "to_ascii_lowercase (''storage error: '' @ m) = ''storage error: '' @ to_ascii_lowercase m"
  by (simp add: to_ascii_lowercase_def ascii_lower_def)

lemmas os_digits = show_nat.simps [of 28] show_nat.simps [of 112] show_nat.simps [of 39] show_nat.simps [of 122]
  show_nat.simps [of 69] show_nat.simps [of 2] show_nat.simps [of 11] show_nat.simps [of 1] show_nat.simps [of 3]
  show_nat.simps [of 12] show_nat.simps [of 6]

text \<open>The words of a full disk cannot start inside the text \<open>Display\<close> puts before a storage message.\<close>

lemma is_disk_full_storage_text: "is_disk_full os (''storage error: '' @ m) = is_disk_full os m"
  unfolding is_disk_full_def lower_storage Let_def os_code_def
  by (simp add: os_digits suffix_Cons)

lemma is_disk_full_word:
  assumes "str_contains (to_ascii_lowercase msg) ''disk full''"
  shows "is_disk_full os msg"
  using assms by (simp add: is_disk_full_def Let_def)

lemma is_disk_full_prefix: "is_disk_full os (''disk full: '' @ m)"
  by (rule is_disk_full_word) (simp add: to_ascii_lowercase_def ascii_lower_def)

text \<open>
  C33: a store error crosses the wire unchanged: the status built from it carries the code of the table and the
  error's text, and reading the status back gives the same variant with the same fields. Only the marker
  error of the state machine arrives as the refusal it is. A refusal marked as transient is recognized,
  reads as the same refusal, and no other status is taken for one.
\<close>

theorem store_error_crosses_wire:
  assumes "prost_ok pb"
  shows "status_to_store_error dbg pb (store_error_to_status os pb e) = wire_image e
    \<and> sta_code (store_error_to_status os pb e) = store_error_code os e
    \<and> sta_message (store_error_to_status os pb e) = store_error_text e
    \<and> \<not> is_transient_rejection pb (store_error_to_status os pb e)
    \<and> is_transient_rejection pb (transient_rejection pb m)
    \<and> status_to_store_error dbg pb (transient_rejection pb m) = Rejected m"
proof -
  have "\<not> is_transient_rejection pb (store_error_to_status os pb e)"
  proof (cases e)
    case (SchemaErr x)
    then show ?thesis
      using assms by (cases x) (simp add: prost_ok_def is_transient_rejection_def store_error_to_status_def status_of_wire_def)
  qed (use assms in \<open>simp_all add: prost_ok_def is_transient_rejection_def store_error_to_status_def status_of_wire_def\<close>)
  moreover have "sta_code (store_error_to_status os pb e) = store_error_code os e"
      "sta_message (store_error_to_status os pb e) = store_error_text e"
    by (simp_all add: store_error_to_status_def status_of_wire_def wire_code_view wire_text_view)
  moreover have "is_transient_rejection pb (transient_rejection pb m)"
      "status_to_store_error dbg pb (transient_rejection pb m) = Rejected m"
    using assms by (simp_all add: prost_ok_def transient_rejection_def is_transient_rejection_def status_to_store_error_def
        wire_of_status_def wire_of_detail_def)
  ultimately show ?thesis using status_roundtrip [OF assms] by blast
qed

definition read_stripped :: "(code \<Rightarrow> string) \<Rightarrow> target_os \<Rightarrow> prost \<Rightarrow> store_error \<Rightarrow> store_error" where
  "read_stripped dbg os pb e = status_to_store_error dbg pb ((store_error_to_status os pb e)\<lparr>sta_details := []\<rparr>)"

fun storage_message :: "store_error \<Rightarrow> string" where
  "storage_message (Storage m) = m"
| "storage_message _ = []"

text \<open>
  A status that lost its typed detail on the way still has its class. The error it reads as has the code of
  the original, a full disk included, except that a precondition becomes a plain refusal, a passed
  deadline a storage error, and an open failure whose reason names a full disk a full disk.
\<close>

theorem stripped_status_keeps_code:
  "store_error_code os (read_stripped dbg os pb e) =
    (if store_error_code os e = FailedPrecondition then InvalidArgument
     else if store_error_code os e = CodeDeadlineExceeded \<or> (\<exists>p r. e = OpenFailed p r)
     then (if is_disk_full os (storage_message (read_stripped dbg os pb e)) then ResourceExhausted else Internal)
     else store_error_code os e)
    \<and> (\<forall>m. read_stripped dbg os pb e \<noteq> Protocol m)"
proof -
  have r: "read_stripped dbg os pb e = store_of_wire (from_code dbg (store_error_code os e) (store_error_text e))"
    by (simp add: read_stripped_def status_to_store_error_def wire_of_status_def store_error_to_status_def
        status_of_wire_def wire_code_view wire_text_view)
  show ?thesis
    unfolding r by (cases e) (simp_all add: from_code_def is_disk_full_storage_text [simplified])
qed

subsection \<open>Witness\<close>

instance detail_kind :: countable
  by countable_datatype

definition example_prost :: prost where
  "example_prost =
     \<lparr>encode_to_vec = (\<lambda>d. replicate (Suc (to_nat d)) 0), decode_detail = (\<lambda>b. Some (from_nat (length b - 1)))\<rparr>"

lemma example_prost_ok: "prost_ok example_prost"
  by (simp add: prost_ok_def example_prost_def)

theorem store_error_crosses_wire_witness:
  "status_to_store_error (\<lambda>c. []) example_prost (store_error_to_status Linux example_prost (Storage ''disk full: x'')) =
     Storage ''disk full: x''
   \<and> sta_code (store_error_to_status Linux example_prost (Storage ''disk full: x'')) = ResourceExhausted"
  using store_error_crosses_wire [OF example_prost_ok, of "\<lambda>c. []" Linux "Storage ''disk full: x''" "[]"]
    is_disk_full_prefix [of Linux "''x''"] by simp

end
