(* ===== verification/Disk_Stall.thy ===== *)
theory Disk_Stall
  imports Raft_Log Wire_Error
begin

text \<open>
  A full disk under the Raft log, crates/graph-server/src/raft/disk_stall.rs, disk.rs and the write path of
  log_store.rs: the stall a node shows, the loop that retries a write in place, the floor of free space that
  is checked first, and the log's append, vote, commit, truncate and purge under them. What redb and the
  operating system answer is a parameter, over a world the parameters advance.
\<close>

subsection \<open>The stall state\<close>

datatype stall_source = LogAppend | Apply | LogMeta

fun what :: "stall_source \<Rightarrow> string" where
  "what LogAppend = ''append the write to its Raft log''"
| "what Apply = ''apply the write to its store''"
| "what LogMeta = ''write its Raft state (vote, commit index, truncate, purge)''"

record stall_state =
  ss_log :: "string option"
  ss_apply :: "string option"
  ss_meta :: "string option"

definition no_stall :: stall_state where
  "no_stall = \<lparr>ss_log = None, ss_apply = None, ss_meta = None\<rparr>"

fun slot :: "stall_source \<Rightarrow> stall_state \<Rightarrow> string option" where
  "slot LogAppend s = ss_log s"
| "slot Apply s = ss_apply s"
| "slot LogMeta s = ss_meta s"

fun set_slot :: "stall_source \<Rightarrow> string option \<Rightarrow> stall_state \<Rightarrow> stall_state" where
  "set_slot LogAppend v s = s\<lparr>ss_log := v\<rparr>"
| "set_slot Apply v s = s\<lparr>ss_apply := v\<rparr>"
| "set_slot LogMeta v s = s\<lparr>ss_meta := v\<rparr>"

text \<open>\<open>State::first\<close>, which \<open>current\<close> and \<open>stalled\<close> answer.\<close>

definition stall_first :: "stall_state \<Rightarrow> string option" where
  "stall_first s =
     (case ss_log s of Some m \<Rightarrow> Some m
      | None \<Rightarrow> (case ss_apply s of Some m \<Rightarrow> Some m | None \<Rightarrow> ss_meta s))"

definition is_stalled :: "stall_source \<Rightarrow> stall_state \<Rightarrow> bool" where
  "is_stalled src s \<longleftrightarrow> slot src s \<noteq> None"

definition stall_sources :: "stall_state \<Rightarrow> string list" where
  "stall_sources s =
     (if is_stalled LogAppend s \<or> is_stalled LogMeta s then [''log''] else []) @
     (if is_stalled Apply s then [''apply''] else [])"

definition stall_message :: "stall_source \<Rightarrow> string \<Rightarrow> string" where
  "stall_message src cause =
     ''disk full: this node could not '' @ what src @ '' ('' @ cause @
     ''); the write was not acknowledged and the node keeps retrying; free space on its volume and retry the write (a retry is safe)''"

definition stall_set :: "stall_source \<Rightarrow> string \<Rightarrow> stall_state \<Rightarrow> stall_state" where
  "stall_set src cause s = set_slot src (Some (stall_message src cause)) s"

definition stall_clear :: "stall_source \<Rightarrow> stall_state \<Rightarrow> stall_state" where
  "stall_clear src s = set_slot src None s"

subsection \<open>The retry loop\<close>

definition FIRST_BACKOFF :: nat where "FIRST_BACKOFF = 20"
definition MAX_BACKOFF :: nat where "MAX_BACKOFF = 500"
definition MAX_PREVIOUS_IO :: nat where "MAX_PREVIOUS_IO = 5"

text \<open>\<open>to_string()\<close> of an error is the text at the top of its chain.\<close>

definition cause_of :: "error_chain \<Rightarrow> string" where
  "cause_of e = (case e of [] \<Rightarrow> [] | (_, txt) # _ \<Rightarrow> txt)"

definition poisoned :: "target_os \<Rightarrow> error_chain \<Rightarrow> bool" where
  "poisoned os e \<longleftrightarrow> \<not> error_is_disk_full os e \<and> is_previous_io (cause_of e)"

text \<open>
  The world: what the attempt does to it, what a sleep and a recovery do, and whether the node is stopping.
\<close>

record ('w, 'a) attempt =
  at_run :: "'w \<Rightarrow> (error_chain + 'a) \<times> 'w"
  at_recover :: "'w \<Rightarrow> 'w"
  at_sleep :: "nat \<Rightarrow> 'w \<Rightarrow> 'w"
  at_stopping :: "'w \<Rightarrow> bool"

partial_function (option) retry_loop ::
  "target_os \<Rightarrow> ('w, 'a) attempt \<Rightarrow> stall_source \<Rightarrow> nat \<Rightarrow> nat \<Rightarrow> stall_state \<Rightarrow> 'w \<Rightarrow>
     ((error_chain + 'a) \<times> stall_state \<times> 'w) option" where
  "retry_loop os at src backoff previous_io s w =
     (case at_run at w of
        (Inr v, w) \<Rightarrow> Some (Inr v, stall_clear src s, w)
      | (Inl e, w) \<Rightarrow>
          let full = error_is_disk_full os e;
              pois = poisoned os e;
              previous_io = (if pois then previous_io + 1 else if full then 0 else previous_io)
          in if \<not> (full \<or> pois) \<or> previous_io > MAX_PREVIOUS_IO \<or> at_stopping at w then Some (Inl e, s, w)
             else let s = (if full then stall_set src (cause_of e) s else s);
                      w = at_sleep at backoff w
                  in if at_stopping at w then Some (Inl e, s, w)
                     else retry_loop os at src (min (backoff * 2) MAX_BACKOFF) previous_io s (at_recover at w))"

declare retry_loop.simps [code]

definition retry ::
  "target_os \<Rightarrow> ('w, 'a) attempt \<Rightarrow> stall_source \<Rightarrow> stall_state \<Rightarrow> 'w \<Rightarrow>
     ((error_chain + 'a) \<times> stall_state \<times> 'w) option" where
  "retry os at src s w = retry_loop os at src FIRST_BACKOFF 0 s w"

subsection \<open>The disk guard\<close>

text \<open>\<open>probe\<close> and the sizes of the store and log files are read from the world.\<close>

record 'w disk_guard =
  dg_min_free :: u64
  dg_probe :: "'w \<Rightarrow> u64 option"
  dg_dir :: string
  dg_store_size :: "'w \<Rightarrow> u64"
  dg_log_size :: "'w \<Rightarrow> u64"

definition saturating_add :: "u64 \<Rightarrow> u64 \<Rightarrow> u64" where
  "saturating_add a b = (if a + b < a then -1 else a + b)"

definition check_need :: "'w disk_guard \<Rightarrow> string \<Rightarrow> u64 \<Rightarrow> string \<Rightarrow> 'w \<Rightarrow> unit result" where
  "check_need g what' extra why w =
     (if dg_min_free g = 0 then Inr ()
      else (case dg_probe g w of
              None \<Rightarrow> Inr ()
            | Some free \<Rightarrow>
                let need = saturating_add (dg_min_free g) extra
                in if free < need then
                     Inl (Storage (''disk full: '' @ what' @ '' refused: '' @ show_nat (unat free) @
                       '' bytes free on the volume of `'' @ dg_dir g @ ''`, need '' @ show_nat (unat need) @
                       '' (--min-free-disk '' @ show_nat (unat (dg_min_free g)) @ '' + '' @ why @ ''; the Raft log is '' @
                       show_nat (unat (dg_log_size g w)) @ '' bytes)''))
                   else Inr ()))"

definition check_guard :: "'w disk_guard \<Rightarrow> string \<Rightarrow> 'w \<Rightarrow> unit result" where
  "check_guard g what' w =
     (let store = dg_store_size g w
      in check_need g what' store (''one snapshot copy of the '' @ show_nat (unat store) @ ''-byte store'') w)"

definition check_extra :: "'w disk_guard \<Rightarrow> string \<Rightarrow> u64 \<Rightarrow> 'w \<Rightarrow> unit result" where
  "check_extra g what' extra w =
     check_need g what' extra (show_nat (unat extra) @ '' bytes for the '' @ what') w"

definition precheck :: "'w disk_guard option \<Rightarrow> string \<Rightarrow> 'w \<Rightarrow> unit result" where
  "precheck guard what' w = (case guard of Some g \<Rightarrow> check_extra g what' 0 w | None \<Rightarrow> Inr ())"

subsection \<open>Writes to the log\<close>

text \<open>
  The world of the log store: the log, whether the database is closed for a reopen, and the state of redb, the
  disk and the node. A transaction redb refuses to commit leaves no trace, which is what its rollback
  promises.
\<close>

record 'd log_world =
  lw_log :: log_store
  lw_closed :: bool
  lw_env :: 'd

record 'd redb =
  rb_commit :: "'d \<Rightarrow> error_chain option \<times> 'd"
  rb_reopen :: "'d \<Rightarrow> error_chain option \<times> 'd"
  rb_previous_io :: error_chain
  rb_write_err :: "error_chain \<Rightarrow> error_chain"
  rb_sleep :: "nat \<Rightarrow> 'd \<Rightarrow> 'd"
  rb_stopping :: "'d \<Rightarrow> bool"
  rb_guard :: "'d disk_guard option"

definition reopen_db :: "'d redb \<Rightarrow> 'd log_world \<Rightarrow> (error_chain + unit) \<times> 'd log_world" where
  "reopen_db rb w =
     (case rb_reopen rb (lw_env w) of
        (Some e, d) \<Rightarrow> (Inl e, w\<lparr>lw_closed := True, lw_env := d\<rparr>)
      | (None, d) \<Rightarrow> (Inr (), w\<lparr>lw_closed := False, lw_env := d\<rparr>))"

text \<open>\<open>write_txn\<close>, the body on the tables, and \<open>commit\<close>.\<close>

definition transact :: "'d redb \<Rightarrow> (log_store \<Rightarrow> log_store) \<Rightarrow> 'd log_world \<Rightarrow> (error_chain + unit) \<times> 'd log_world" where
  "transact rb g w =
     (if lw_closed w then (Inl (rb_write_err rb (rb_previous_io rb)), w)
      else (case rb_commit rb (lw_env w) of
              (Some e, d) \<Rightarrow> (Inl (rb_write_err rb e), w\<lparr>lw_env := d\<rparr>)
            | (None, d) \<Rightarrow> (Inr (), w\<lparr>lw_log := g (lw_log w), lw_env := d\<rparr>)))"

definition retried_attempt ::
  "'d redb \<Rightarrow> ('d log_world \<Rightarrow> (error_chain + 'a) \<times> 'd log_world) \<Rightarrow> ('d log_world, 'a) attempt" where
  "retried_attempt rb f =
     \<lparr>at_run = (\<lambda>w. if lw_closed w then
          (case reopen_db rb w of (Inl e, w) \<Rightarrow> (Inl (rb_write_err rb e), w) | (Inr _, w) \<Rightarrow> f w)
        else f w),
      at_recover = (\<lambda>w. snd (reopen_db rb w)),
      at_sleep = (\<lambda>b w. w\<lparr>lw_env := rb_sleep rb b (lw_env w)\<rparr>),
      at_stopping = (\<lambda>w. rb_stopping rb (lw_env w))\<rparr>"

definition retried ::
  "target_os \<Rightarrow> 'd redb \<Rightarrow> stall_source \<Rightarrow> ('d log_world \<Rightarrow> (error_chain + 'a) \<times> 'd log_world) \<Rightarrow> stall_state \<Rightarrow>
     'd log_world \<Rightarrow> ((error_chain + 'a) \<times> stall_state \<times> 'd log_world) option" where
  "retried os rb src f s w = retry os (retried_attempt rb f) src s w"

text \<open>Only entries a client wrote are held back below the floor of free space.\<close>

fun is_normal :: "'m entry \<Rightarrow> bool" where
  "is_normal e = (case en_payload e of Normal _ \<Rightarrow> True | _ \<Rightarrow> False)"

definition append_attempt ::
  "'d redb \<Rightarrow> 'm codec_json \<Rightarrow> 'm entry list \<Rightarrow> 'd log_world \<Rightarrow> (error_chain + unit) \<times> 'd log_world" where
  "append_attempt rb mj es w =
     (case (if list_ex is_normal es then precheck (rb_guard rb) ''raft log append'' (lw_env w) else Inr ()) of
        Inl e \<Rightarrow> (Inl (rb_write_err rb [(None, store_error_text e)]), w)
      | Inr _ \<Rightarrow> transact rb (append_entries mj es) w)"

fun log_write ::
  "target_os \<Rightarrow> 'd redb \<Rightarrow> ('m, 'v) raft_json \<Rightarrow> ('m, 'v) log_op \<Rightarrow> stall_state \<Rightarrow> 'd log_world \<Rightarrow>
     ((error_chain + unit) \<times> stall_state \<times> 'd log_world) option" where
  "log_write os rb rj (Append es) s w = retried os rb LogAppend (append_attempt rb (rj_member rj) es) s w"
| "log_write os rb rj (Truncate i) s w = retried os rb LogMeta (transact rb (truncate_log i)) s w"
| "log_write os rb rj (Purge i) s w = retried os rb LogMeta (transact rb (purge (rj_log_id rj) i)) s w"
| "log_write os rb rj (SaveVote v) s w = retried os rb LogMeta (transact rb (save_vote (rj_vote rj) v)) s w"
| "log_write os rb rj (SaveCommitted c) s w =
     retried os rb LogMeta (transact rb (save_committed (rj_committed rj) c)) s w"

subsection \<open>What the loop promises\<close>

lemma slot_set_slot: "slot src (set_slot src' v s) = (if src = src' then v else slot src s)"
  by (cases src; cases src') simp_all

text \<open>
  \<open>I\<close> holds of the world until the attempt succeeds, and then \<open>J\<close> of its result: a failed attempt, a sleep and a
  recovery keep \<open>I\<close>, a success establishes \<open>J\<close>.
\<close>

definition keeps_until :: "('w, 'a) attempt \<Rightarrow> ('w \<Rightarrow> bool) \<Rightarrow> ('w \<Rightarrow> bool) \<Rightarrow> bool" where
  "keeps_until at I J \<longleftrightarrow>
     (\<forall>w. I w \<longrightarrow>
        (case at_run at w of (Inl _, w') \<Rightarrow> I w' | (Inr _, w') \<Rightarrow> J w') \<and>
        (\<forall>b. I (at_sleep at b w)) \<and> I (at_recover at w))"

fun retry_good ::
  "target_os \<Rightarrow> ('w, 'a) attempt \<Rightarrow> stall_source \<Rightarrow> ('w \<Rightarrow> bool) \<Rightarrow> ('w \<Rightarrow> bool) \<Rightarrow> stall_state \<Rightarrow>
     (error_chain + 'a) \<times> stall_state \<times> 'w \<Rightarrow> bool" where
  "retry_good os at src I J s (r, s', w') \<longleftrightarrow>
     (case r of
        Inr _ \<Rightarrow> J w' \<and> slot src s' = None
      | Inl e \<Rightarrow> I w' \<and> (error_is_disk_full os e \<longrightarrow> at_stopping at w')) \<and>
     (\<forall>src'. src' \<noteq> src \<longrightarrow> slot src' s' = slot src' s)"

lemma retry_good_set:
  "retry_good os at src I J (if full then stall_set src c s else s) y \<Longrightarrow> retry_good os at src I J s y"
  by (cases y) (simp add: stall_set_def slot_set_slot split: if_splits)

lemma retry_loop_result:
  assumes "retry_loop os at src backoff p s w = Some y" and "keeps_until at I J" and "I w"
  shows "retry_good os at src I J s y"
proof -
  have "\<lbrakk>keeps_until at I J; I w\<rbrakk> \<Longrightarrow> retry_good os at src I J s y"
    using assms(1)
  proof (induction rule: retry_loop.raw_induct [rotated, consumes 1, case_names step])
    case (step loop os at src backoff p s w y)
    note IH = step(1) and body = step(2) and resp = step(3) and I = step(4)
    obtain o1 w1 where run: "at_run at w = (o1, w1)" by fastforce
    have clear: "slot src' (stall_clear src s) = (if src' = src then None else slot src' s)" for src'
      by (simp add: stall_clear_def slot_set_slot)
    show ?case
    proof (cases o1)
      case (Inr v)
      then have "y = (Inr v, stall_clear src s, w1)" "J w1"
        using body run resp I by (auto simp: keeps_until_def)
      then show ?thesis by (simp add: clear)
    next
      case (Inl e)
      have I1: "I w1" using resp I run Inl by (auto simp: keeps_until_def)
      let ?s = "if error_is_disk_full os e then stall_set src (cause_of e) s else s"
      let ?w = "at_sleep at backoff w1"
      have I2: "I ?w" "I (at_recover at ?w)" using resp I1 by (auto simp: keeps_until_def)
      let ?q = "if poisoned os e then p + 1 else if error_is_disk_full os e then 0 else p"
      let ?exit = "\<not> (error_is_disk_full os e \<or> poisoned os e) \<or> ?q > MAX_PREVIOUS_IO \<or> at_stopping at w1"
      have body': "(if ?exit then Some (Inl e, s, w1) else if at_stopping at ?w then Some (Inl e, ?s, ?w)
          else loop os at src (min (backoff * 2) MAX_BACKOFF) ?q ?s (at_recover at ?w)) = Some y"
        using body by (simp only: run Inl prod.case sum.case Let_def)
      consider (stop) "?exit" "y = (Inl e, s, w1)" | (slept) "at_stopping at ?w" "y = (Inl e, ?s, ?w)"
        | (again) "loop os at src (min (backoff * 2) MAX_BACKOFF) ?q ?s (at_recover at ?w) = Some y"
        using body' by (metis option.inject)
      then show ?thesis
      proof cases
        case stop
        then have "error_is_disk_full os e \<longrightarrow> at_stopping at w1" by (auto simp: poisoned_def)
        then show ?thesis using I1 stop(2) by simp
      next
        case slept
        have "retry_good os at src I J ?s y" using slept I2 by simp
        then show ?thesis by (rule retry_good_set)
      next
        case again
        have "retry_good os at src I J ?s y" using IH [OF again resp I2(2)] .
        then show ?thesis by (rule retry_good_set)
      qed
    qed
  qed
  then show ?thesis using assms(2,3) by blast
qed

text \<open>An attempt that changes the log by \<open>g\<close> or not at all.\<close>

definition writes :: "('d log_world \<Rightarrow> (error_chain + unit) \<times> 'd log_world) \<Rightarrow> (log_store \<Rightarrow> log_store) \<Rightarrow> bool" where
  "writes f g \<longleftrightarrow>
     (\<forall>w. case f w of (Inl _, w') \<Rightarrow> lw_log w' = lw_log w | (Inr _, w') \<Rightarrow> lw_log w' = g (lw_log w))"

lemma writes_transact: "writes (transact rb g) g"
  by (auto simp: writes_def transact_def split: prod.splits option.splits)

lemma writes_append: "writes (append_attempt rb mj es) (append_entries mj es)"
  using writes_transact [of rb "append_entries mj es"]
  by (auto simp: writes_def append_attempt_def split: sum.splits)

lemma reopen_db_log: "lw_log (snd (reopen_db rb w)) = lw_log w"
  by (auto simp: reopen_db_def split: prod.splits option.splits)

lemma retried_keeps:
  assumes "writes f g"
  shows "keeps_until (retried_attempt rb f) (\<lambda>w. lw_log w = l) (\<lambda>w. lw_log w = g l)"
proof -
  have "case at_run (retried_attempt rb f) w of (Inl _, w') \<Rightarrow> lw_log w' = l | (Inr _, w') \<Rightarrow> lw_log w' = g l"
    if "lw_log w = l" for w
  proof (cases "lw_closed w")
    case True
    obtain o1 w1 where r: "reopen_db rb w = (o1, w1)" by fastforce
    then have "lw_log w1 = l" using reopen_db_log [of rb w] that by simp
    then show ?thesis
      using True r assms by (cases o1) (auto simp: retried_attempt_def writes_def split: prod.splits sum.splits)
  next
    case False
    then show ?thesis using assms that by (auto simp: retried_attempt_def writes_def split: prod.splits sum.splits)
  qed
  then show ?thesis by (simp add: keeps_until_def retried_attempt_def reopen_db_log)
qed

lemma retried_result:
  assumes "retried os rb src f s w = Some (r, s', w')" and "writes f g"
  shows "(case r of Inr _ \<Rightarrow> lw_log w' = g (lw_log w) \<and> slot src s' = None
      | Inl e \<Rightarrow> lw_log w' = lw_log w \<and> (error_is_disk_full os e \<longrightarrow> rb_stopping rb (lw_env w')))
    \<and> (\<forall>src'. src' \<noteq> src \<longrightarrow> slot src' s' = slot src' s)"
  using retry_loop_result [OF assms(1) [unfolded retried_def retry_def] retried_keeps [OF assms(2), of rb "lw_log w"]]
  by (cases r) (simp_all add: retried_attempt_def)

fun source_of :: "('m, 'v) log_op \<Rightarrow> stall_source" where
  "source_of (Append _) = LogAppend"
| "source_of _ = LogMeta"

text \<open>
  C31: a write to the Raft log happens exactly once or not at all, however often a full disk or a poisoned
  database made it retry. When it is reported done the log is the old log with that one operation applied
  and the stall it showed is cleared; when it fails the log is untouched, and it never fails for a full
  disk unless the node is stopping. The stalls of other writers are not touched.
\<close>

theorem log_write_all_or_nothing:
  fixes rj :: "('m, 'v) raft_json"
  assumes "log_write os rb rj op s w = Some (r, s', w')"
  shows "(case r of Inr _ \<Rightarrow> lw_log w' = ls_step rj op (lw_log w) \<and> slot (source_of op) s' = None
      | Inl e \<Rightarrow> lw_log w' = lw_log w \<and> (error_is_disk_full os e \<longrightarrow> rb_stopping rb (lw_env w')))
    \<and> (\<forall>src. src \<noteq> source_of op \<longrightarrow> slot src s' = slot src s)"
  using assms
  by (cases op) (auto dest!: retried_result [OF _ writes_append] retried_result [OF _ writes_transact] split: sum.splits)

subsection \<open>The loop returns\<close>

text \<open>
  Each failure for a full disk brings the world closer to space being freed, by the rank \<open>m\<close>, and a poisoned
  database takes nothing of it back.
\<close>

definition space_comes_back :: "target_os \<Rightarrow> ('w, 'a) attempt \<Rightarrow> ('w \<Rightarrow> nat) \<Rightarrow> bool" where
  "space_comes_back os at m \<longleftrightarrow>
     (\<forall>w e w' b. at_run at w = (Inl e, w') \<longrightarrow>
        (error_is_disk_full os e \<longrightarrow> m (at_recover at (at_sleep at b w')) < m w) \<and>
        (poisoned os e \<longrightarrow> m (at_recover at (at_sleep at b w')) \<le> m w))"

lemma retry_rank:
  assumes "space_comes_back os at m" and "at_run at w = (Inl e, w')" and "error_is_disk_full os e \<or> poisoned os e"
    and "q = (if poisoned os e then p + 1 else if error_is_disk_full os e then 0 else p)" and "\<not> q > MAX_PREVIOUS_IO"
  shows "m (at_recover at (at_sleep at b w')) < m w \<or>
    m (at_recover at (at_sleep at b w')) \<le> m w \<and> Suc MAX_PREVIOUS_IO - q < Suc MAX_PREVIOUS_IO - p"
  using assms unfolding space_comes_back_def by (auto simp: poisoned_def)

lemma retry_loop_returns:
  assumes "space_comes_back os at m"
  shows "\<exists>y. retry_loop os at src backoff p s w = Some y"
proof (induction "(m w, Suc MAX_PREVIOUS_IO - p)" arbitrary: backoff p s w
    rule: wf_induct_rule [OF wf_lex_prod [OF wf_less wf_less]])
  case less: (1 p w backoff s)
  obtain o1 w1 where run: "at_run at w = (o1, w1)" by fastforce
  show ?case
  proof (cases o1)
    case (Inl e)
    let ?w = "at_recover at (at_sleep at backoff w1)"
    let ?q = "if poisoned os e then p + 1 else if error_is_disk_full os e then 0 else p"
    have "m ?w < m w \<or> m ?w \<le> m w \<and> Suc MAX_PREVIOUS_IO - ?q < Suc MAX_PREVIOUS_IO - p"
      if "error_is_disk_full os e \<or> poisoned os e" "\<not> ?q > MAX_PREVIOUS_IO"
      using retry_rank [OF assms run [unfolded Inl] that(1) refl that(2)] .
    then show ?thesis
      using less by (subst retry_loop.simps) (auto simp: run Inl Let_def le_less)
  qed (subst retry_loop.simps, simp add: run)
qed

text \<open>
  Nothing but a full disk goes wrong: every failure is one or the poisoned database it leaves, which a reopen
  cures, space comes back, and the node is not stopping.
\<close>

definition only_full_disk :: "target_os \<Rightarrow> ('w, 'a) attempt \<Rightarrow> ('w \<Rightarrow> nat) \<Rightarrow> bool" where
  "only_full_disk os at m \<longleftrightarrow>
     space_comes_back os at m \<and>
     (\<forall>w e w' b. at_run at w = (Inl e, w') \<longrightarrow>
        (error_is_disk_full os e \<or> poisoned os e) \<and> \<not> at_stopping at w' \<and> \<not> at_stopping at (at_sleep at b w') \<and>
        (poisoned os e \<longrightarrow>
           (case at_run at (at_recover at (at_sleep at b w')) of (Inl e', _) \<Rightarrow> \<not> poisoned os e' | _ \<Rightarrow> True)))"

lemma retry_loop_succeeds:
  assumes "only_full_disk os at m"
    and "p = 0 \<or> p = 1 \<and> (case at_run at w of (Inl e, _) \<Rightarrow> \<not> poisoned os e | _ \<Rightarrow> True)"
  shows "\<exists>v s' w'. retry_loop os at src backoff p s w = Some (Inr v, s', w')"
  using assms(2)
proof (induction "(m w, Suc MAX_PREVIOUS_IO - p)" arbitrary: backoff p s w
    rule: wf_induct_rule [OF wf_lex_prod [OF wf_less wf_less]])
  case less: (1 p w backoff s)
  obtain o1 w1 where run: "at_run at w = (o1, w1)" by fastforce
  show ?case
  proof (cases o1)
    case (Inl e)
    let ?w = "at_recover at (at_sleep at backoff w1)"
    let ?q = "if poisoned os e then p + 1 else if error_is_disk_full os e then 0 else p"
    have e: "error_is_disk_full os e \<or> poisoned os e" "\<not> at_stopping at w1" "\<not> at_stopping at (at_sleep at backoff w1)"
        "poisoned os e \<longrightarrow> (case at_run at ?w of (Inl e', _) \<Rightarrow> \<not> poisoned os e' | _ \<Rightarrow> True)"
      using conjunct2 [OF assms(1) [unfolded only_full_disk_def], rule_format, OF run [unfolded Inl], of backoff] by simp_all
    have p: "poisoned os e \<longrightarrow> p = 0" using less(2) run Inl by auto
    then have next_ok: "?q = 0 \<or> ?q = 1 \<and> (case at_run at ?w of (Inl e', _) \<Rightarrow> \<not> poisoned os e' | _ \<Rightarrow> True)"
      using e by auto
    then have q: "\<not> ?q > MAX_PREVIOUS_IO" by (auto simp: MAX_PREVIOUS_IO_def)
    have "m ?w < m w \<or> m ?w \<le> m w \<and> Suc MAX_PREVIOUS_IO - ?q < Suc MAX_PREVIOUS_IO - p"
      using retry_rank [OF conjunct1 [OF assms(1) [unfolded only_full_disk_def]] run [unfolded Inl] e(1) refl q] .
    then have "\<exists>v s' w'. retry_loop os at src (min (backoff * 2) MAX_BACKOFF) ?q s1 ?w = Some (Inr v, s', w')" for s1
      by (intro less(1) [OF _ next_ok]) (auto simp: le_less split: if_splits)
    then show ?thesis using q e(1-3) by (subst retry_loop.simps) (simp add: run Inl Let_def)
  qed (subst retry_loop.simps, simp add: run)
qed

fun write_attempt :: "'d redb \<Rightarrow> ('m, 'v) raft_json \<Rightarrow> ('m, 'v) log_op \<Rightarrow> ('d log_world, unit) attempt" where
  "write_attempt rb rj (Append es) = retried_attempt rb (append_attempt rb (rj_member rj) es)"
| "write_attempt rb rj op = retried_attempt rb (transact rb (ls_step rj op))"

lemma log_write_attempt:
  fixes rj :: "('m, 'v) raft_json"
  shows "log_write os rb rj op s w = retry os (write_attempt rb rj op) (source_of op) s w"
proof -
  have ext: "ls_step rj (Truncate i) = truncate_log i" "ls_step rj (Purge i) = purge (rj_log_id rj) i"
      "ls_step rj (SaveVote v) = save_vote (rj_vote rj) v"
      "ls_step rj (SaveCommitted c) = save_committed (rj_committed rj) c" for i v c
    by (simp_all add: fun_eq_iff)
  show ?thesis by (cases op) (simp_all add: retried_def ext del: ls_step.simps)
qed

text \<open>
  C32: a write to the Raft log that meets a full disk goes through once space is back. Whenever failures are
  only full disks, and the poisoned databases a reopen cures, and the volume is eventually freed, the
  retry loop ends with the operation applied.
\<close>

theorem stalled_write_completes:
  fixes rj :: "('m, 'v) raft_json"
  assumes "only_full_disk os (write_attempt rb rj op) m"
  shows "\<exists>s' w'. log_write os rb rj op s w = Some (Inr (), s', w') \<and> lw_log w' = ls_step rj op (lw_log w)"
proof -
  obtain s' w' where ok: "retried os rb src f s w = Some (Inr (), s', w')"
    if "retried os rb src f s w = log_write os rb rj op s w" for src f
    using retry_loop_succeeds [OF assms, of 0 w "source_of op" FIRST_BACKOFF s]
    by (auto simp: log_write_attempt retry_def)
  show ?thesis
  proof (cases op)
    case (Append es)
    then show ?thesis using retried_result [OF ok writes_append] ok by fastforce
  qed (use ok retried_result [OF ok writes_transact] in fastforce)+
qed

text \<open>
  The disk guard refuses exactly when it is on, the volume says how much is free, and that is below the
  floor plus what the write needs, saturating; its refusal and the message of a stalled node are both
  answered to the client as an exhausted resource.
\<close>

theorem disk_guard_refuses_iff:
  "(check_need g what' extra why w = Inr () \<longleftrightarrow>
      dg_min_free g = 0 \<or> dg_probe g w = None \<or>
      min (unat (dg_min_free g) + unat extra) (2 ^ 64 - 1) \<le> unat (the (dg_probe g w)))
   \<and> (case check_need g what' extra why w of Inl e \<Rightarrow> store_error_code os e = ResourceExhausted | Inr _ \<Rightarrow> True)
   \<and> store_error_code os (Storage (stall_message src cause)) = ResourceExhausted"
proof -
  have sat: "unat (saturating_add a b) = min (unat a + unat b) (2 ^ 64 - 1)" for a b
  proof (cases "unat a + unat b < 2 ^ 64")
    case True
    then have "unat (a + b) = unat a + unat b" by (simp add: unat_word_ariths)
    then show ?thesis using True by (simp add: saturating_add_def word_less_nat_alt)
  next
    case False
    then have "unat (a + b) = unat a + unat b - 2 ^ 64"
      using unsigned_less [of a, where ?'a = nat] unsigned_less [of b, where ?'a = nat]
      by (simp add: unat_word_ariths mod_if)
    then have "a + b < a" using False unsigned_less [of b, where ?'a = nat] by (simp add: word_less_nat_alt)
    then show ?thesis using False by (simp add: saturating_add_def unsigned_minus_1_eq_mask mask_eq_exp_minus_1)
  qed
  have stall: "is_disk_full os (stall_message src cause)"
    using is_disk_full_prefix [of os "''this node could not '' @ _"] by (simp add: stall_message_def)
  show ?thesis
    using stall is_disk_full_prefix [of os, simplified]
    by (auto simp: check_need_def Let_def word_less_nat_alt sat split: option.splits)
qed

subsection \<open>Witnesses\<close>

text \<open>A disk that stays full for as many commits as the number says.\<close>

definition example_redb :: "nat redb" where
  "example_redb =
     \<lparr>rb_commit = (\<lambda>n. case n of 0 \<Rightarrow> (None, 0) | Suc k \<Rightarrow> (Some [(Some StorageFull, ''no space'')], k)),
      rb_reopen = (\<lambda>n. (None, n)), rb_previous_io = [(None, ''Previous I/O error'')], rb_write_err = (\<lambda>e. e),
      rb_sleep = (\<lambda>_ n. n), rb_stopping = (\<lambda>_. False), rb_guard = None\<rparr>"

definition example_world :: "nat log_world" where
  "example_world = \<lparr>lw_log = log_open, lw_closed = False, lw_env = 1\<rparr>"

lemma example_write:
  "\<exists>s' w'. log_write Linux example_redb example_raft_json (SaveVote [1]) no_stall example_world = Some (Inr (), s', w')"
  by (simp add: retried_def retry_def retry_loop.simps retried_attempt_def transact_def reopen_db_def
      example_redb_def example_world_def Let_def poisoned_def MAX_PREVIOUS_IO_def)

theorem log_write_all_or_nothing_witness:
  "\<exists>s' w'. log_write Linux example_redb example_raft_json (SaveVote [1]) no_stall example_world = Some (Inr (), s', w') \<and>
     lw_log w' = ls_step example_raft_json (SaveVote [1]) log_open \<and> slot LogMeta s' = None"
proof -
  obtain s' w' where run: "log_write Linux example_redb example_raft_json (SaveVote [1]) no_stall example_world = Some (Inr (), s', w')"
    using example_write by blast
  then show ?thesis using log_write_all_or_nothing [OF run] by (auto simp: example_world_def)
qed

lemma example_only_full_disk:
  "only_full_disk Linux (write_attempt example_redb example_raft_json (SaveVote v)) lw_env"
  by (auto simp: only_full_disk_def space_comes_back_def retried_attempt_def transact_def reopen_db_def example_redb_def
      poisoned_def split: nat.splits if_splits)

theorem stalled_write_completes_witness:
  "\<exists>s' w'. log_write Linux example_redb example_raft_json (SaveVote [1]) no_stall example_world = Some (Inr (), s', w') \<and>
     lw_log w' = save_vote (rj_vote example_raft_json) [1] log_open"
  using stalled_write_completes [OF example_only_full_disk [of "[1]"], of no_stall example_world] by (simp add: example_world_def)

end
