(* ===== verification/Credentials.thy ===== *)
theory Credentials
  imports Encoding Wire_Error
begin

text \<open>
  Credentials, crates/graph-proto/src/auth.rs and the files of crates/graph-server/src/auth.rs: the bearer
  header, the token file with its expiry dates, and the cluster secret file. SHA-256 and the TOML parser are
  parameters.
\<close>

subsection \<open>The header\<close>

definition TOKEN_PREFIX :: string where "TOKEN_PREFIX = ''mgt_''"
definition SECRET_PREFIX :: string where "SECRET_PREFIX = ''mgc_''"
definition BODY_LEN :: nat where "BODY_LEN = 43"
definition MAX_HEADER_LEN :: nat where "MAX_HEADER_LEN = 128"

datatype cred_kind = TokenCred | SecretCred

datatype malformed = TooLong | NotAscii | Scheme | Format

definition is_alphanumeric_char :: "char \<Rightarrow> bool" where
  "is_alphanumeric_char c =
     (let n = of_char c :: nat in is_digit_char c \<or> (65 \<le> n \<and> n \<le> 90) \<or> (97 \<le> n \<and> n \<le> 122))"

definition is_b64url :: "char \<Rightarrow> bool" where
  "is_b64url c \<longleftrightarrow> is_alphanumeric_char c \<or> c = CHR ''-'' \<or> c = CHR ''_''"

definition check_format :: "string \<Rightarrow> cred_kind option" where
  "check_format value =
     (case (case strip_prefix TOKEN_PREFIX value of
              Some rest \<Rightarrow> Some (TokenCred, rest)
            | None \<Rightarrow> map_option (Pair SecretCred) (strip_prefix SECRET_PREFIX value)) of
        None \<Rightarrow> None
      | Some (kind, rest) \<Rightarrow> if length rest = BODY_LEN \<and> list_all is_b64url rest then Some kind else None)"

definition parse_bearer :: "u8 list \<Rightarrow> malformed + (cred_kind \<times> string)" where
  "parse_bearer raw =
     (if length raw > MAX_HEADER_LEN then Inl TooLong
      else if \<not> list_all (\<lambda>b. 0x20 \<le> b \<and> b < 0x7F) raw then Inl NotAscii
      else (case from_utf8 raw of
              None \<Rightarrow> Inl NotAscii
            | Some s \<Rightarrow>
                (case split_once CHR '' '' s of
                   None \<Rightarrow> Inl Scheme
                 | Some (scheme, value) \<Rightarrow>
                     if \<not> eq_ignore_ascii_case scheme ''bearer'' then Inl Scheme
                     else (case check_format value of
                             None \<Rightarrow> Inl Format
                           | Some kind \<Rightarrow> Inr (kind, value)))))"

definition bearer_value :: "string \<Rightarrow> u8 list option" where
  "bearer_value value =
     (if check_format value = None then None else Some (as_bytes (''Bearer '' @ value)))"

subsection \<open>Roles\<close>

datatype role = RoleRead | RoleWrite

fun role_as_str :: "role \<Rightarrow> string" where
  "role_as_str RoleRead = ''read''"
| "role_as_str RoleWrite = ''write''"

definition role_parse :: "string \<Rightarrow> role option" where
  "role_parse s = (if s = ''read'' then Some RoleRead else if s = ''write'' then Some RoleWrite else None)"

text \<open>The derived order: read below write.\<close>

fun role_covers :: "role \<Rightarrow> role \<Rightarrow> bool" where
  "role_covers RoleWrite need = True"
| "role_covers RoleRead RoleRead = True"
| "role_covers RoleRead RoleWrite = False"

subsection \<open>Dates\<close>

text \<open>\<open>str::parse::<i64>\<close>: an optional sign and digits.\<close>

definition parse_i64 :: "string \<Rightarrow> int option" where
  "parse_i64 t =
     (let (neg, digits) =
        (case t of
           [] \<Rightarrow> (False, [])
         | c # cs \<Rightarrow> if c = CHR ''-'' then (True, cs) else if c = CHR ''+'' then (False, cs) else (False, t))
      in if digits = [] \<or> \<not> list_all is_digit_char digits then None
         else let v = (if neg then - int (read_nat digits) else int (read_nat digits))
              in if - (2 ^ 63) \<le> v \<and> v < 2 ^ 63 then Some v else None)"

text \<open>The slice \<open>s[lo..hi]\<close> when it is all digits, as a number.\<close>

definition num :: "string \<Rightarrow> nat \<Rightarrow> nat \<Rightarrow> int option" where
  "num s lo hi =
     (let t = take (hi - lo) (drop lo s)
      in if hi \<le> length s \<and> list_all is_digit_char t then parse_i64 t else None)"

text \<open>Days from the civil date; \<open>div\<close> rounds down as \<open>div_euclid\<close> does for a positive divisor.\<close>

definition civil_days :: "int \<Rightarrow> int \<Rightarrow> int \<Rightarrow> int" where
  "civil_days y mo d =
     (let yy = (if mo \<le> 2 then y - 1 else y);
          era = yy div 400;
          yoe = yy - era * 400;
          mp = (mo + 9) mod 12;
          doy = (153 * mp + 2) div 5 + d - 1;
          doe = yoe * 365 + yoe div 4 - yoe div 100 + doy
      in era * 146097 + doe - 719468)"

definition parse_offset :: "string \<Rightarrow> int option" where
  "parse_offset tz =
     (if tz = ''Z'' \<or> tz = ''z'' then Some 0
      else if length tz = 6 \<and> (hd tz = CHR ''+'' \<or> hd tz = CHR ''-'') \<and> tz ! 3 = CHR '':'' then
        Option.bind (parse_i64 (take 2 (drop 1 tz))) (\<lambda>oh.
        Option.bind (parse_i64 (drop 4 tz)) (\<lambda>om.
          if oh > 23 \<or> om > 59 then None
          else let v = oh * 3600 + om * 60 in Some (if hd tz = CHR ''-'' then - v else v)))
      else None)"

text \<open>The fraction at position 19, in nanoseconds, and where it ends.\<close>

definition parse_fraction :: "string \<Rightarrow> (int \<times> nat) option" where
  "parse_fraction s =
     (if length s > 19 \<and> s ! 19 = CHR ''.'' then
        let digits = takeWhile is_digit_char (drop 20 s);
            frac = take 9 digits
        in if digits = [] then None
           else Some (int (read_nat frac) * 10 ^ (9 - length frac), 20 + length digits)
      else Some (0, 19))"

text \<open>
  A \<open>SystemTime\<close> is the number of nanoseconds since the epoch. Years of four digits are far inside its range,
  so the checked additions succeed.
\<close>

definition parse_rfc3339 :: "string \<Rightarrow> int option" where
  "parse_rfc3339 s =
     (if length s < 20 \<or> \<not> list_all (\<lambda>c. of_char c < (128 :: nat)) s then None
      else if s ! 4 \<noteq> CHR ''-'' \<or> s ! 7 \<noteq> CHR ''-'' \<or> s ! 10 \<notin> {CHR ''T'', CHR ''t'', CHR '' ''} then None
      else if s ! 13 \<noteq> CHR '':'' \<or> s ! 16 \<noteq> CHR '':'' then None
      else
        Option.bind (num s 0 4) (\<lambda>y. Option.bind (num s 5 7) (\<lambda>mo. Option.bind (num s 8 10) (\<lambda>d.
        Option.bind (num s 11 13) (\<lambda>h. Option.bind (num s 14 16) (\<lambda>mi. Option.bind (num s 17 19) (\<lambda>sec.
          if \<not> (1 \<le> mo \<and> mo \<le> 12) \<or> \<not> (1 \<le> d \<and> d \<le> 31) \<or> h > 23 \<or> mi > 59 \<or> sec > 60 then None
          else
            Option.bind (parse_fraction s) (\<lambda>(nanos, i).
            Option.bind (parse_offset (drop i s)) (\<lambda>offset.
              let secs = civil_days y mo d * 86400 + h * 3600 + mi * 60 + sec - offset
              in Some (secs * 10 ^ 9 + nanos))))))))))"

subsection \<open>The token file\<close>

record token_entry =
  te_id :: string
  te_role :: role
  te_digest :: "u8 list"
  te_expires :: "int option"

type_synonym token_set = "token_entry list"

text \<open>What serde and toml deliver: a value of another type than string or date-time is \<open>TOther\<close>.\<close>

datatype toml_value = TString string | TDatetime string | TOther

record raw_token =
  rt_id :: string
  rt_role :: string
  rt_sha256 :: string
  rt_expires :: "toml_value option"
  rt_scope :: "toml_value option"

text \<open>The parser: the position and message of an error, or the tokens with the positions they start at.\<close>

type_synonym toml = "string \<Rightarrow> (nat option \<times> string) + (nat \<times> raw_token) list"

definition line_of :: "string \<Rightarrow> nat \<Rightarrow> nat" where
  "line_of txt at = length (filter (\<lambda>c. c = CHR 0x0A) (take at txt)) + 1"

definition hex_value :: "char \<Rightarrow> nat option" where
  "hex_value c =
     (let n = of_char c in
      if is_digit_char c then Some (n - 48)
      else if 97 \<le> n \<and> n \<le> 102 then Some (n - 87)
      else if 65 \<le> n \<and> n \<le> 70 then Some (n - 55)
      else None)"

fun hex_bytes :: "string \<Rightarrow> u8 list option" where
  "hex_bytes [] = Some []"
| "hex_bytes [c] = None"
| "hex_bytes (c # d # rest) =
     Option.bind (hex_value c) (\<lambda>hi. Option.bind (hex_value d) (\<lambda>lo.
       map_option (Cons (of_nat (16 * hi + lo))) (hex_bytes rest)))"

definition parse_hex :: "string \<Rightarrow> u8 list option" where
  "parse_hex s =
     (if length s \<noteq> 64 \<or> \<not> list_all (\<lambda>c. hex_value c \<noteq> None) s then None else hex_bytes s)"

definition token_error :: "nat \<Rightarrow> string \<Rightarrow> string \<Rightarrow> string" where
  "token_error line name what' = ''line '' @ show_nat line @ '' (token `'' @ name @ ''`): '' @ what'"

definition parse_expires :: "toml_value option \<Rightarrow> string + int option" where
  "parse_expires v =
     (case v of
        None \<Rightarrow> Inr None
      | Some (TString s) \<Rightarrow>
          (case parse_rfc3339 s of
             Some t \<Rightarrow> Inr (Some t)
           | None \<Rightarrow> Inl ''`expires` is not an RFC 3339 date-time with an offset'')
      | Some (TDatetime s) \<Rightarrow>
          (case parse_rfc3339 s of
             Some t \<Rightarrow> Inr (Some t)
           | None \<Rightarrow> Inl ''`expires` is not an RFC 3339 date-time with an offset'')
      | Some TOther \<Rightarrow> Inl ''`expires` is not an RFC 3339 date-time'')"

fun token_loop ::
  "string \<Rightarrow> (nat \<times> raw_token) list \<Rightarrow> string list \<Rightarrow> u8 list list \<Rightarrow> token_set \<Rightarrow> string + token_set" where
  "token_loop txt [] ids digests entries = Inr entries"
| "token_loop txt ((start, t) # rest) ids digests entries =
     (let line = line_of txt start; err = token_error line (rt_id t) in
      if rt_scope t \<noteq> None then
        Inl (err ''`scope` is reserved for per-org/repo permissions (#289) and not supported in this version; refusing the file rather than ignoring it'')
      else if trim (chars_of (rt_id t)) = [] then Inl (''line '' @ show_nat line @ '': a token has an empty `id`'')
      else (case role_parse (rt_role t) of
              None \<Rightarrow> Inl (err ''unknown `role` (expected `read` or `write`)'')
            | Some role \<Rightarrow>
                (case parse_hex (rt_sha256 t) of
                   None \<Rightarrow> Inl (err ''`sha256` must be 64 hexadecimal characters (the SHA-256 of the token)'')
                 | Some digest \<Rightarrow>
                     (case parse_expires (rt_expires t) of
                        Inl e \<Rightarrow> Inl (err e)
                      | Inr expires \<Rightarrow>
                          if rt_id t \<in> set ids then Inl (err ''duplicate `id`'')
                          else if digest \<in> set digests then
                            Inl (err ''duplicate `sha256` (two entries for one token)'')
                          else
                            token_loop txt rest (rt_id t # ids) (digest # digests)
                              (entries @ [\<lparr>te_id = rt_id t, te_role = role, te_digest = digest, te_expires = expires\<rparr>])))))"

definition parse_token_file :: "toml \<Rightarrow> string \<Rightarrow> string + token_set" where
  "parse_token_file toml txt =
     (case toml txt of
        Inl (span, msg) \<Rightarrow>
          Inl (''line '' @ show_nat (case span of None \<Rightarrow> 0 | Some s \<Rightarrow> line_of txt s) @ '': '' @ msg)
      | Inr tokens \<Rightarrow>
          if tokens = [] then Inl ''the file defines no [[token]]; refusing a set that admits nobody''
          else token_loop txt tokens [] [] [])"

text \<open>\<open>ct_find\<close> looks at every digest; a later match overwrites an earlier one.\<close>

fun ct_find_loop :: "u8 list list \<Rightarrow> u8 list \<Rightarrow> nat \<Rightarrow> nat \<Rightarrow> bool \<Rightarrow> nat \<times> bool" where
  "ct_find_loop [] d i at found = (at, found)"
| "ct_find_loop (stored # rest) d i at found =
     (let eq = (stored = d) in ct_find_loop rest d (Suc i) (if eq then i else at) (found \<or> eq))"

definition ct_find :: "u8 list list \<Rightarrow> u8 list \<Rightarrow> nat option" where
  "ct_find digests d = (let (at, found) = ct_find_loop digests d 0 0 False in if found then Some at else None)"

datatype lookup = Found token_entry | LookupExpired | LookupUnknown

definition lookup_token :: "token_set \<Rightarrow> u8 list \<Rightarrow> int \<Rightarrow> lookup" where
  "lookup_token entries d now =
     (case ct_find (map te_digest entries) d of
        Some i \<Rightarrow>
          (let e = entries ! i in
           if (case te_expires e of Some t \<Rightarrow> now \<ge> t | None \<Rightarrow> False) then LookupExpired else Found e)
      | None \<Rightarrow> LookupUnknown)"

subsection \<open>The cluster secret file\<close>

record secret_set =
  sc_digests :: "u8 list list"
  sc_send :: string

text \<open>\<open>str::lines\<close>.\<close>

definition strip_cr :: "string \<Rightarrow> string" where
  "strip_cr l = (if l \<noteq> [] \<and> last l = CHR 0x0D then butlast l else l)"

fun str_lines_acc :: "string \<Rightarrow> string \<Rightarrow> string list" where
  "str_lines_acc acc [] = (if acc = [] then [] else [rev acc])"
| "str_lines_acc acc (c # cs) =
     (if c = CHR 0x0A then strip_cr (rev acc) # str_lines_acc [] cs else str_lines_acc (c # acc) cs)"

definition str_lines :: "string \<Rightarrow> string list" where
  "str_lines s = str_lines_acc [] s"

fun secret_loop :: "string list \<Rightarrow> nat \<Rightarrow> string list \<Rightarrow> string + string list" where
  "secret_loop [] n lines = Inr lines"
| "secret_loop (l # rest) n lines =
     (let l = str_of (trim (chars_of l)) in
      if l = [] \<or> prefix ''#'' l then secret_loop rest (Suc n) lines
      else if check_format l \<noteq> Some SecretCred then
        Inl (''line '' @ show_nat (n + 1) @
          '': not a cluster secret (`mgc_` followed by 43 base64url characters; create one with `memory-graph auth new-secret`)'')
      else secret_loop rest (Suc n) (lines @ [l]))"

definition parse_secret_file :: "(string \<Rightarrow> u8 list) \<Rightarrow> string \<Rightarrow> string + secret_set" where
  "parse_secret_file sha txt =
     (case secret_loop (str_lines txt) 0 [] of
        Inl e \<Rightarrow> Inl e
      | Inr lines \<Rightarrow>
          if lines = [] then Inl ''the file holds no cluster secret''
          else if length lines \<le> 2 then Inr \<lparr>sc_digests = map sha lines, sc_send = hd lines\<rparr>
          else Inl (''the file holds '' @ show_nat (length lines) @
                 '' secrets; at most two (current, then next) are allowed''))"

subsection \<open>Lookups\<close>

lemma ct_find_loop_append:
  "ct_find_loop (xs @ ys) d i at found =
     (let (at', found') = ct_find_loop xs d i at found in ct_find_loop ys d (i + length xs) at' found')"
  by (induction xs arbitrary: i at found) (simp_all add: Let_def)

lemma ct_find_loop_notin: "d \<notin> set ds \<Longrightarrow> ct_find_loop ds d i at found = (at, found)"
  by (induction ds arbitrary: i at found) auto

lemma ct_find_notin: "d \<notin> set ds \<Longrightarrow> ct_find ds d = None"
  by (simp add: ct_find_def ct_find_loop_notin)

lemma ct_find_nth:
  assumes "distinct ds" and "k < length ds"
  shows "ct_find ds (ds ! k) = Some k"
proof -
  have split: "ds = take k ds @ ds ! k # drop (Suc k) ds" using assms(2) by (rule id_take_nth_drop)
  have "distinct (take k ds @ ds ! k # drop (Suc k) ds)" using assms(1) split by simp
  then have notin: "ds ! k \<notin> set (take k ds)" "ds ! k \<notin> set (drop (Suc k) ds)" by simp_all
  have "ct_find_loop (take k ds @ ds ! k # drop (Suc k) ds) (ds ! k) 0 0 False = (k, True)"
    using notin assms(2) by (simp add: ct_find_loop_append ct_find_loop_notin)
  then show ?thesis using split by (simp add: ct_find_def)
qed

lemma ct_find_in: "ct_find ds d \<noteq> None \<longleftrightarrow> d \<in> set ds"
proof (cases "d \<in> set ds")
  case True
  have "snd (ct_find_loop ds d i at found)" if "found \<or> d \<in> set ds" for i at found
    using that by (induction ds arbitrary: i at found) (auto simp: Let_def)
  from this [of False 0 0] show ?thesis using True by (simp add: ct_find_def case_prod_beta)
qed (simp add: ct_find_notin)

definition expired :: "token_entry \<Rightarrow> int \<Rightarrow> bool" where
  "expired e now \<longleftrightarrow> (case te_expires e of Some t \<Rightarrow> now \<ge> t | None \<Rightarrow> False)"

lemma lookup_token_distinct:
  assumes "distinct (map te_digest ts)"
  shows "e \<in> set ts \<Longrightarrow> lookup_token ts (te_digest e) now = (if expired e now then LookupExpired else Found e)"
    and "d \<notin> te_digest ` set ts \<Longrightarrow> lookup_token ts d now = LookupUnknown"
proof -
  assume "e \<in> set ts"
  then obtain k where k: "k < length ts" "ts ! k = e" by (auto simp: in_set_conv_nth)
  then have "ct_find (map te_digest ts) (te_digest e) = Some k"
    using ct_find_nth [OF assms, of k] by simp
  then show "lookup_token ts (te_digest e) now = (if expired e now then LookupExpired else Found e)"
    using k by (simp add: lookup_token_def expired_def Let_def)
qed (simp add: lookup_token_def ct_find_notin)

subsection \<open>Accepted token files\<close>

lemma hex_bytes_length: "hex_bytes s = Some bs \<Longrightarrow> 2 * length bs = length s"
  by (induction s arbitrary: bs rule: hex_bytes.induct) (auto simp: bind_eq_Some_conv)

lemma parse_hex_length: "parse_hex s = Some bs \<Longrightarrow> length bs = 32"
  using hex_bytes_length [of s bs] by (auto simp: parse_hex_def split: if_splits)

definition token_set_ok :: "token_set \<Rightarrow> bool" where
  "token_set_ok ts \<longleftrightarrow>
     distinct (map te_id ts) \<and> distinct (map te_digest ts) \<and> list_all (\<lambda>e. length (te_digest e) = 32) ts"

lemma token_loop_ok:
  "\<lbrakk>token_loop txt raw ids digests ts = Inr ts'; token_set_ok ts; set ids = te_id ` set ts;
    set digests = te_digest ` set ts\<rbrakk> \<Longrightarrow> token_set_ok ts' \<and> length ts' = length ts + length raw"
proof (induction raw arbitrary: ids digests ts)
  case (Cons st raw)
  obtain start t where st: "st = (start, t)" by fastforce
  obtain role digest expires where ok: "role_parse (rt_role t) = Some role" "parse_hex (rt_sha256 t) = Some digest"
      "parse_expires (rt_expires t) = Inr expires" "rt_id t \<notin> set ids" "digest \<notin> set digests"
    using Cons.prems(1) by (auto simp: st Let_def split: if_splits option.splits sum.splits)
  let ?e = "\<lparr>te_id = rt_id t, te_role = role, te_digest = digest, te_expires = expires\<rparr>"
  have "token_loop txt raw (rt_id t # ids) (digest # digests) (ts @ [?e]) = Inr ts'"
    using Cons.prems(1) ok by (auto simp: st Let_def split: if_splits)
  moreover have "token_set_ok (ts @ [?e])"
    using Cons.prems(2-4) ok parse_hex_length by (auto simp: token_set_ok_def)
  ultimately show ?case
    using Cons.IH [of "rt_id t # ids" "digest # digests" "ts @ [?e]"] Cons.prems(3,4) by auto
qed simp

lemma parse_token_file_ok:
  assumes "parse_token_file toml txt = Inr ts"
  shows "token_set_ok ts" and "ts \<noteq> []"
proof -
  obtain raw where raw: "raw \<noteq> []" "token_loop txt raw [] [] [] = Inr ts"
    using assms by (auto simp: parse_token_file_def split: sum.splits prod.splits if_splits)
  have "token_set_ok ts \<and> length ts = length raw"
    using token_loop_ok [OF raw(2)] by (simp add: token_set_ok_def)
  then show "token_set_ok ts" "ts \<noteq> []" using raw(1) by auto
qed

subsection \<open>The calendar\<close>

definition leap :: "int \<Rightarrow> bool" where
  "leap y \<longleftrightarrow> y mod 4 = 0 \<and> (y mod 100 \<noteq> 0 \<or> y mod 400 = 0)"

definition month_days :: "int \<Rightarrow> int \<Rightarrow> int" where
  "month_days y mo =
     (if mo = 2 then if leap y then 29 else 28 else if mo \<in> {4, 6, 9, 11} then 30 else 31)"

text \<open>The day after a day of the Gregorian calendar.\<close>

fun next_day :: "int \<times> int \<times> int \<Rightarrow> int \<times> int \<times> int" where
  "next_day (y, mo, d) =
     (if d < month_days y mo then (y, mo, d + 1) else if mo < 12 then (y, mo + 1, 1) else (y + 1, 1, 1))"

fun civil_days_of :: "int \<times> int \<times> int \<Rightarrow> int" where
  "civil_days_of (y, mo, d) = civil_days y mo d"

definition year_days :: "int \<Rightarrow> int" where
  "year_days y = 365 * y + y div 4 - y div 100 + y div 400"

lemma era_days:
  assumes "0 \<le> yoe" and "yoe < 400" and "era * 400 + yoe = y"
  shows "year_days y = era * 146097 + (yoe * 365 + yoe div 4 - yoe div 100)"
proof -
  obtain a b where ab: "yoe div 4 = a" "yoe div 100 = b" by blast
  have "(era * 100 * 4 + yoe) div 4 = era * 100 + a" "(era * 4 * 100 + yoe) div 100 = era * 4 + b"
    unfolding ab [symmetric] by (rule div_mult_self3; simp)+
  then have "y div 4 = era * 100 + a" "y div 100 = era * 4 + b" using assms(3) by simp_all
  moreover have "y div 400 = era" by (rule int_div_pos_eq [of _ _ _ yoe]) (use assms in simp_all)
  ultimately show ?thesis unfolding year_days_def ab assms(3) [symmetric] by simp
qed

lemma civil_days_closed:
  "civil_days y mo d =
     year_days (if mo \<le> 2 then y - 1 else y) + (153 * ((mo + 9) mod 12) + 2) div 5 + d - 1 - 719468"
proof -
  define yy where "yy = (if mo \<le> 2 then y - 1 else y)"
  define doy where "doy = (153 * ((mo + 9) mod 12) + 2) div 5"
  define yoe where "yoe = yy - yy div 400 * 400"
  have yoe: "0 \<le> yoe" "yoe < 400" "yy div 400 * 400 + yoe = yy" by (simp_all add: yoe_def minus_div_mult_eq_mod)
  have "civil_days y mo d = yy div 400 * 146097 + (yoe * 365 + yoe div 4 - yoe div 100 + (doy + d - 1)) - 719468"
    unfolding civil_days_def Let_def yoe_def yy_def doy_def by (rule refl)
  also have "\<dots> = year_days yy + doy + d - 1 - 719468"
    unfolding era_days [OF yoe] by simp
  finally show ?thesis by (simp only: yy_def doy_def)
qed

lemma div_pred: "0 < n \<Longrightarrow> (y - 1) div n = y div n - (if y mod n = 0 then 1 else 0)" for n y :: int
proof -
  assume n: "0 < n"
  have y: "y = n * (y div n) + y mod n" by simp
  show ?thesis
  proof (cases "y mod n = 0")
    case True
    have "y - 1 = n * (y div n - 1) + (n - 1)" using y True by (simp add: algebra_simps)
    then have "(y - 1) div n = y div n - 1" using n by (intro int_div_pos_eq [where r = "n - 1"]) auto
    then show ?thesis using True by simp
  next
    case False
    then have "0 < y mod n" "y mod n < n" using n pos_mod_sign [of n y] pos_mod_bound [of n y] by linarith+
    moreover have "y - 1 = n * (y div n) + (y mod n - 1)" using y by simp
    ultimately have "(y - 1) div n = y div n" by (intro int_div_pos_eq [where r = "y mod n - 1"]) auto
    then show ?thesis using False by simp
  qed
qed

lemma year_days_step: "year_days y = year_days (y - 1) + (if leap y then 366 else 365)"
proof -
  have "4 dvd (100 :: int)" "100 dvd (400 :: int)" by simp_all
  then have m: "y mod 400 = 0 \<longrightarrow> y mod 100 = 0" "y mod 100 = 0 \<longrightarrow> y mod 4 = 0"
    by (meson dvd_imp_mod_0 dvd_trans mod_0_imp_dvd)+
  obtain a b c where abc: "y div 4 = a" "y div 100 = b" "y div 400 = c" by blast
  have p: "(y - 1) div 4 = a - (if y mod 4 = 0 then 1 else 0)" "(y - 1) div 100 = b - (if y mod 100 = 0 then 1 else 0)"
      "(y - 1) div 400 = c - (if y mod 400 = 0 then 1 else 0)"
    unfolding abc [symmetric] by (rule div_pred; simp)+
  show ?thesis
    unfolding year_days_def leap_def p abc
    using m by (cases "y mod 4 = 0"; cases "y mod 100 = 0"; cases "y mod 400 = 0") simp_all
qed

lemma civil_days_next:
  assumes "1 \<le> mo" "mo \<le> 12" "1 \<le> d" "d \<le> month_days y mo"
  shows "civil_days_of (next_day (y, mo, d)) = civil_days y mo d + 1"
proof (cases "d < month_days y mo")
  case False
  then have d: "d = month_days y mo" using assms by simp
  have "mo = 1 \<or> mo = 2 \<or> mo = 3 \<or> mo = 4 \<or> mo = 5 \<or> mo = 6 \<or> mo = 7 \<or> mo = 8 \<or> mo = 9 \<or> mo = 10 \<or> mo = 11 \<or> mo = 12"
    using assms(1,2) by presburger
  then show ?thesis
    by (elim disjE) (simp_all add: d civil_days_closed month_days_def year_days_step [of y])
qed (simp add: civil_days_closed)

subsection \<open>Reading a date\<close>

definition pad2 :: "nat \<Rightarrow> string" where
  "pad2 n = [char_of (48 + n div 10), char_of (48 + n mod 10)]"

text \<open>A date and time as RFC 3339 writes it in UTC.\<close>

definition rfc3339_local :: "nat \<Rightarrow> nat \<Rightarrow> nat \<Rightarrow> nat \<Rightarrow> nat \<Rightarrow> nat \<Rightarrow> string" where
  "rfc3339_local y mo d h mi sec =
     pad2 (y div 100) @ pad2 (y mod 100) @ ''-'' @ pad2 mo @ ''-'' @ pad2 d @ ''T'' @ pad2 h @ '':'' @ pad2 mi @
     '':'' @ pad2 sec"

definition rfc3339_text :: "nat \<Rightarrow> nat \<Rightarrow> nat \<Rightarrow> nat \<Rightarrow> nat \<Rightarrow> nat \<Rightarrow> string" where
  "rfc3339_text y mo d h mi sec = rfc3339_local y mo d h mi sec @ ''Z''"

definition fraction_text :: "string \<Rightarrow> string" where
  "fraction_text ds = (if ds = [] then [] else CHR ''.'' # ds)"

definition offset_text :: "bool \<Rightarrow> nat \<Rightarrow> nat \<Rightarrow> string" where
  "offset_text neg oh om = (if neg then ''-'' else ''+'') @ pad2 oh @ '':'' @ pad2 om"

lemma is_digit_not_sign: "is_digit_char c \<Longrightarrow> c \<noteq> CHR ''-'' \<and> c \<noteq> CHR ''+'' \<and> (of_char c :: nat) < 128"
  by (auto simp: is_digit_char_def)

lemma digit_is_digit [simp]: "n < 10 \<Longrightarrow> is_digit_char (char_of (48 + n))" for n :: nat
  by (simp add: is_digit_char_def digit_char)

lemma pad2_digits: "n < 100 \<Longrightarrow> list_all is_digit_char (pad2 n)"
  by (auto simp: pad2_def)

lemma pad2_ascii: "n < 100 \<Longrightarrow> list_all (\<lambda>c. of_char c < (128 :: nat)) (pad2 n)"
  using pad2_digits [of n] is_digit_not_sign by (auto simp: list_all_iff)

lemma read_pad2: "n < 100 \<Longrightarrow> read_nat (pad2 n) = n"
  by (simp add: pad2_def read_nat_def digit_char)

lemma read_pad4: "n < 10000 \<Longrightarrow> read_nat (pad2 (n div 100) @ pad2 (n mod 100)) = n"
proof -
  assume "n < 10000"
  then have n: "n div 100 < 100" "n mod 100 < 100" by auto
  have "read_nat (s @ pad2 k) = 100 * read_nat s + k" if "k < 100" for s k
    using that by (simp add: pad2_def read_nat_def digit_char)
  then show ?thesis using n by (simp add: read_pad2)
qed

lemma parse_i64_digits:
  assumes "t \<noteq> []" and "list_all is_digit_char t" and "read_nat t < 2 ^ 63"
  shows "parse_i64 t = Some (int (read_nat t))"
proof -
  obtain c cs where t: "t = c # cs" using assms(1) by (cases t) auto
  have "c \<noteq> CHR ''-''" "c \<noteq> CHR ''+''" using is_digit_not_sign assms(2) t by auto
  then have "(case t of [] \<Rightarrow> (False, []) | c # cs \<Rightarrow> if c = CHR ''-'' then (True, cs) else if c = CHR ''+'' then (False, cs) else (False, t)) = (False, t)"
    by (simp add: t)
  moreover have "int (read_nat t) < 2 ^ 63" using assms(3) by (simp add: of_nat_less_iff [symmetric] del: of_nat_less_iff)
  ultimately show ?thesis using assms(1,2) by (simp add: parse_i64_def)
qed

lemma num_digits:
  assumes "s = a @ t @ b" and "lo = length a" and "hi = lo + length t" and "t \<noteq> []" and "list_all is_digit_char t"
    and "read_nat t = n" and "n < 10000"
  shows "num s lo hi = Some (int n)"
  using assms parse_i64_digits [of t] by (simp add: num_def)

lemma rfc3339_local_shape:
  "length (rfc3339_local y mo d h mi sec) = 19" "rfc3339_local y mo d h mi sec ! 4 = CHR ''-''"
  "rfc3339_local y mo d h mi sec ! 7 = CHR ''-''" "rfc3339_local y mo d h mi sec ! 10 = CHR ''T''"
  "rfc3339_local y mo d h mi sec ! 13 = CHR '':''" "rfc3339_local y mo d h mi sec ! 16 = CHR '':''"
  by (simp_all add: rfc3339_local_def pad2_def)

text \<open>The date and time are read from the first 19 bytes; what follows gives the fraction and the offset.\<close>

lemma parse_rfc3339_local:
  assumes "y < 10000" "1 \<le> mo" "mo \<le> 12" "1 \<le> d" "d \<le> 31" "h < 24" "mi < 60" "sec < 60"
    and "rest \<noteq> []" "list_all (\<lambda>c. of_char c < (128 :: nat)) rest"
  defines "s \<equiv> rfc3339_local y mo d h mi sec @ rest"
  shows "parse_rfc3339 s = Option.bind (parse_fraction s) (\<lambda>(nanos, i). Option.bind (parse_offset (drop i s)) (\<lambda>offset.
    Some ((civil_days (int y) (int mo) (int d) * 86400 + int h * 3600 + int mi * 60 + int sec - offset) * 10 ^ 9 + nanos)))"
proof -
  let ?y = "pad2 (y div 100) @ pad2 (y mod 100)"
  have len [simp]: "length (pad2 n) = 2" "pad2 n \<noteq> []" for n by (simp_all add: pad2_def)
  have n: "y div 100 < 100" "y mod 100 < 100" "mo < 100" "d < 100" "h < 100" "mi < 100" "sec < 100" using assms by auto
  have ascii: "list_all (\<lambda>c. of_char c < (128 :: nat)) s"
    using n assms(10) by (simp add: s_def rfc3339_local_def pad2_ascii)
  have nums: "num s 0 4 = Some (int y)" "num s 5 7 = Some (int mo)" "num s 8 10 = Some (int d)"
      "num s 11 13 = Some (int h)" "num s 14 16 = Some (int mi)" "num s 17 19 = Some (int sec)"
    by (rule num_digits [where a = "[]" and t = ?y and b = "drop 4 s"]
        num_digits [where a = "take 5 s" and t = "pad2 mo" and b = "drop 7 s"]
        num_digits [where a = "take 8 s" and t = "pad2 d" and b = "drop 10 s"]
        num_digits [where a = "take 11 s" and t = "pad2 h" and b = "drop 13 s"]
        num_digits [where a = "take 14 s" and t = "pad2 mi" and b = "drop 16 s"]
        num_digits [where a = "take 17 s" and t = "pad2 sec" and b = "drop 19 s"];
        use assms(1-8) n in \<open>simp add: s_def rfc3339_local_def pad2_digits read_pad2 read_pad4\<close>)+
  have "20 \<le> length s" "s ! 4 = CHR ''-''" "s ! 7 = CHR ''-''" "s ! 10 = CHR ''T''" "s ! 13 = CHR '':''" "s ! 16 = CHR '':''"
    using assms(9) by (simp_all add: s_def nth_append rfc3339_local_shape Suc_le_eq)
  then show ?thesis using assms(1-8) ascii nums by (simp add: parse_rfc3339_def Let_def)
qed

lemma parse_rfc3339_text:
  assumes "y < 10000" "1 \<le> mo" "mo \<le> 12" "1 \<le> d" "d \<le> 31" "h < 24" "mi < 60" "sec < 60"
  shows "parse_rfc3339 (rfc3339_text y mo d h mi sec) =
    Some ((civil_days (int y) (int mo) (int d) * 86400 + int h * 3600 + int mi * 60 + int sec) * 10 ^ 9)"
proof -
  let ?s = "rfc3339_local y mo d h mi sec @ ''Z''"
  have "parse_fraction ?s = Some (0, 19)" "drop 19 ?s = ''Z''"
    by (simp_all add: parse_fraction_def nth_append rfc3339_local_shape)
  then show ?thesis
    using parse_rfc3339_local [OF assms, of "''Z''"] by (simp add: rfc3339_text_def parse_offset_def)
qed

lemma parse_offset_text:
  assumes "oh < 24" "om < 60"
  shows "parse_offset (offset_text neg oh om) = Some ((if neg then - 1 else 1) * (int oh * 3600 + int om * 60))"
proof -
  have "parse_i64 (pad2 oh) = Some (int oh)" "parse_i64 (pad2 om) = Some (int om)"
    using assms parse_i64_digits [of "pad2 oh"] parse_i64_digits [of "pad2 om"] pad2_digits [of oh] pad2_digits [of om]
    by (simp_all add: read_pad2) (simp_all add: pad2_def)
  moreover have "length (pad2 oh) = 2" "length (pad2 om) = 2" by (simp_all add: pad2_def)
  ultimately show ?thesis
    using assms by (simp add: parse_offset_def offset_text_def nth_append drop_Cons' Let_def)
qed

lemma parse_fraction_text:
  assumes "length a = 19" "list_all is_digit_char ds" "ds = [] \<Longrightarrow> b \<noteq> [] \<and> hd b \<noteq> CHR ''.''"
    "b \<noteq> [] \<Longrightarrow> \<not> is_digit_char (hd b)"
  shows "parse_fraction (a @ fraction_text ds @ b) =
    Some (int (read_nat (take 9 ds)) * 10 ^ (9 - length (take 9 ds)), 19 + length (fraction_text ds))"
proof (cases "ds = []")
  case True
  then show ?thesis
    using assms by (cases b) (simp_all add: parse_fraction_def fraction_text_def nth_append read_nat_def)
next
  case False
  then have "takeWhile is_digit_char (ds @ b) = ds"
    using assms(2,4) by (cases b) (simp_all add: takeWhile_append list_all_iff)
  moreover have "drop 20 (a @ fraction_text ds @ b) = ds @ b" using False assms(1) by (simp add: fraction_text_def drop_Cons')
  ultimately show ?thesis using False assms(1) by (simp add: parse_fraction_def fraction_text_def nth_append Let_def)
qed

subsection \<open>The header round trip\<close>

lemma is_b64url_printable: "is_b64url c \<Longrightarrow> 0x20 < (of_char c :: nat) \<and> (of_char c :: nat) < 0x7F"
  by (auto simp: is_b64url_def is_alphanumeric_char_def is_digit_char_def Let_def)

lemma check_format_chars:
  assumes "check_format v = Some k"
  shows "length v = 47" and "c \<in> set v \<Longrightarrow> 0x20 < (of_char c :: nat) \<and> (of_char c :: nat) < 0x7F"
proof -
  obtain rest where v: "v = ''mgt_'' @ rest \<or> v = ''mgc_'' @ rest" "length rest = 43" "list_all is_b64url rest"
    using assms by (auto simp: check_format_def strip_prefix_def TOKEN_PREFIX_def SECRET_PREFIX_def BODY_LEN_def prefix_def
        split: if_splits option.splits prod.splits)
  show "length v = 47" using v by auto
  show "0x20 < (of_char c :: nat) \<and> (of_char c :: nat) < 0x7F" if "c \<in> set v"
    using that v is_b64url_printable by (auto simp: list_all_iff)
qed

lemma utf8_ok_ascii: "list_all (\<lambda>b. b < 0x80) bs \<Longrightarrow> utf8_ok_nat bs"
  by (induction bs) simp_all

lemma from_utf8_ascii:
  assumes "\<forall>c \<in> set s. (of_char c :: nat) < 0x80"
  shows "from_utf8 (as_bytes s) = Some s"
proof -
  have "map unat (as_bytes s) = map of_char s" by (simp add: as_bytes_def unat_of_nat_u8)
  then show ?thesis
    using assms utf8_ok_ascii [of "map of_char s"] by (simp add: from_utf8_def utf8_ok_def list_all_iff)
qed

lemma parse_bearer_value:
  assumes "check_format v = Some k"
  shows "parse_bearer (as_bytes (''Bearer '' @ v)) = Inr (k, v)"
proof -
  let ?s = "''Bearer '' @ v"
  have chars: "\<forall>c \<in> set ?s. 0x20 \<le> (of_char c :: nat) \<and> (of_char c :: nat) < 0x7F"
    using check_format_chars(2) [OF assms] by (auto simp: order.strict_implies_order)
  then have "list_all (\<lambda>b. 0x20 \<le> b \<and> b < 0x7F) (as_bytes ?s)"
    by (simp add: as_bytes_def list_all_iff word_le_nat_alt word_less_nat_alt unat_of_nat_u8)
  moreover have "from_utf8 (as_bytes ?s) = Some ?s" by (rule from_utf8_ascii) (use chars in fastforce)
  moreover have "length (as_bytes ?s) \<le> MAX_HEADER_LEN"
    using check_format_chars(1) [OF assms] by (simp add: MAX_HEADER_LEN_def)
  moreover have "split_once CHR '' '' ?s = Some (''Bearer'', v)" by (simp add: split_once_def)
  moreover have "eq_ignore_ascii_case ''Bearer'' ''bearer''" by code_simp
  ultimately show ?thesis using assms by (simp add: parse_bearer_def)
qed

lemma parse_bearer_format: "parse_bearer raw = Inr (k, v) \<Longrightarrow> check_format v = Some k"
  by (auto simp: parse_bearer_def split: if_splits option.splits prod.splits)

subsection \<open>Properties\<close>

text \<open>
  C37: a token file that is accepted defines at least one token, no id and no digest twice, and the lookup on it
  is exact: a digest of the file finds its own entry, unless that entry has expired, and any other digest
  finds nothing, although the search compares every digest without stopping.
\<close>

theorem token_file_lookup:
  assumes "parse_token_file toml txt = Inr ts"
  shows "ts \<noteq> [] \<and> distinct (map te_id ts) \<and>
    lookup_token ts d now =
      (case filter (\<lambda>e. te_digest e = d) ts of
         [] \<Rightarrow> LookupUnknown
       | e # _ \<Rightarrow> if expired e now then LookupExpired else Found e)
    \<and> length (filter (\<lambda>e. te_digest e = d) ts) \<le> 1"
proof -
  have ok: "distinct (map te_id ts)" "distinct (map te_digest ts)" "ts \<noteq> []"
    using parse_token_file_ok [OF assms] by (simp_all add: token_set_ok_def)
  have one: "length (filter (\<lambda>e. te_digest e = d) ts) \<le> 1"
    using ok(2) by (induction ts) (auto simp: filter_empty_conv image_iff)
  show ?thesis
  proof (cases "filter (\<lambda>e. te_digest e = d) ts")
    case Nil
    then have "d \<notin> te_digest ` set ts" by (auto simp: filter_empty_conv)
    then show ?thesis using Nil ok lookup_token_distinct(2) [OF ok(2)] by simp
  next
    case (Cons e rest)
    then have "e \<in> set (filter (\<lambda>e. te_digest e = d) ts)" by simp
    then have e: "e \<in> set ts" "te_digest e = d" by simp_all
    then show ?thesis using Cons ok one lookup_token_distinct(1) [OF ok(2), of e now] by simp
  qed
qed

text \<open>
  C38: the expiry dates of tokens are the instants they name. A UTC date and time is read as the seconds of its
  civil day since the epoch, and the day count is the calendar's: the epoch is day 0 and the day after a
  date, across months, leap days and years, has the next number.
\<close>

theorem rfc3339_reads_the_calendar:
  assumes "y < 10000" "1 \<le> mo" "mo \<le> 12" "1 \<le> d" "int d \<le> month_days (int y) (int mo)" "h < 24" "mi < 60" "sec < 60"
  shows "parse_rfc3339 (rfc3339_text y mo d h mi sec) =
      Some ((civil_days (int y) (int mo) (int d) * 86400 + int h * 3600 + int mi * 60 + int sec) * 10 ^ 9)
    \<and> civil_days_of (next_day (int y, int mo, int d)) = civil_days (int y) (int mo) (int d) + 1
    \<and> civil_days 1970 1 1 = 0"
proof -
  have "d \<le> 31" using assms(5) by (auto simp: month_days_def split: if_splits)
  moreover have "civil_days 1970 1 1 = 0" by (simp add: civil_days_def)
  ultimately show ?thesis using assms parse_rfc3339_text civil_days_next by simp
qed

text \<open>
  C40: a fraction and an offset are read as they are meant. A date and time with an offset of less than a day
  is the instant of the same date and time in UTC, minus the offset if it is positive and plus it if it is
  negative; a fraction of any number of digits adds its first nine as nanoseconds.
\<close>

theorem rfc3339_reads_fraction_and_offset:
  assumes "y < 10000" "1 \<le> mo" "mo \<le> 12" "1 \<le> d" "d \<le> 31" "h < 24" "mi < 60" "sec < 60"
    and "list_all is_digit_char ds" "oh < 24" "om < 60"
  shows "parse_rfc3339 (rfc3339_local y mo d h mi sec @ fraction_text ds @ offset_text neg oh om) =
    map_option (\<lambda>t. t - (if neg then - 1 else 1) * (int oh * 3600 + int om * 60) * 10 ^ 9 +
        int (read_nat (take 9 ds)) * 10 ^ (9 - length (take 9 ds)))
      (parse_rfc3339 (rfc3339_local y mo d h mi sec @ ''Z''))"
proof -
  let ?a = "rfc3339_local y mo d h mi sec" and ?b = "offset_text neg oh om"
  have b: "?b \<noteq> []" "hd ?b \<noteq> CHR ''.''" "\<not> is_digit_char (hd ?b)"
    by (simp_all add: offset_text_def is_digit_char_def)
  define base where "base = civil_days (int y) (int mo) (int d) * 86400 + int h * 3600 + int mi * 60 + int sec"
  define nanos where "nanos = int (read_nat (take 9 ds)) * 10 ^ (9 - length (take 9 ds))"
  define off where "off = (if neg then - 1 else 1) * (int oh * 3600 + int om * 60)"
  have ascii: "list_all (\<lambda>c. of_char c < (128 :: nat)) (fraction_text ds @ ?b)"
    using pad2_ascii [of oh] pad2_ascii [of om] assms(9-11) is_digit_not_sign
    by (auto simp: fraction_text_def offset_text_def list_all_iff)
  have "parse_fraction (?a @ fraction_text ds @ ?b) = Some (nanos, 19 + length (fraction_text ds))"
    unfolding nanos_def by (rule parse_fraction_text [OF rfc3339_local_shape(1) assms(9)]) (simp_all add: b)
  moreover have "drop (19 + length (fraction_text ds)) (?a @ fraction_text ds @ ?b) = ?b"
    by (simp add: rfc3339_local_shape)
  ultimately have "parse_rfc3339 (?a @ fraction_text ds @ ?b) = Some ((base - off) * 10 ^ 9 + nanos)"
    using parse_rfc3339_local [OF assms(1-8) _ ascii] b(1) parse_offset_text [OF assms(10,11), of neg]
    by (simp add: base_def [symmetric] off_def [symmetric] del: power_numeral)
  moreover have "parse_rfc3339 (?a @ ''Z'') = Some (base * 10 ^ 9)"
    using parse_rfc3339_text [OF assms(1-8)] by (simp only: rfc3339_text_def base_def)
  ultimately show ?thesis unfolding off_def [symmetric] nanos_def [symmetric] by (simp add: left_diff_distrib)
qed

text \<open>
  The header a client sends for a credential is read back as that credential, and the header parser accepts
  nothing but a well-formed one.
\<close>

theorem bearer_roundtrip:
  "(case bearer_value v of
      Some raw \<Rightarrow> \<exists>k. check_format v = Some k \<and> parse_bearer raw = Inr (k, v)
    | None \<Rightarrow> check_format v = None)
   \<and> (case parse_bearer raw of Inr (k, v) \<Rightarrow> check_format v = Some k \<and> length raw \<le> 128 | Inl _ \<Rightarrow> True)"
proof -
  have "length raw \<le> 128" if "parse_bearer raw = Inr r" for r
    using that by (auto simp: parse_bearer_def MAX_HEADER_LEN_def split: if_splits)
  then show ?thesis
    using parse_bearer_value parse_bearer_format by (auto simp: bearer_value_def split: sum.splits option.splits)
qed

subsection \<open>Witnesses\<close>

definition example_toml :: toml where
  "example_toml txt =
     (if txt = [] then Inr []
      else Inr [(0, \<lparr>rt_id = ''ci'', rt_role = ''write'', rt_sha256 = replicate 64 CHR ''a'',
                     rt_expires = Some (TString ''2026-01-01T00:00:00Z''), rt_scope = None\<rparr>)])"

definition example_tokens :: token_set where
  "example_tokens =
     [\<lparr>te_id = ''ci'', te_role = RoleWrite, te_digest = replicate 32 0xAA, te_expires = Some (1767225600 * 10 ^ 9)\<rparr>]"

lemma hex_bytes_replicate:
  "hex_value c = Some v \<Longrightarrow> hex_bytes (replicate (2 * n) c) = Some (replicate n (of_nat (17 * v)))"
  by (induction n) (simp_all add: algebra_simps)

lemma example_token_file: "parse_token_file example_toml ''[[token]]'' = Inr example_tokens"
proof -
  have "hex_value CHR ''a'' = Some 10" by (simp add: hex_value_def is_digit_char_def)
  then have "parse_hex (replicate 64 CHR ''a'') = Some (replicate 32 0xAA)"
    using hex_bytes_replicate [of "CHR ''a''" 10 32] by (simp add: parse_hex_def list_all_iff)
  moreover have "''2026-01-01T00:00:00Z'' = rfc3339_text 2026 1 1 0 0 0"
    by code_simp
  then have "parse_rfc3339 ''2026-01-01T00:00:00Z'' = Some (1767225600 * 10 ^ 9)"
    using parse_rfc3339_text [of 2026 1 1 0 0 0] by (simp add: civil_days_def)
  moreover have "trim (chars_of ''ci'') \<noteq> []"
    by (simp add: trim_def chars_of_def chars_nat.simps trim_end_where_def is_whitespace_def)
  ultimately show ?thesis
    by (simp add: parse_token_file_def example_toml_def example_tokens_def parse_expires_def role_parse_def Let_def)
qed

theorem token_file_lookup_witness:
  "lookup_token example_tokens (replicate 32 0xAA) 0 = Found (hd example_tokens)
   \<and> lookup_token example_tokens (replicate 32 0xAA) (2 * 10 ^ 18) = LookupExpired
   \<and> lookup_token example_tokens (replicate 32 0xAB) 0 = LookupUnknown"
proof -
  have "replicate 32 0xAA \<noteq> (replicate 32 0xAB :: u8 list)" by (simp add: numeral_eq_Suc)
  then show ?thesis
    using token_file_lookup [OF example_token_file, of "replicate 32 0xAA" 0]
      token_file_lookup [OF example_token_file, of "replicate 32 0xAA" "2 * 10 ^ 18"]
      token_file_lookup [OF example_token_file, of "replicate 32 0xAB" 0]
    by (simp add: example_tokens_def expired_def)
qed

theorem rfc3339_reads_the_calendar_witness:
  "parse_rfc3339 ''2024-02-29T12:00:00Z'' = Some (1709208000 * 10 ^ 9)"
proof -
  have "rfc3339_text 2024 2 29 12 0 0 = ''2024-02-29T12:00:00Z''" by code_simp
  moreover have "civil_days 2024 2 29 = 19782" by (simp add: civil_days_def)
  ultimately show ?thesis
    using rfc3339_reads_the_calendar [of 2024 2 29 12 0 0] by (simp add: month_days_def leap_def)
qed

theorem rfc3339_reads_fraction_and_offset_witness:
  "parse_rfc3339 ''2024-02-29T12:00:00.25+05:30'' = Some (1709188200 * 10 ^ 9 + 250000000)"
proof -
  have "rfc3339_local 2024 2 29 12 0 0 @ fraction_text ''25'' @ offset_text False 5 30 = ''2024-02-29T12:00:00.25+05:30''"
    "parse_rfc3339 (rfc3339_local 2024 2 29 12 0 0 @ ''Z'') = Some (1709208000 * 10 ^ 9)"
    "int (read_nat (take 9 ''25'')) * 10 ^ (9 - length (take 9 ''25'')) = 250000000" "list_all is_digit_char ''25''"
    by code_simp+
  then show ?thesis
    using rfc3339_reads_fraction_and_offset [of 2024 2 29 12 0 0 "''25''" 5 30 False] by simp
qed

end
