(* ===== verification/Auth.thy ===== *)
theory Auth
  imports Credentials "HOL-Library.AList"
begin

text \<open>
  Authentication and authorization of calls, crates/graph-server/src/auth.rs: the role table, the decision on
  one call, the refusals and their rate-limited log, and the reload of the token and secret files. The file
  contents, the hash, the parsers of \<open>Credentials\<close> and the text form of a header value are parameters.
\<close>

subsection \<open>The role table\<close>

datatype need = NeedOpen | NeedRead | NeedWrite | NeedNode

fun need_as_str :: "need \<Rightarrow> string" where
  "need_as_str NeedOpen = []"
| "need_as_str NeedRead = ''read''"
| "need_as_str NeedWrite = ''write''"
| "need_as_str NeedNode = ''node''"

definition STORE :: string where "STORE = ''/memory_graph.v1.Store/''"
definition WRITE :: string where "WRITE = ''/memory_graph.v1.Write/''"
definition ADMIN :: string where "ADMIN = ''/memory_graph.v1.Admin/''"
definition RAFT :: string where "RAFT = ''/memory_graph.v1.Raft/''"
definition HEALTH :: string where "HEALTH = ''/grpc.health.v1.Health/''"

definition store_reads :: "string list" where
  "store_reads =
     [''Get'', ''Parent'', ''CountNodes'', ''Roots'', ''Children'', ''ChildrenPage'', ''Descendants'',
      ''DescendantsPage'', ''Ancestors'', ''FileTokens'', ''Describe'', ''DescribeByScan'', ''ExtractorGaps'',
      ''SearchSymbols'', ''Search'', ''OpenSnapshot'', ''CloseSnapshot'', ''SnapshotStats'']"

definition need_of :: "string \<Rightarrow> need option" where
  "need_of path =
     (case strip_prefix HEALTH path of
        Some m \<Rightarrow> if m \<in> {''Check'', ''Watch'', ''List''} then Some NeedOpen else None
      | None \<Rightarrow>
     (case strip_prefix STORE path of
        Some m \<Rightarrow>
          if m = ''Hello'' then Some NeedOpen else if m \<in> set store_reads then Some NeedRead else None
      | None \<Rightarrow>
     (case strip_prefix WRITE path of
        Some m \<Rightarrow>
          if m \<in> {''Index'', ''IndexFile'', ''IngestExtraction'', ''Prune'', ''Vacuum''} then Some NeedWrite else None
      | None \<Rightarrow>
     (case strip_prefix ADMIN path of
        Some m \<Rightarrow>
          if m \<in> {''Status'', ''Members'', ''Leader'', ''SysInfo'', ''Metrics'', ''ReadIndex'', ''ListBackups''}
          then Some NeedRead
          else if m \<in> {''AddLearner'', ''Promote'', ''Remove'', ''TransferLeader'', ''TriggerElect'',
                        ''TriggerSnapshot'', ''UploadSnapshot'', ''Compact'', ''Shutdown''}
          then Some NeedWrite
          else if m \<in> {''Join'', ''UpdateAdvertise''} then Some NeedNode else None
      | None \<Rightarrow>
     (case strip_prefix RAFT path of
        Some m \<Rightarrow> if m \<in> {''AppendEntries'', ''Vote'', ''InstallSnapshot''} then Some NeedNode else None
      | None \<Rightarrow> None)))))"

definition secret_reads :: "string \<Rightarrow> bool" where
  "secret_reads path \<longleftrightarrow>
     path \<in> {''/memory_graph.v1.Admin/Status'', ''/memory_graph.v1.Admin/Members''}"

subsection \<open>The caller\<close>

datatype caller_kind =
    Anonymous
  | TokenCaller string role
  | NodeCaller "role option" "string option"

record caller =
  ca_kind :: caller_kind
  ca_conn :: u64

definition authenticated :: "caller \<Rightarrow> bool" where
  "authenticated c \<longleftrightarrow> ca_kind c \<noteq> Anonymous"

definition caller_role :: "caller \<Rightarrow> role option" where
  "caller_role c =
     (case ca_kind c of Anonymous \<Rightarrow> None | TokenCaller _ r \<Rightarrow> Some r | NodeCaller r _ \<Rightarrow> r)"

definition caller_token_id :: "caller \<Rightarrow> string option" where
  "caller_token_id c =
     (case ca_kind c of
        Anonymous \<Rightarrow> None
      | TokenCaller i _ \<Rightarrow> Some i
      | NodeCaller _ f \<Rightarrow> Some (''node:'' @ (case f of Some i \<Rightarrow> i | None \<Rightarrow> [])))"

subsection \<open>Reloadable files\<close>

record 'a file_source =
  so_cur :: 'a
  so_loaded :: "u8 list"
  so_failed :: "u8 list option"
  so_read_failed :: bool

datatype reload_result = Unchanged | Reloaded | Kept

text \<open>\<open>read\<close> is what reading the file gives: its bytes or the error.\<close>

definition source_load ::
  "(u8 list \<Rightarrow> u8 list) \<Rightarrow> (string \<Rightarrow> string + 'a) \<Rightarrow> string \<Rightarrow> string + u8 list \<Rightarrow> string + 'a file_source" where
  "source_load hash parse path file =
     (case file of
        Inl e \<Rightarrow> Inl (''cannot read `'' @ path @ ''`: '' @ e)
      | Inr bytes \<Rightarrow>
          (case from_utf8 bytes of
             None \<Rightarrow> Inl (''`'' @ path @ ''` is not UTF-8'')
           | Some txt \<Rightarrow>
               (case parse txt of
                  Inl e \<Rightarrow> Inl (''`'' @ path @ ''`: '' @ e)
                | Inr s \<Rightarrow> Inr \<lparr>so_cur = s, so_loaded = hash bytes, so_failed = None, so_read_failed = False\<rparr>)))"

definition source_reload ::
  "(u8 list \<Rightarrow> u8 list) \<Rightarrow> (string \<Rightarrow> string + 'a) \<Rightarrow> string + u8 list \<Rightarrow> 'a file_source \<Rightarrow> reload_result \<times> 'a file_source" where
  "source_reload hash parse file src =
     (case file of
        Inl e \<Rightarrow> (Kept, src\<lparr>so_read_failed := True\<rparr>)
      | Inr bytes \<Rightarrow>
          let src = src\<lparr>so_read_failed := False\<rparr>;
              h = hash bytes
          in if h = so_loaded src then (Unchanged, src\<lparr>so_failed := None\<rparr>)
             else (case (case from_utf8 bytes of None \<Rightarrow> Inl ''the file is not UTF-8'' | Some txt \<Rightarrow> parse txt) of
                     Inr s \<Rightarrow> (Reloaded, src\<lparr>so_cur := s, so_loaded := h, so_failed := None\<rparr>)
                   | Inl e \<Rightarrow> (Kept, src\<lparr>so_failed := Some h\<rparr>)))"

subsection \<open>Refusals\<close>

datatype reason =
    Missing | MalformedHeader | UnknownCred | ExpiredCred | RoleTooLow | NodeOnly | SecretDirect | Unlisted | InvalidOnOpen

record auth_refusal =
  re_reason :: reason
  re_required :: need

definition unauth :: "reason \<Rightarrow> auth_refusal" where
  "unauth r = \<lparr>re_reason = r, re_required = NeedOpen\<rparr>"

definition denied :: "reason \<Rightarrow> need \<Rightarrow> auth_refusal" where
  "denied r n = \<lparr>re_reason = r, re_required = n\<rparr>"

definition UNAUTHENTICATED_MSG :: string where
  "UNAUTHENTICATED_MSG = ''missing or invalid credentials''"

definition refusal_error :: "auth_refusal \<Rightarrow> store_error" where
  "refusal_error r =
     (case re_reason r of
        Missing \<Rightarrow> Unauthenticated UNAUTHENTICATED_MSG
      | MalformedHeader \<Rightarrow> Unauthenticated UNAUTHENTICATED_MSG
      | UnknownCred \<Rightarrow> Unauthenticated UNAUTHENTICATED_MSG
      | ExpiredCred \<Rightarrow> Unauthenticated UNAUTHENTICATED_MSG
      | NodeOnly \<Rightarrow> Unauthenticated UNAUTHENTICATED_MSG
      | RoleTooLow \<Rightarrow>
          PermissionDenied (''this method needs the `'' @ need_as_str (re_required r) @ ''` role'')
            (need_as_str (re_required r))
      | SecretDirect \<Rightarrow>
          PermissionDenied ''the cluster secret is accepted here only on a forwarded call''
            (need_as_str (re_required r))
      | Unlisted \<Rightarrow> PermissionDenied ''this method is not in the server's role table'' []
      | InvalidOnOpen \<Rightarrow> PermissionDenied ''this method is not in the server's role table'' [])"

subsection \<open>The state of the node\<close>

text \<open>The log limiter holds, per peer address, when a refusal was last logged and how many were not since.\<close>

record 'ip auth =
  au_tokens :: "token_set file_source option"
  au_secret :: "secret_set file_source option"
  au_refusals :: "reason \<Rightarrow> u64"
  au_limiter :: "('ip option \<times> nat \<times> nat) list"

definition auth_disabled :: "'ip auth" where
  "auth_disabled = \<lparr>au_tokens = None, au_secret = None, au_refusals = (\<lambda>_. 0), au_limiter = []\<rparr>"

definition count_refusal :: "reason \<Rightarrow> 'ip auth \<Rightarrow> 'ip auth" where
  "count_refusal r a = a\<lparr>au_refusals := (au_refusals a)(r := au_refusals a r + 1)\<rparr>"

text \<open>What the node is configured with: the hash of a value and of a file, and the TOML parser.\<close>

record auth_env =
  ae_sha :: "string \<Rightarrow> u8 list"
  ae_hash :: "u8 list \<Rightarrow> u8 list"
  ae_toml :: toml

definition auth_load ::
  "auth_env \<Rightarrow> (string \<times> (string + u8 list)) option \<Rightarrow> (string \<times> (string + u8 list)) option \<Rightarrow> bool \<Rightarrow> 'ip auth result" where
  "auth_load env tokens secret clustered =
     bindE (case tokens of
              None \<Rightarrow> Inr None
            | Some (path, file) \<Rightarrow>
                (case source_load (ae_hash env) (parse_token_file (ae_toml env)) path file of
                   Inl e \<Rightarrow> Inl (Rejected (''--auth-tokens '' @ e))
                 | Inr s \<Rightarrow> Inr (Some s))) (\<lambda>tokens.
     bindE (case secret of
              None \<Rightarrow> Inr None
            | Some (path, file) \<Rightarrow>
                (case source_load (ae_hash env) (parse_secret_file (ae_sha env)) path file of
                   Inl e \<Rightarrow> Inl (Rejected (''--cluster-secret-file '' @ e))
                 | Inr s \<Rightarrow> Inr (Some s))) (\<lambda>secret.
       if tokens = None \<and> secret \<noteq> None then
         Inl (Rejected ''--cluster-secret-file needs --auth-tokens (authentication is off without a token file)'')
       else if tokens \<noteq> None \<and> secret = None \<and> clustered then
         Inl (Rejected ''--auth-tokens on a --data-dir node needs --cluster-secret-file: every node of the cluster authenticates to the others with it (ADR 0012 D3)'')
       else Inr \<lparr>au_tokens = tokens, au_secret = secret, au_refusals = (\<lambda>_. 0), au_limiter = []\<rparr>))"

definition auth_enabled :: "'ip auth \<Rightarrow> bool" where
  "auth_enabled a \<longleftrightarrow> au_tokens a \<noteq> None"

definition reload_now ::
  "auth_env \<Rightarrow> string + u8 list \<Rightarrow> string + u8 list \<Rightarrow> 'ip auth \<Rightarrow> (reload_result option \<times> reload_result option) \<times> 'ip auth" where
  "reload_now env tokens secret a =
     (let t = map_option (source_reload (ae_hash env) (parse_token_file (ae_toml env)) tokens) (au_tokens a);
          s = map_option (source_reload (ae_hash env) (parse_secret_file (ae_sha env)) secret) (au_secret a)
      in ((map_option fst t, map_option fst s), a\<lparr>au_tokens := map_option snd t, au_secret := map_option snd s\<rparr>))"

definition secret_header :: "'ip auth \<Rightarrow> u8 list option" where
  "secret_header a = Option.bind (au_secret a) (\<lambda>s. bearer_value (sc_send (so_cur s)))"

subsection \<open>The decision\<close>

datatype cred = CNone | CMalformed | CUnknown | CExpired | CToken token_entry | CSecret

definition credential ::
  "auth_env \<Rightarrow> u8 list option \<Rightarrow> token_set \<Rightarrow> secret_set option \<Rightarrow> int \<Rightarrow> cred" where
  "credential env raw tokens secret now =
     (case raw of
        None \<Rightarrow> CNone
      | Some raw \<Rightarrow>
          (case parse_bearer raw of
             Inl _ \<Rightarrow> CMalformed
           | Inr (kind, value) \<Rightarrow>
               let d = ae_sha env value in
               (case kind of
                  TokenCred \<Rightarrow>
                    (case lookup_token tokens d now of
                       Found e \<Rightarrow> CToken e
                     | LookupExpired \<Rightarrow> CExpired
                     | LookupUnknown \<Rightarrow> CUnknown)
                | SecretCred \<Rightarrow>
                    (case secret of
                       Some s \<Rightarrow> if ct_find (sc_digests s) d \<noteq> None then CSecret else CUnknown
                     | None \<Rightarrow> CUnknown))))"

text \<open>The headers of a request: the first value under a name, and a value as text when it is visible ASCII.\<close>

record headers =
  hd_get :: "string \<Rightarrow> u8 list option"
  hd_to_str :: "u8 list \<Rightarrow> string option"

definition header_str :: "headers \<Rightarrow> string \<Rightarrow> string option" where
  "header_str h name = Option.bind (hd_get h name) (hd_to_str h)"

definition AUTHORIZATION :: string where "AUTHORIZATION = ''authorization''"
definition FORWARDED_BY_HEADER :: string where "FORWARDED_BY_HEADER = ''mg-forwarded-by''"
definition FORWARDED_ROLE_HEADER :: string where "FORWARDED_ROLE_HEADER = ''mg-forwarded-role''"
definition FORWARDED_TOKEN_ID_HEADER :: string where "FORWARDED_TOKEN_ID_HEADER = ''mg-forwarded-token-id''"

definition cred_unauth :: "cred \<Rightarrow> auth_refusal" where
  "cred_unauth c =
     unauth (case c of CNone \<Rightarrow> Missing | CMalformed \<Rightarrow> MalformedHeader | CExpired \<Rightarrow> ExpiredCred | _ \<Rightarrow> UnknownCred)"

text \<open>\<open>Auth::check\<close> on the credential the header held, for a method of the table.\<close>

definition decide :: "string \<Rightarrow> need \<Rightarrow> cred \<Rightarrow> headers \<Rightarrow> auth_refusal + caller_kind" where
  "decide path need cred h =
     (case need of
        NeedOpen \<Rightarrow>
          Inr (case cred of
                 CToken e \<Rightarrow> TokenCaller (te_id e) (te_role e)
               | CSecret \<Rightarrow> NodeCaller None None
               | _ \<Rightarrow> Anonymous)
      | NeedNode \<Rightarrow>
          (case cred of
             CSecret \<Rightarrow> Inr (NodeCaller None None)
           | CToken _ \<Rightarrow> Inl (unauth NodeOnly)
           | c \<Rightarrow> Inl (cred_unauth c))
      | _ \<Rightarrow>
          let required = (if need = NeedRead then RoleRead else RoleWrite) in
          (case cred of
             CToken e \<Rightarrow>
               if role_covers (te_role e) required then Inr (TokenCaller (te_id e) (te_role e))
               else Inl (denied RoleTooLow need)
           | CSecret \<Rightarrow>
               if need = NeedRead \<and> secret_reads path then Inr (NodeCaller None None)
               else if header_str h FORWARDED_BY_HEADER = None then Inl (denied SecretDirect need)
               else (case Option.bind (header_str h FORWARDED_ROLE_HEADER) role_parse of
                       Some r \<Rightarrow>
                         if role_covers r required
                         then Inr (NodeCaller (Some r) (header_str h FORWARDED_TOKEN_ID_HEADER))
                         else Inl (denied RoleTooLow need)
                     | None \<Rightarrow> Inl (denied RoleTooLow need))
           | c \<Rightarrow> Inl (cred_unauth c)))"

definition auth_check ::
  "auth_env \<Rightarrow> string \<Rightarrow> headers \<Rightarrow> u64 \<Rightarrow> int \<Rightarrow> 'ip auth \<Rightarrow> (auth_refusal + caller) \<times> 'ip auth" where
  "auth_check env path h conn now a =
     (case au_tokens a of
        None \<Rightarrow> (Inr \<lparr>ca_kind = Anonymous, ca_conn = conn\<rparr>, a)
      | Some tokens \<Rightarrow>
          (case need_of path of
             None \<Rightarrow> (Inl (denied Unlisted NeedOpen), a)
           | Some need \<Rightarrow>
               let cred = credential env (hd_get h AUTHORIZATION) (so_cur tokens) (map_option so_cur (au_secret a)) now;
                   a = (if need = NeedOpen \<and> cred \<in> {CMalformed, CUnknown, CExpired}
                        then count_refusal InvalidOnOpen a else a)
               in (case decide path need cred h of
                     Inl r \<Rightarrow> (Inl r, a)
                   | Inr kind \<Rightarrow> (Inr \<lparr>ca_kind = kind, ca_conn = conn\<rparr>, a))))"

definition mcp_role :: "auth_env \<Rightarrow> headers \<Rightarrow> int \<Rightarrow> 'ip auth \<Rightarrow> role option \<times> 'ip auth" where
  "mcp_role env h now a =
     (case au_tokens a of
        None \<Rightarrow> (None, a)
      | Some tokens \<Rightarrow>
          (case credential env (hd_get h AUTHORIZATION) (so_cur tokens) None now of
             CToken e \<Rightarrow> (Some (te_role e), a)
           | c \<Rightarrow> (None, count_refusal (re_reason (cred_unauth c)) a)))"

subsection \<open>The refusal log\<close>

definition REFUSAL_LOG_WINDOW :: nat where "REFUSAL_LOG_WINDOW = 10 * 10 ^ 9"

text \<open>The limiter: \<open>Some n\<close> when the line is logged, with the number suppressed before it. Instants are nanoseconds.\<close>

definition pruned :: "nat \<Rightarrow> ('ip option \<times> nat \<times> nat) list \<Rightarrow> ('ip option \<times> nat \<times> nat) list" where
  "pruned now g = (if length g > 10000 then filter (\<lambda>(_, at, _). now - at < REFUSAL_LOG_WINDOW) g else g)"

definition limit :: "'ip option \<Rightarrow> nat \<Rightarrow> ('ip option \<times> nat \<times> nat) list \<Rightarrow> nat option \<times> ('ip option \<times> nat \<times> nat) list" where
  "limit ip now g =
     (case map_of (pruned now g) ip of
        Some (at, n) \<Rightarrow>
          if now - at < REFUSAL_LOG_WINDOW then (None, AList.update ip (at, n + 1) (pruned now g))
          else (Some n, AList.update ip (now, 0) (pruned now g))
      | None \<Rightarrow> (Some 0, (ip, now, 0) # pruned now g))"

definition note_refusal :: "auth_refusal \<Rightarrow> 'ip option \<Rightarrow> nat \<Rightarrow> 'ip auth \<Rightarrow> nat option \<times> 'ip auth" where
  "note_refusal r ip now a =
     (let a = count_refusal (re_reason r) a;
          (line, g) = limit ip now (au_limiter a)
      in (line, a\<lparr>au_limiter := g\<rparr>))"

text \<open>\<open>AuthService::call\<close>: what the handler runs as, or the status answered.\<close>

datatype served = Passed "caller option" | Answered status

definition auth_call ::
  "target_os \<Rightarrow> prost \<Rightarrow> auth_env \<Rightarrow> string \<Rightarrow> headers \<Rightarrow> u64 \<Rightarrow> 'ip option \<Rightarrow> int \<Rightarrow> nat \<Rightarrow> 'ip auth \<Rightarrow>
     served \<times> nat option \<times> 'ip auth" where
  "auth_call os pb env path h conn ip now instant a =
     (if \<not> auth_enabled a then (Passed None, None, a)
      else (case auth_check env path h conn now a of
              (Inr c, a) \<Rightarrow> (Passed (Some c), None, a)
            | (Inl r, a) \<Rightarrow>
                let (line, a) = note_refusal r ip instant a
                in (Answered (store_error_to_status os pb (refusal_error r)), line, a)))"

subsection \<open>Credentials held by a request\<close>

definition holds_token :: "auth_env \<Rightarrow> headers \<Rightarrow> token_set \<Rightarrow> int \<Rightarrow> token_entry \<Rightarrow> bool" where
  "holds_token env h ts now e \<longleftrightarrow>
     (\<exists>raw v. hd_get h AUTHORIZATION = Some raw \<and> parse_bearer raw = Inr (TokenCred, v) \<and> e \<in> set ts \<and>
        te_digest e = ae_sha env v \<and> \<not> expired e now)"

definition holds_secret :: "auth_env \<Rightarrow> headers \<Rightarrow> secret_set option \<Rightarrow> bool" where
  "holds_secret env h secret \<longleftrightarrow>
     (\<exists>raw v s. hd_get h AUTHORIZATION = Some raw \<and> parse_bearer raw = Inr (SecretCred, v) \<and> secret = Some s \<and>
        ae_sha env v \<in> set (sc_digests s))"

lemma lookup_Found:
  assumes "distinct (map te_digest ts)"
  shows "lookup_token ts d now = Found e \<longleftrightarrow> e \<in> set ts \<and> te_digest e = d \<and> \<not> expired e now"
proof (cases "d \<in> te_digest ` set ts")
  case True
  then obtain e' where e': "e' \<in> set ts" "te_digest e' = d" by auto
  have "e = e'" if "e \<in> set ts" "te_digest e = d"
    using that e' assms by (auto simp: distinct_map inj_on_def)
  then show ?thesis using lookup_token_distinct(1) [OF assms e'(1), of now] e' by auto
qed (use lookup_token_distinct(2) [OF assms] in auto)

text \<open>The three shapes of an authorization header.\<close>

lemma bearer_cases [case_names none malformed token secret]:
  obtains "hd_get h AUTHORIZATION = None"
  | raw m where "hd_get h AUTHORIZATION = Some raw" "parse_bearer raw = Inl m"
  | raw v where "hd_get h AUTHORIZATION = Some raw" "parse_bearer raw = Inr (TokenCred, v)"
  | raw v where "hd_get h AUTHORIZATION = Some raw" "parse_bearer raw = Inr (SecretCred, v)"
proof (cases "hd_get h AUTHORIZATION")
  case (Some raw)
  show ?thesis
  proof (cases "parse_bearer raw")
    case (Inr kv)
    then show ?thesis using Some that(3,4) by (cases kv; cases "fst kv") auto
  qed (use Some that(2) in blast)
qed (use that(1) in blast)

lemma credential_CToken:
  assumes "distinct (map te_digest ts)"
  shows "credential env (hd_get h AUTHORIZATION) ts secret now = CToken e \<longleftrightarrow> holds_token env h ts now e"
proof (cases h rule: bearer_cases)
  case (token raw v)
  then have "holds_token env h ts now e \<longleftrightarrow> lookup_token ts (ae_sha env v) now = Found e"
    by (auto simp: holds_token_def lookup_Found [OF assms])
  then show ?thesis using token by (simp add: credential_def Let_def split: lookup.splits)
qed (auto simp: credential_def holds_token_def Let_def split: option.splits)

lemma credential_CSecret:
  "credential env (hd_get h AUTHORIZATION) ts secret now = CSecret \<longleftrightarrow> holds_secret env h secret"
proof (cases h rule: bearer_cases)
  case (secret raw v)
  then have "holds_secret env h secret' \<longleftrightarrow> (\<exists>s. secret' = Some s \<and> ct_find (sc_digests s) (ae_sha env v) \<noteq> None)" for secret'
    unfolding holds_secret_def ct_find_in by auto
  then show ?thesis using secret by (simp add: credential_def Let_def split: option.splits)
qed (auto simp: credential_def holds_secret_def Let_def split: lookup.splits)

text \<open>Who may call a method, in terms of what the request holds.\<close>

definition forwards :: "headers \<Rightarrow> role \<Rightarrow> bool" where
  "forwards h required \<longleftrightarrow>
     header_str h FORWARDED_BY_HEADER \<noteq> None \<and>
     (\<exists>r. Option.bind (header_str h FORWARDED_ROLE_HEADER) role_parse = Some r \<and> role_covers r required)"

fun authorized_for :: "need option \<Rightarrow> auth_env \<Rightarrow> string \<Rightarrow> headers \<Rightarrow> token_set \<Rightarrow> secret_set option \<Rightarrow> int \<Rightarrow> bool" where
  "authorized_for None env path h ts secret now \<longleftrightarrow> False"
| "authorized_for (Some NeedOpen) env path h ts secret now \<longleftrightarrow> True"
| "authorized_for (Some NeedNode) env path h ts secret now \<longleftrightarrow> holds_secret env h secret"
| "authorized_for (Some NeedRead) env path h ts secret now \<longleftrightarrow>
     (\<exists>e. holds_token env h ts now e) \<or> holds_secret env h secret \<and> (secret_reads path \<or> forwards h RoleRead)"
| "authorized_for (Some NeedWrite) env path h ts secret now \<longleftrightarrow>
     (\<exists>e. holds_token env h ts now e \<and> te_role e = RoleWrite) \<or> holds_secret env h secret \<and> forwards h RoleWrite"

lemma role_covers_read [simp]: "role_covers r RoleRead"
  by (cases r) simp_all

lemma role_covers_write: "role_covers r RoleWrite \<longleftrightarrow> r = RoleWrite"
  by (cases r) simp_all

lemma decide_authorized:
  assumes "distinct (map te_digest ts)"
  shows "(\<exists>k. decide path need (credential env (hd_get h AUTHORIZATION) ts secret now) h = Inr k) \<longleftrightarrow>
    authorized_for (Some need) env path h ts secret now"
proof (cases "credential env (hd_get h AUTHORIZATION) ts secret now")
  case (CToken e)
  have "holds_token env h ts now e' \<longleftrightarrow> e' = e" for e'
    using credential_CToken [OF assms, of env h secret now e'] CToken by auto
  moreover have "\<not> holds_secret env h secret" using credential_CSecret [of env h ts secret now] CToken by simp
  ultimately show ?thesis by (cases need) (auto simp: CToken decide_def role_covers_write)
next
  case CSecret
  then have "\<not> holds_token env h ts now e" "holds_secret env h secret" for e
    using credential_CToken [OF assms, of env h secret now] credential_CSecret [of env h ts secret now] by auto
  then show ?thesis by (cases need) (auto simp: CSecret decide_def forwards_def split: option.splits)
qed (use credential_CToken [OF assms, of env h secret now] credential_CSecret [of env h ts secret now] in
  \<open>cases need; auto simp: decide_def\<close>)+

lemma decide_role:
  assumes "decide path need cred h = Inr k"
  shows "(need = NeedWrite \<longrightarrow> caller_role \<lparr>ca_kind = k, ca_conn = conn\<rparr> = Some RoleWrite) \<and>
    (need = NeedNode \<longrightarrow> k = NodeCaller None None)"
  using assms by (cases need; cases cred)
    (auto simp: decide_def caller_role_def role_covers_write split: if_splits option.splits)

subsection \<open>The states of a node\<close>

inductive auth_step :: "auth_env \<Rightarrow> 'ip auth \<Rightarrow> 'ip auth \<Rightarrow> bool" for env where
  call: "auth_step env a (snd (snd (auth_call os pb env path h conn ip now instant a)))"
| mcp: "auth_step env a (snd (mcp_role env h now a))"
| reload: "auth_step env a (snd (reload_now env tokens secret a))"

inductive auth_reachable :: "auth_env \<Rightarrow> 'ip auth \<Rightarrow> bool" for env where
  loaded: "auth_load env tokens secret clustered = Inr a \<Longrightarrow> auth_reachable env a"
| step: "\<lbrakk>auth_reachable env a; auth_step env a a'\<rbrakk> \<Longrightarrow> auth_reachable env a'"

definition auth_ok :: "'ip auth \<Rightarrow> bool" where
  "auth_ok a \<longleftrightarrow>
     (case au_tokens a of None \<Rightarrow> True | Some s \<Rightarrow> token_set_ok (so_cur s) \<and> so_cur s \<noteq> [])"

lemma source_load_parsed:
  "source_load hash parse path file = Inr s \<Longrightarrow> \<exists>txt. parse txt = Inr (so_cur s)"
  by (auto simp: source_load_def split: sum.splits option.splits)

lemma source_reload_parsed:
  "source_reload hash parse file s = (r, s') \<Longrightarrow> so_cur s' = so_cur s \<or> (\<exists>txt. parse txt = Inr (so_cur s'))"
  by (auto simp: source_reload_def Let_def split: sum.splits option.splits if_splits)

lemma auth_check_tokens: "au_tokens (snd (auth_check env path h conn now a)) = au_tokens a"
  by (auto simp: auth_check_def count_refusal_def Let_def split: option.splits sum.splits)

lemma auth_call_tokens:
  "au_tokens (snd (snd (auth_call os pb env path h conn ip now instant a))) = au_tokens a"
  using auth_check_tokens [of env path h conn now a]
  by (auto simp: auth_call_def note_refusal_def count_refusal_def Let_def split: prod.splits sum.splits)

lemma mcp_role_tokens: "au_tokens (snd (mcp_role env h now a)) = au_tokens a"
  by (auto simp: mcp_role_def count_refusal_def split: option.splits cred.splits)

lemma reload_now_ok: "auth_ok a \<Longrightarrow> auth_ok (snd (reload_now env tokens secret a))"
proof (cases "au_tokens a")
  case (Some s)
  assume "auth_ok a"
  then have s: "token_set_ok (so_cur s)" "so_cur s \<noteq> []" by (simp_all add: auth_ok_def Some)
  obtain r s' where r: "source_reload (ae_hash env) (parse_token_file (ae_toml env)) tokens s = (r, s')" by fastforce
  then have "token_set_ok (so_cur s') \<and> so_cur s' \<noteq> []"
    using source_reload_parsed [OF r] s by (metis parse_token_file_ok)
  then show ?thesis by (simp add: auth_ok_def reload_now_def Let_def Some r)
qed (simp add: auth_ok_def reload_now_def Let_def)

lemma auth_load_tokens:
  assumes "auth_load env tokens secret clustered = Inr a" and "au_tokens a = Some s"
  shows "\<exists>txt. parse_token_file (ae_toml env) txt = Inr (so_cur s)"
proof (cases tokens)
  case None
  have "au_tokens a = None"
    using assms(1) by (auto simp: auth_load_def None bindE_eq_Inr_iff split: if_splits)
  then show ?thesis using assms(2) by simp
next
  case (Some pf)
  obtain path read' where pf: "pf = (path, read')" by fastforce
  obtain s' where s': "source_load (ae_hash env) (parse_token_file (ae_toml env)) path read' = Inr s'" "au_tokens a = Some s'"
    using assms(1) unfolding auth_load_def Some pf
    by (cases "source_load (ae_hash env) (parse_token_file (ae_toml env)) path read'")
      (auto simp: bindE_eq_Inr_iff split: if_splits)
  then show ?thesis using source_load_parsed [OF s'(1)] assms(2) by simp
qed

lemma auth_reachable_ok: "auth_reachable env a \<Longrightarrow> auth_ok a"
proof (induction rule: auth_reachable.induct)
  case (loaded tokens secret clustered a)
  show ?case
  proof (cases "au_tokens a")
    case (Some s)
    then obtain doc where "parse_token_file (ae_toml env) doc = Inr (so_cur s)" using auth_load_tokens [OF loaded Some] by blast
    then show ?thesis by (simp add: auth_ok_def Some parse_token_file_ok)
  qed (simp add: auth_ok_def)
next
  case (step a a')
  then show ?case
    by (auto elim!: auth_step.cases simp: reload_now_ok)
      (simp_all add: auth_ok_def auth_call_tokens mcp_role_tokens)
qed

subsection \<open>The rate limit\<close>

text \<open>Refusals of peers at given instants, oldest first, and the lines logged: the peer and the instant.\<close>

fun log_lines :: "('ip option \<times> nat) list \<Rightarrow> ('ip option \<times> nat \<times> nat) list \<Rightarrow> ('ip option \<times> nat) list" where
  "log_lines [] g = []"
| "log_lines ((ip, now) # es) g =
     (case limit ip now g of
        (None, g) \<Rightarrow> log_lines es g
      | (Some _, g) \<Rightarrow> (ip, now) # log_lines es g)"

lemma limit_None:
  "fst (limit ip now g) = None \<longleftrightarrow> (\<exists>at n. map_of (pruned now g) ip = Some (at, n) \<and> now - at < REFUSAL_LOG_WINDOW)"
  by (auto simp: limit_def split: option.splits if_splits)

lemma map_of_filter_value:
  "\<lbrakk>distinct (map fst g); map_of g k = Some v; P v\<rbrakk> \<Longrightarrow> map_of (filter (\<lambda>(_, v). P v) g) k = Some v"
  by (induction g) (auto simp: map_of_eq_None_iff image_iff split: if_splits)

text \<open>A line logged at \<open>t\<close> is remembered while it is younger than the window.\<close>

definition remembers :: "('ip option \<times> nat \<times> nat) list \<Rightarrow> 'ip option \<Rightarrow> nat \<Rightarrow> bool" where
  "remembers g ip t \<longleftrightarrow> distinct (map fst g) \<and> (\<exists>n. map_of g ip = Some (t, n))"

lemma pruned_distinct: "distinct (map fst g) \<Longrightarrow> distinct (map fst (pruned now g))"
  by (simp add: pruned_def distinct_map_filter)

lemma limit_distinct: "distinct (map fst g) \<Longrightarrow> distinct (map fst (snd (limit ip now g)))"
proof (cases "map_of (pruned now g) ip")
  case None
  assume "distinct (map fst g)"
  moreover have "ip \<notin> fst ` set (pruned now g)" using None by (simp add: map_of_eq_None_iff)
  ultimately show ?thesis using pruned_distinct [of g now] by (simp add: limit_def None)
qed (use pruned_distinct [of g now] in \<open>auto simp: limit_def distinct_update\<close>)

lemma limit_remembers:
  assumes "remembers g ip' t" and "now - t < REFUSAL_LOG_WINDOW"
  shows "remembers (snd (limit ip now g)) ip' t" and "ip = ip' \<Longrightarrow> fst (limit ip now g) = None"
proof -
  obtain n where n: "map_of g ip' = Some (t, n)" and d: "distinct (map fst g)"
    using assms(1) by (auto simp: remembers_def)
  have eq: "(\<lambda>(_, at, _). now - at < REFUSAL_LOG_WINDOW) = (\<lambda>(_ :: 'a option, v). now - fst v < REFUSAL_LOG_WINDOW)"
    by (auto simp: fun_eq_iff)
  have g: "map_of (pruned now g) ip' = Some (t, n)"
    using map_of_filter_value [OF d n, of "\<lambda>v. now - fst v < REFUSAL_LOG_WINDOW"] assms(2) n by (simp add: pruned_def eq)
  then show "ip = ip' \<Longrightarrow> fst (limit ip now g) = None" using assms(2) by (auto simp: limit_None)
  have "\<exists>n. map_of (snd (limit ip now g)) ip' = Some (t, n)"
    using g assms(2) by (cases "map_of (pruned now g) ip") (auto simp: limit_def update_conv)
  then show "remembers (snd (limit ip now g)) ip' t" using limit_distinct [OF d] by (simp add: remembers_def)
qed

lemma limit_logged:
  assumes "fst (limit ip now g) = Some k" and "distinct (map fst g)"
  shows "remembers (snd (limit ip now g)) ip now"
proof -
  have "\<exists>n. map_of (snd (limit ip now g)) ip = Some (now, n)"
    using assms(1) by (cases "map_of (pruned now g) ip") (auto simp: limit_def update_conv split: if_splits)
  then show ?thesis using limit_distinct [OF assms(2)] by (simp add: remembers_def)
qed

lemma log_lines_times: "x \<in> set (log_lines es g) \<Longrightarrow> snd x \<in> snd ` set es"
proof (induction es arbitrary: g)
  case (Cons e es)
  obtain l g' where "limit (fst e) (snd e) g = (l, g')" by fastforce
  then show ?case using Cons by (cases e; cases l) auto
qed simp

lemma log_lines_later:
  "\<lbrakk>sorted (map snd es); remembers g ip t; (ip, t') \<in> set (log_lines es g)\<rbrakk> \<Longrightarrow> t' - t \<ge> REFUSAL_LOG_WINDOW"
proof (induction es arbitrary: g)
  case (Cons e es)
  obtain ip1 now where e: "e = (ip1, now)" by fastforce
  obtain l g' where l: "limit ip1 now g = (l, g')" by fastforce
  show ?case
  proof (cases "now - t < REFUSAL_LOG_WINDOW")
    case True
    note m = limit_remembers [OF Cons.prems(2) True, of ip1]
    have "remembers g' ip t" "ip1 = ip \<Longrightarrow> l = None" using m l by simp_all
    moreover from this(2) have "(ip, t') \<in> set (log_lines es g')"
      using Cons.prems(3) l e by (cases l) auto
    ultimately show ?thesis using Cons.IH Cons.prems(1) by simp
  next
    case False
    have "t' = now \<or> t' \<in> snd ` set es"
      using Cons.prems(3) l e log_lines_times [of "(ip, t')" es g'] by (cases l) auto
    then have "now \<le> t'" using Cons.prems(1) e by auto
    then show ?thesis using False by simp
  qed
qed simp

subsection \<open>Properties\<close>

text \<open>
  C29: the decision on a call is the role table's. In every state a node reaches by loading, reloading and serving,
  with authentication on, a call passes exactly when its method is listed and the request holds what the
  method needs: nothing for an open one, a live token of a sufficient role, or the cluster secret, which
  alone opens node methods and the two join probes and otherwise needs a forwarding node that vouches for
  a sufficient role. A method outside the table is refused for every credential. A caller admitted to a
  write method acts as a writer, and one admitted to a node method is a node.
\<close>

theorem auth_check_decides:
  assumes "auth_reachable env a" and "au_tokens a = Some tokens"
  shows "((\<exists>c. fst (auth_check env path h conn now a) = Inr c) \<longleftrightarrow>
      authorized_for (need_of path) env path h (so_cur tokens) (map_option so_cur (au_secret a)) now)
    \<and> (case fst (auth_check env path h conn now a) of
         Inr c \<Rightarrow> (need_of path = Some NeedWrite \<longrightarrow> caller_role c = Some RoleWrite) \<and>
                  (need_of path = Some NeedNode \<longrightarrow> ca_kind c = NodeCaller None None)
       | Inl _ \<Rightarrow> True)"
proof (cases "need_of path")
  case (Some need)
  have d: "distinct (map te_digest (so_cur tokens))"
    using auth_reachable_ok [OF assms(1)] assms(2) by (simp add: auth_ok_def token_set_ok_def)
  let ?d = "decide path need
    (credential env (hd_get h AUTHORIZATION) (so_cur tokens) (map_option so_cur (au_secret a)) now) h"
  have check: "fst (auth_check env path h conn now a) =
      (case ?d of Inl r \<Rightarrow> Inl r | Inr k \<Rightarrow> Inr \<lparr>ca_kind = k, ca_conn = conn\<rparr>)"
    by (simp add: auth_check_def assms(2) Some Let_def split: sum.splits)
  have "(\<exists>c. fst (auth_check env path h conn now a) = Inr c) \<longleftrightarrow> (\<exists>k. ?d = Inr k)"
    unfolding check by (auto split: sum.splits)
  then have "(\<exists>c. fst (auth_check env path h conn now a) = Inr c) \<longleftrightarrow>
      authorized_for (need_of path) env path h (so_cur tokens) (map_option so_cur (au_secret a)) now"
    unfolding Some decide_authorized [OF d] .
  moreover have "case fst (auth_check env path h conn now a) of
      Inr c \<Rightarrow> (need_of path = Some NeedWrite \<longrightarrow> caller_role c = Some RoleWrite) \<and>
        (need_of path = Some NeedNode \<longrightarrow> ca_kind c = NodeCaller None None)
    | Inl _ \<Rightarrow> True"
    unfolding check using decide_role by (auto simp: Some split: sum.splits)
  ultimately show ?thesis by blast
qed (simp add: auth_check_def assms(2))

text \<open>
  C34: a refused caller learns nothing about why its credential failed. A call to a listed method that is not
  open, by a request that holds neither a live token nor the cluster secret, is answered with one fixed
  status, the same for a missing, malformed, unknown and expired credential; and so is every call to a node
  method without the secret, a valid client token included.
\<close>

theorem refusals_look_alike:
  assumes "auth_reachable env a" and "au_tokens a = Some tokens" and "need_of path = Some need" and "need \<noteq> NeedOpen"
    and "\<not> holds_secret env h (map_option so_cur (au_secret a))"
    and "need = NeedNode \<or> (\<nexists>e. holds_token env h (so_cur tokens) now e)"
  shows "fst (auth_call os pb env path h conn ip now instant a) =
    Answered (store_error_to_status os pb (Unauthenticated UNAUTHENTICATED_MSG))"
proof -
  have d: "distinct (map te_digest (so_cur tokens))"
    using auth_reachable_ok [OF assms(1)] assms(2) by (simp add: auth_ok_def token_set_ok_def)
  let ?c = "credential env (hd_get h AUTHORIZATION) (so_cur tokens) (map_option so_cur (au_secret a)) now"
  have c: "?c \<noteq> CSecret" "need = NeedNode \<or> (\<forall>e. ?c \<noteq> CToken e)"
    using assms(5,6) credential_CToken [OF d] credential_CSecret by blast+
  then obtain r where r: "decide path need ?c h = Inl r" "refusal_error r = Unauthenticated UNAUTHENTICATED_MSG"
    using assms(4) by (cases need; cases ?c)
      (auto simp: decide_def cred_unauth_def unauth_def refusal_error_def)
  have "\<exists>a'. auth_check env path h conn now a = (Inl r, a')"
    by (simp add: auth_check_def assms(2,3) Let_def r)
  then show ?thesis
    using assms(2) r(2) by (auto simp: auth_call_def auth_enabled_def split: prod.splits)
qed

text \<open>
  C35: one peer cannot flood the log. Over any sequence of refusals, from any number of peers and however many
  entries the limiter drops, two lines logged for the same peer are at least the window of ten seconds apart.
\<close>

theorem refusal_log_rate:
  assumes "sorted (map snd es)" and "log_lines es [] = before @ (ip, t) # between @ (ip, t') # after"
  shows "t + REFUSAL_LOG_WINDOW \<le> t'"
proof -
  have "t + REFUSAL_LOG_WINDOW \<le> t'"
    if "distinct (map fst g)" "log_lines es g = before @ (ip, t) # between @ (ip, t') # after" for g
    using that assms(1)
  proof (induction es arbitrary: g before)
    case (Cons e es)
    obtain ip1 now where e: "e = (ip1, now)" by fastforce
    obtain l g' where l: "limit ip1 now g = (l, g')" by fastforce
    have d: "distinct (map fst g')" using limit_distinct [OF Cons.prems(1), of ip1 now] l by simp
    show ?case
    proof (cases l)
      case None
      then show ?thesis using Cons.IH [OF d] Cons.prems l e by simp
    next
      case (Some k)
      then have eq: "(ip1, now) # log_lines es g' = before @ (ip, t) # between @ (ip, t') # after"
        using Cons.prems(2) l e by simp
      show ?thesis
      proof (cases before)
        case Nil
        then have now: "ip1 = ip" "now = t" "(ip, t') \<in> set (log_lines es g')" using eq by auto
        have "remembers g' ip t" using limit_logged [of ip1 now g k] Some l Cons.prems(1) now by simp
        moreover have "t \<le> t'" using log_lines_times [OF now(3)] Cons.prems(3) e now by auto
        ultimately show ?thesis using log_lines_later [OF _ _ now(3)] Cons.prems(3) by fastforce
      qed (use Cons.IH [OF d] Cons.prems eq in auto)
    qed
  qed simp
  from this [of "[]"] show ?thesis using assms(2) by simp
qed

text \<open>
  C36: a broken file never locks a node out or opens it up. Reloading swaps the token set only for one the parser
  accepted from the file as it is now; a file that cannot be read, is not UTF-8 or does not validate, or
  that has not changed, keeps the loaded set, and authentication is never switched on or off.
\<close>

theorem reload_keeps_or_validates:
  "(case au_tokens (snd (reload_now env tokens secret a)) of
      None \<Rightarrow> au_tokens a = None
    | Some s' \<Rightarrow>
        \<exists>s. au_tokens a = Some s \<and>
          (so_cur s' = so_cur s \<and> so_loaded s' = so_loaded s
             \<and> fst (fst (reload_now env tokens secret a)) \<in> {Some Unchanged, Some Kept}
           \<or> (\<exists>bytes txt. tokens = Inr bytes \<and> from_utf8 bytes = Some txt
             \<and> parse_token_file (ae_toml env) txt = Inr (so_cur s') \<and> so_loaded s' = ae_hash env bytes
             \<and> fst (fst (reload_now env tokens secret a)) = Some Reloaded)))"
  by (cases "au_tokens a"; cases tokens)
    (auto simp: reload_now_def Let_def source_reload_def split: option.splits sum.splits)

subsection \<open>Witnesses\<close>

definition example_token :: string where
  "example_token = ''mgt_'' @ replicate 43 CHR ''A''"

definition example_env :: auth_env where
  "example_env =
     \<lparr>ae_sha = (\<lambda>v. if v = example_token then replicate 32 0xAA else replicate 32 0), ae_hash = (\<lambda>b. b), ae_toml = example_toml\<rparr>"

definition example_auth :: "nat auth" where
  "example_auth =
     \<lparr>au_tokens = Some \<lparr>so_cur = example_tokens, so_loaded = as_bytes ''[[token]]'', so_failed = None, so_read_failed = False\<rparr>,
      au_secret = None, au_refusals = (\<lambda>_. 0), au_limiter = []\<rparr>"

definition example_headers :: "u8 list option \<Rightarrow> headers" where
  "example_headers authorization =
     \<lparr>hd_get = (\<lambda>n. if n = AUTHORIZATION then authorization else None), hd_to_str = (\<lambda>b. Some (of_bytes b))\<rparr>"

lemma example_token_format: "check_format example_token = Some TokenCred"
  by (simp add: check_format_def example_token_def strip_prefix_def TOKEN_PREFIX_def BODY_LEN_def list_all_iff is_b64url_def
      is_alphanumeric_char_def is_digit_char_def)

lemma example_auth_reachable: "auth_reachable example_env example_auth"
proof (rule auth_reachable.loaded)
  have "from_utf8 (as_bytes ''[[token]]'') = Some ''[[token]]''" by (rule from_utf8_ascii) simp
  then show "auth_load example_env (Some (''tokens.toml'', Inr (as_bytes ''[[token]]''))) None False = Inr example_auth"
    using example_token_file by (simp add: auth_load_def source_load_def example_env_def example_auth_def)
qed

theorem auth_check_decides_witness:
  "\<exists>c. fst (auth_check example_env ''/memory_graph.v1.Write/Index''
       (example_headers (Some (as_bytes (''Bearer '' @ example_token)))) 1 0 example_auth) = Inr c"
proof -
  let ?h = "example_headers (Some (as_bytes (''Bearer '' @ example_token)))"
  have need: "need_of ''/memory_graph.v1.Write/Index'' = Some NeedWrite"
    by (simp add: need_of_def strip_prefix_def HEALTH_def STORE_def WRITE_def)
  have "holds_token example_env ?h example_tokens 0 (hd example_tokens)"
    using parse_bearer_value [OF example_token_format]
    by (simp add: holds_token_def example_headers_def example_tokens_def example_env_def expired_def)
  moreover have "te_role (hd example_tokens) = RoleWrite" by (simp add: example_tokens_def)
  ultimately have "authorized_for (need_of ''/memory_graph.v1.Write/Index'') example_env ''/memory_graph.v1.Write/Index'' ?h
      example_tokens None 0"
    unfolding need authorized_for.simps by blast
  then show ?thesis
    using auth_check_decides [OF example_auth_reachable, of _ "''/memory_graph.v1.Write/Index''" ?h 1 0]
    by (simp add: example_auth_def)
qed

theorem refusals_look_alike_witness:
  "fst (auth_call Linux example_prost example_env ''/memory_graph.v1.Write/Index'' (example_headers None) 1 (Some 7) 0 0 example_auth) =
     Answered (store_error_to_status Linux example_prost (Unauthenticated UNAUTHENTICATED_MSG))"
proof (rule refusals_look_alike [OF example_auth_reachable])
  show "need_of ''/memory_graph.v1.Write/Index'' = Some NeedWrite"
    by (simp add: need_of_def strip_prefix_def HEALTH_def STORE_def WRITE_def)
qed (simp_all add: example_auth_def holds_secret_def holds_token_def example_headers_def)

theorem refusal_log_rate_witness:
  "log_lines [(Some (1 :: nat), 0), (Some 1, 5), (Some 1, 20000000000)] [] = [(Some 1, 0), (Some 1, 20000000000)]
   \<and> 0 + REFUSAL_LOG_WINDOW \<le> 20000000000"
proof -
  have "log_lines [(Some (1 :: nat), 0), (Some 1, 5), (Some 1, 20000000000)] [] =
      [] @ (Some 1, 0) # [] @ (Some 1, 20000000000) # []"
    by (simp add: limit_def pruned_def REFUSAL_LOG_WINDOW_def)
  then show ?thesis using refusal_log_rate [of "[(Some 1, 0), (Some 1, 5), (Some 1, 20000000000)]"] by fastforce
qed

end
