(* ===== verification/Spec2Isabelle.thy ===== *)
theory Spec2Isabelle
  imports Stream_Access Postings Scan Nested_Ends Traverse Commit Catalog Disk_Stall Auth
begin

text \<open>
  Verification of memory-graph, an index of source code. A file is decoded to text, tokenized, given symbols
  by the extractor of its language, checked, and stored as one encoded stream beside catalog and dictionary
  rows; queries decode streams in whole or in part and walk the tree of nodes. A server replicates the
  writes over a Raft log, checks every call against a role table and sends errors to clients as typed
  statuses. All source paths below are under src/crates.

  \<^bold>\<open>Conventions.\<close> Rust integers of fixed width are words and wrap where the code wraps; \<open>usize\<close> is \<open>nat\<close>, with
  overflow written out where it is checked. A \<open>str\<close> is the list of its UTF-8 bytes; the tokenizer's text is
  the list of its scalar values. A \<open>Result\<close> is a sum with \<open>Inl\<close> the error and \<open>bindE\<close> for the question mark;
  state is passed explicitly. Third-party code is an argument: the record \<open>unicode\<close> (character tables),
  \<open>codecs\<close> (encoding_rs, chardetng), \<open>json\<close> and \<open>codec_json\<close> (serde_json), \<open>prost\<close>, \<open>toml\<close>, \<open>redb\<close>, and the hashes
  of sha2; what is relied on of it is a named predicate (\<open>codecs_ok\<close>, \<open>names_ok\<close>, \<open>json_ok\<close>, \<open>raft_json_ok\<close>,
  \<open>prost_ok\<close>), shown satisfiable by the witness of each property that assumes it.

  \<^bold>\<open>Base.\<close> Prelude holds the shared vocabulary, Utf8 the byte level of \<open>str\<close>, Schema the data model and the error
  type (graph-core/src/schema.rs, graph-store/src/lib.rs), Ordered_Table the ordered tables with the locale
  \<open>keyed_table\<close>.

  \<^bold>\<open>Stream codec\<close> (graph-store/src/codec.rs). Varint, Stream_Codec, Stream_Ranges, Stream_Roundtrip and
  Stream_Access model the writers as the bytes they append and the reader as explicit state. Shown: decoding
  inverts encoding; random access through the checkpoints visits exactly the records of the full decode, on
  any bytes the decoder accepts; token ranges are the extents of the tokens under a symbol; whatever is
  decoded from arbitrary bytes has its links and checkpoints in range. The locales \<open>field_codec\<close>, \<open>row_codec\<close>
  and \<open>token_view\<close> carry the arguments shared by the record kinds. Postings does the same for postings,
  dictionary blocks and file keys.

  \<^bold>\<open>Tokenizer\<close> (graph-core/src/tokenizer.rs). Lex_Options, Lex_Rules and Lexer hold the dialects, the length
  functions and the loops; Lex_Bounds and Lexer_Tiling show that every rule makes progress, so the loops
  return for every text and dialect, and that the tokens tile the text with exact spans. Scan and
  Nested_Ends (graph-core/src/scan.rs) model the helpers of the extractors: one-pass tables equal the
  forward scans they replace (locale \<open>close_scan\<close>), and the memo of nested scans never changes an answer.

  \<^bold>\<open>Files\<close>. Encoding (encoding.rs) decides and applies the encoding of a file, Paths (language.rs) its normal
  path and language, Registry (extractor.rs, locale \<open>last_wins\<close>) its extractor. Spans, Fingerprint, Tables,
  Prepare, Commit and Catalog follow graph-store/src/common.rs: span validation accepts exactly the
  well-nested extractions; a fingerprint gives its extractor version back; preparing a file has the listed
  outcomes and no others; the check made while preparing changes what a commit does in one case only, a file
  whose token spans are refused and whose stored copy matched; a commit of an unchanged file touches nothing
  but its origin; tallies count and undo exactly; \<open>describe\<close> fails exactly on a malformed catalog or a failed
  read. Pattern (pattern.rs, cache_size.rs) is
  the pattern language, and Traverse (api.rs) the traversals and pages, which return on every store, cyclic
  ones included.

  \<^bold>\<open>Raft log\<close> (graph-server/src/raft/log_store.rs, disk_stall.rs, disk.rs). Raft_Log models the entry framing, the
  tables and the operations openraft calls, and shows that they refine an abstract log of consecutive
  entries after a purge point. Disk_Stall puts the writes under the retry loop for full disks: each happens
  once or not at all, and completes when space comes back.

  \<^bold>\<open>Calls and errors.\<close> Wire_Error (graph-proto/src/error.rs) sends store errors as statuses and back without loss.
  Credentials (graph-proto/src/auth.rs, graph-server/src/auth.rs) reads bearer headers, token files, dates
  with fractions and offsets, and secret files; Auth models the decision on a call and the life of the node's authentication state as
  the inductive relation \<open>auth_step\<close>. Shown: in every reachable state the decision is the role table's, a
  refusal does not tell why a credential failed, the refusal log is rate limited, and a reload keeps the
  loaded set or replaces it by one the parser accepted.

  \<^bold>\<open>Loops.\<close> Loops with a bound are structural or have a termination proof; those whose end depends on the data are
  partial functions with values in \<open>option\<close>, and the properties that say they return are proved without a
  bound on fuel: the tokenizer from the progress of every rule, nested scans from steps that never go back,
  page reading from the length of the listing, the retry loop from a rank of the world that each full disk
  lowers and from the limit of five reopenings.

  \<^bold>\<open>Not modelled.\<close> The v2 backend (graph-store/src/v2.rs) is transactions over redb: its table layout and writer
  are left out, the logic of codec, common and api it calls is in. The extractors of the languages are
  heuristics over the tokenizer and the scan helpers, without a specification beyond the validation shown
  here. The Raft state machine, node, network and snapshot files, the gRPC and MCP services, the client, the
  command line, backup, telemetry and the start-up of a node are I/O and glue over openraft, tonic, object
  stores and the file system. The name cache, the scratch budget and the store slot are locks and atomics
  around values modelled elsewhere. Conformance suites and test hooks are test code. Of the modelled parts,
  storage errors of redb on reads other than those of \<open>describe\<close>, log lines, the metrics counters of reads and overflow of the signed
  tallies are left out.
\<close>

end
